(* ===== verification/Prelude.thy ===== *)
theory Prelude
  imports Main "HOL-Library.Word" "HOL-Library.Finite_Map" "HOL-Library.Multiset"
begin

unbundle bit_operations_syntax

text \<open>
  The shared vocabulary of the development.

  \<^item> The types of the wire code: a byte is an \<open>8 word\<close>, a Go \<open>[]byte\<close> is a list of
    bytes, a Go slice expression \<open>xs[a:b]\<close> is \<open>slice a b xs\<close>, and an instant of
    \<open>time.Time\<close> is an \<open>int\<close> number of nanoseconds that every operation reading the
    clock takes as an argument.
  \<^item> The fixed-width integer encodings of Go's \<open>encoding/binary\<close>, little and big
    endian, over natural numbers with their round trips.
  \<^item> \<open>%d\<close> rendering of natural numbers, as used to build map keys.
  \<^item> Cutting a list into pieces of equal size, as every fragmenter here does.
  \<^item> Finite maps with a filter on the values, as the expiry loops over Go maps do.
\<close>

section \<open>Types and collections\<close>

type_synonym byte = "8 word"
type_synonym bytes = "byte list"
type_synonym instant = int

named_theorems wire_simps \<open>equations of wire encoders and decoders\<close>
named_theorems go_defs \<open>definitions of the modelled operations, for unfolding\<close>

section \<open>Slices\<close>

definition slice :: "nat \<Rightarrow> nat \<Rightarrow> 'a list \<Rightarrow> 'a list" where
  "slice a b xs = take (b - a) (drop a xs)"

lemma length_slice [simp]: "length (slice a b xs) = min (b - a) (length xs - a)"
  by (simp add: slice_def min.commute)

lemma slice_0 [simp]: "slice 0 b xs = take b xs"
  by (simp add: slice_def)

lemma slice_append_right [simp]:
  "length xs = a \<Longrightarrow> slice a b (xs @ ys) = take (b - a) ys"
  by (simp add: slice_def)

lemma slice_append_left:
  "b \<le> length xs \<Longrightarrow> slice a b (xs @ ys) = slice a b xs"
  by (simp add: slice_def)

lemma slice_append_skip:
  "length xs \<le> a \<Longrightarrow> slice a b (xs @ ys) = slice (a - length xs) (b - length xs) ys"
  by (simp add: slice_def)

lemma nth_slice: "i < b - a \<Longrightarrow> a + i < length xs \<Longrightarrow> slice a b xs ! i = xs ! (a + i)"
  by (simp add: slice_def)

lemma drop_eq_slice: "a \<le> b \<Longrightarrow> drop a xs = slice a b xs @ drop b xs"
  by (simp add: slice_def) (metis append_take_drop_id drop_drop le_add_diff_inverse2)

lemma Cons_slice: "xs \<noteq> [] \<Longrightarrow> xs = xs ! 0 # drop 1 xs"
  by (cases xs) simp_all

lemma take_append_slice: "a \<le> b \<Longrightarrow> take a xs @ slice a b xs = take b xs"
  by (simp add: slice_def) (metis le_add_diff_inverse take_add)

section \<open>Integers on the wire\<close>

text \<open>\<open>le_bytes n v\<close> is the value \<open>v mod 256 ^ n\<close> in \<open>n\<close> bytes, least significant
  first: \<open>binary.LittleEndian.PutUint16\<close> for \<open>n = 2\<close>, \<open>PutUint32\<close> for 4.\<close>

fun le_bytes :: "nat \<Rightarrow> nat \<Rightarrow> bytes" where
  "le_bytes 0 v = []"
| "le_bytes (Suc n) v = of_nat (v mod 256) # le_bytes n (v div 256)"

fun le_val :: "bytes \<Rightarrow> nat" where
  "le_val [] = 0"
| "le_val (b # bs) = unat b + 256 * le_val bs"

definition be_bytes :: "nat \<Rightarrow> nat \<Rightarrow> bytes" where
  "be_bytes n v = rev (le_bytes n v)"

definition be_val :: "bytes \<Rightarrow> nat" where
  "be_val bs = le_val (rev bs)"

lemma unat_less_exp: "unat (w :: 'a::len word) < 2 ^ LENGTH('a)"
  by (rule unsigned_less)

lemma unat_byte_less [simp]: "unat (b :: byte) < 256"
  using unat_less_exp [of b] by simp

lemma unat_pred: "0 < unat w \<Longrightarrow> unat (w - 1 :: 'a::len word) = unat w - 1"
  by (metis unat_minus_one unat_gt_0 unsigned_0 less_numeral_extra(3))

lemma unat_of_nat_byte [simp]: "unat (of_nat n :: byte) = n mod 256"
  by (simp add: unat_of_nat)

lemma length_le_bytes [simp]: "length (le_bytes n v) = n"
  by (induction n arbitrary: v) auto

lemma le_bytes_2: "le_bytes 2 v = [of_nat (v mod 256), of_nat (v div 256 mod 256)]"
  by (simp add: numeral_2_eq_2)

lemma length_be_bytes [simp]: "length (be_bytes n v) = n"
  by (simp add: be_bytes_def)

lemma le_val_le_bytes [simp]: "le_val (le_bytes n v) = v mod 256 ^ n"
  by (induction n arbitrary: v) (auto simp: mod_mult2_eq mult.commute)

lemma be_val_be_bytes [simp]: "be_val (be_bytes n v) = v mod 256 ^ n"
  by (simp add: be_val_def be_bytes_def)

lemma le_val_bound: "le_val bs < 256 ^ length bs"
proof (induction bs)
  case (Cons b bs)
  have "unat b + 256 * le_val bs < 256 + 256 * le_val bs"
    by simp
  also have "\<dots> \<le> 256 * 256 ^ length bs"
    using Cons.IH by (simp add: Suc_le_eq flip: mult_Suc_right)
  finally show ?case by simp
qed simp

lemma le_bytes_le_val [simp]: "length bs = n \<Longrightarrow> le_bytes n (le_val bs) = bs"
  by (induction bs arbitrary: n) auto

lemma be_bytes_be_val [simp]: "length bs = n \<Longrightarrow> be_bytes n (be_val bs) = bs"
  by (simp add: be_bytes_def be_val_def)

lemma be_val_bound: "be_val bs < 256 ^ length bs"
  using le_val_bound [of "rev bs"] by (simp add: be_val_def)

lemma unat_u16_mod [simp]: "unat (w :: 16 word) mod 65536 = unat w"
  using unat_less_exp [of w] by simp

lemma unat_u32_mod [simp]: "unat (w :: 32 word) mod 4294967296 = unat w"
  using unat_less_exp [of w] by simp

lemma unat_u64_mod [simp]: "unat (w :: 64 word) mod 18446744073709551616 = unat w"
  using unat_less_exp [of w] by simp

definition put_u16_le :: "16 word \<Rightarrow> bytes" where
  "put_u16_le w = le_bytes 2 (unat w)"

definition get_u16_le :: "bytes \<Rightarrow> 16 word" where
  "get_u16_le bs = of_nat (le_val bs)"

definition put_u32_le :: "32 word \<Rightarrow> bytes" where
  "put_u32_le w = le_bytes 4 (unat w)"

definition get_u32_le :: "bytes \<Rightarrow> 32 word" where
  "get_u32_le bs = of_nat (le_val bs)"

lemma length_put_le [simp]:
  "length (put_u16_le w) = 2" "length (put_u32_le v) = 4"
  by (simp_all add: put_u16_le_def put_u32_le_def)

lemma get_put_le [simp]:
  "get_u16_le (put_u16_le w) = w" "get_u32_le (put_u32_le v) = v"
  by (simp_all add: put_u16_le_def get_u16_le_def put_u32_le_def get_u32_le_def)

lemma put_get_u16_le: "length bs = 2 \<Longrightarrow> put_u16_le (get_u16_le bs) = bs"
  using le_val_bound [of bs]
  by (simp add: put_u16_le_def get_u16_le_def unat_of_nat)

lemma put_get_u32_le: "length bs = 4 \<Longrightarrow> put_u32_le (get_u32_le bs) = bs"
  using le_val_bound [of bs]
  by (simp add: put_u32_le_def get_u32_le_def unat_of_nat)

text \<open>The same fields, most significant byte first.\<close>

definition put_u16_be :: "16 word \<Rightarrow> bytes" where
  "put_u16_be w = be_bytes 2 (unat w)"

definition get_u16_be :: "bytes \<Rightarrow> 16 word" where
  "get_u16_be bs = of_nat (be_val bs)"

definition put_u32_be :: "32 word \<Rightarrow> bytes" where
  "put_u32_be w = be_bytes 4 (unat w)"

definition get_u32_be :: "bytes \<Rightarrow> 32 word" where
  "get_u32_be bs = of_nat (be_val bs)"

definition put_u64_be :: "64 word \<Rightarrow> bytes" where
  "put_u64_be w = be_bytes 8 (unat w)"

definition get_u64_be :: "bytes \<Rightarrow> 64 word" where
  "get_u64_be bs = of_nat (be_val bs)"

lemma length_put_be [simp]:
  "length (put_u16_be w) = 2" "length (put_u32_be v) = 4" "length (put_u64_be u) = 8"
  by (simp_all add: put_u16_be_def put_u32_be_def put_u64_be_def)

lemma get_put_be [simp]:
  "get_u16_be (put_u16_be w) = w" "get_u32_be (put_u32_be v) = v" "get_u64_be (put_u64_be u) = u"
  by (simp_all add: put_u16_be_def get_u16_be_def put_u32_be_def get_u32_be_def put_u64_be_def get_u64_be_def)

lemma put_get_u16_be [simp]: "length bs = 2 \<Longrightarrow> put_u16_be (get_u16_be bs) = bs"
  using be_val_bound [of bs]
  by (simp add: put_u16_be_def get_u16_be_def unat_of_nat)

lemma put_get_u32_be [simp]: "length bs = 4 \<Longrightarrow> put_u32_be (get_u32_be bs) = bs"
  using be_val_bound [of bs]
  by (simp add: put_u32_be_def get_u32_be_def unat_of_nat)

lemma put_get_u64_be [simp]: "length bs = 8 \<Longrightarrow> put_u64_be (get_u64_be bs) = bs"
  using be_val_bound [of bs]
  by (simp add: put_u64_be_def get_u64_be_def unat_of_nat)

section \<open>Bit fields packed into one word\<close>

lemma take_bit_small_word: "unat (w :: 'a::len word) < 2 ^ n \<Longrightarrow> take_bit n w = w"
  by (simp add: word_unat_eq_iff unsigned_take_bit_eq take_bit_nat_eq_self)

lemma bit_small_word: "unat (w :: 'a::len word) < 2 ^ n \<Longrightarrow> bit w k \<Longrightarrow> k < n"
  by (metis bit_take_bit_iff take_bit_small_word)

lemma drop_bit_field:
  fixes hi lo :: "'a::len word"
  assumes "n \<le> LENGTH('a)" "unat hi < 2 ^ (LENGTH('a) - n)" "unat lo < 2 ^ n"
  shows "drop_bit n (push_bit n hi OR lo) = hi"
proof (rule bit_word_eqI)
  fix k
  show "bit (drop_bit n (push_bit n hi OR lo)) k = bit hi k"
    using bit_small_word [OF assms(2), of k] bit_small_word [OF assms(3), of "n + k"]
    by (auto simp: bit_simps)
qed

lemma take_bit_field:
  fixes hi lo :: "'a::len word"
  assumes "unat lo < 2 ^ n"
  shows "take_bit n (push_bit n hi OR lo) = lo"
proof (rule bit_word_eqI)
  fix k
  show "bit (take_bit n (push_bit n hi OR lo)) k = bit lo k"
    using bit_small_word [OF assms, of k] by (auto simp: bit_simps)
qed

lemma nibble_mask: "(w :: byte) AND 0x0F = take_bit 4 w"
  by (simp add: take_bit_eq_mask mask_eq_exp_minus_1)

lemma unat_take_bit_word: "unat (take_bit n (w :: 'a::len word)) = unat w mod 2 ^ n"
  by (metis take_bit_eq_mod unsigned_take_bit_eq)

lemma unat_drop_bit_word: "unat (drop_bit n (w :: 'a::len word)) = unat w div 2 ^ n"
  by (metis drop_bit_eq_div unat_drop_bit_eq)

section \<open>Decimal rendering\<close>

text \<open>The \<open>%d\<close> verb of \<open>fmt.Sprintf\<close> on a non-negative integer.\<close>

fun dec_digits :: "nat \<Rightarrow> string" where
  "dec_digits n = (if n < 10 then [char_of (48 + n)]
                   else dec_digits (n div 10) @ [char_of (48 + n mod 10)])"

declare dec_digits.simps [simp del]

fun dec_value :: "string \<Rightarrow> nat" where
  "dec_value [] = 0"
| "dec_value (c # cs) = (of_char c - 48) * 10 ^ length cs + dec_value cs"

lemma dec_value_append: "dec_value (cs @ ds) = dec_value cs * 10 ^ length ds + dec_value ds"
  by (induction cs) (auto simp: algebra_simps power_add)

lemma dec_value_digits: "dec_value (dec_digits n) = n"
proof (induction n rule: dec_digits.induct)
  case (1 n)
  show ?case
  proof (cases "n < 10")
    case True
    then show ?thesis by (subst dec_digits.simps) simp
  next
    case False
    then have "dec_value (dec_digits (n div 10)) = n div 10" using "1" by simp
    with False show ?thesis
      by (subst dec_digits.simps) (simp add: dec_value_append)
  qed
qed

lemma dec_digits_inject [simp]: "dec_digits m = dec_digits n \<longleftrightarrow> m = n"
  by (metis dec_value_digits)

lemma dec_digits_range: "c \<in> set (dec_digits n) \<Longrightarrow> 48 \<le> (of_char c :: nat) \<and> of_char c \<le> (57 :: nat)"
proof (induction n rule: dec_digits.induct)
  case (1 n)
  show ?case
  proof (cases "n < 10")
    case True
    with "1.prems" show ?thesis by (simp add: dec_digits.simps [of n])
  next
    case False
    with "1.prems" have "c \<in> set (dec_digits (n div 10)) \<or> c = char_of (48 + n mod 10)"
      by (auto simp: dec_digits.simps [of n])
    moreover have "n mod 10 < 10" by simp
    then have "48 + n mod 10 \<le> 57" by linarith
    ultimately show ?thesis using "1.IH" [OF False] by auto
  qed
qed

lemma colon_notin_dec_digits: "CHR '':'' \<notin> set (dec_digits n)"
  using dec_digits_range [of "CHR '':''" n] by (auto simp: of_char_def)

text \<open>A key built as \<open>prefix:number\<close> determines both parts, whatever the prefix.\<close>

lemma append_sep_inject:
  assumes "x \<notin> set bs" "x \<notin> set ds" "as @ x # bs = cs @ x # ds"
  shows "as = cs \<and> bs = ds"
proof -
  have "rev bs @ x # rev as = rev ds @ x # rev cs"
    using arg_cong [OF assms(3), of rev] by simp
  moreover have "takeWhile (\<lambda>y. y \<noteq> x) (rev bs @ x # rev as) = rev bs"
    and "takeWhile (\<lambda>y. y \<noteq> x) (rev ds @ x # rev cs) = rev ds"
    using assms(1,2) by (subst takeWhile_append2; auto)+
  ultimately have "rev bs = rev ds" by simp
  with assms(3) show ?thesis by simp
qed

section \<open>Pieces of equal size\<close>

text \<open>\<open>piece p i xs\<close> is the \<open>i\<close>-th piece of size \<open>p\<close>: the loop body
  \<open>start := i*p; end := min(start+p, len(xs)); xs[start:end]\<close> of the fragmenters.\<close>

definition piece :: "nat \<Rightarrow> nat \<Rightarrow> 'a list \<Rightarrow> 'a list" where
  "piece p i xs = slice (i * p) (min (i * p + p) (length xs)) xs"

lemma piece_slice: "piece p i xs = slice (i * p) (i * p + p) xs"
  by (auto simp: piece_def slice_def min_def)

lemma length_piece: "length (piece p i xs) = min p (length xs - i * p)"
  by (simp add: piece_slice)

lemma length_piece_full: "Suc i * p \<le> length xs \<Longrightarrow> length (piece p i xs) = p"
  by (simp add: length_piece)

lemma concat_pieces: "concat (map (\<lambda>i. piece p i xs) [0..<n]) = take (n * p) xs"
proof (induction n)
  case (Suc n)
  have "concat (map (\<lambda>i. piece p i xs) [0..<Suc n]) = take (n * p) xs @ piece p n xs"
    using Suc.IH by simp
  also have "\<dots> = take (n * p + p) xs"
    by (simp add: piece_slice take_append_slice)
  finally show ?case by (simp add: add.commute)
qed simp

text \<open>\<open>(n + p - 1) / p\<close>, the number of pieces.\<close>

definition div_up :: "nat \<Rightarrow> nat \<Rightarrow> nat" where
  "div_up n p = (n + p - 1) div p"

lemma div_up_covers: "0 < p \<Longrightarrow> n \<le> div_up n p * p"
proof -
  assume p: "0 < p"
  have "n + p - 1 < ((n + p - 1) div p) * p + p"
    using p by (metis add.commute add_less_cancel_left div_mult_mod_eq mod_less_divisor mult.commute)
  then show ?thesis by (simp add: div_up_def)
qed

lemma div_up_tight: "0 < p \<Longrightarrow> 0 < n \<Longrightarrow> (div_up n p - 1) * p < n"
proof -
  assume p: "0 < p" and n: "0 < n"
  have "((n + p - 1) div p) * p \<le> n + p - 1"
    by simp
  then have "div_up n p * p - p < n"
    using p n unfolding div_up_def by linarith
  then show ?thesis by (simp add: diff_mult_distrib)
qed

lemma div_up_0 [simp]: "0 < p \<Longrightarrow> div_up 0 p = 0"
  by (simp add: div_up_def)

lemma div_up_pos: "0 < p \<Longrightarrow> 0 < n \<Longrightarrow> 0 < div_up n p"
  using div_up_covers [of p n] by (cases "div_up n p") auto

lemma div_up_le_iff: "0 < p \<Longrightarrow> div_up n p \<le> k \<longleftrightarrow> n \<le> k * p"
proof
  assume p: "0 < p" and "div_up n p \<le> k"
  then show "n \<le> k * p"
    using div_up_covers [OF p, of n] by (meson le_trans mult_le_mono1)
next
  assume p: "0 < p" and le: "n \<le> k * p"
  show "div_up n p \<le> k"
  proof (rule ccontr)
    assume "\<not> div_up n p \<le> k"
    then have "k \<le> div_up n p - 1" and "0 < n"
      using p by (cases n; force)+
    then have "k * p < n"
      using div_up_tight [OF p, of n] by (meson le_less_trans mult_le_mono1)
    with le show False by simp
  qed
qed

section \<open>Finite maps\<close>

text \<open>Removing the entries whose value satisfies a test: a Go loop over a map that
  deletes as it goes. The result does not depend on the order of the loop.\<close>

definition fmdrop_vals :: "('v \<Rightarrow> bool) \<Rightarrow> ('k, 'v) fmap \<Rightarrow> ('k, 'v) fmap" where
  "fmdrop_vals P m = fmfilter (\<lambda>k. case fmlookup m k of Some v \<Rightarrow> \<not> P v | None \<Rightarrow> True) m"

lemma fmlookup_drop_vals [simp]:
  "fmlookup (fmdrop_vals P m) k =
     (case fmlookup m k of Some v \<Rightarrow> if P v then None else Some v | None \<Rightarrow> None)"
  by (simp add: fmdrop_vals_def split: option.splits)

lemma fmdrop_vals_SomeD:
  "fmlookup (fmdrop_vals P m) k = Some v \<Longrightarrow> fmlookup m k = Some v \<and> \<not> P v"
  by (auto split: option.splits if_splits)

definition fmsize :: "('k, 'v) fmap \<Rightarrow> nat" where
  "fmsize m = fcard (fmdom m)"

lemma fmsize_empty [simp]: "fmsize fmempty = 0"
  by (simp add: fmsize_def)

lemma fmsize_upd: "fmsize (fmupd k v m) = (if k |\<in>| fmdom m then fmsize m else Suc (fmsize m))"
  by (simp add: fmsize_def finsert_absorb fcard_finsert_if)

lemma fmsize_drop: "fmsize (fmdrop k m) = (if k |\<in>| fmdom m then fmsize m - 1 else fmsize m)"
  by (simp add: fmsize_def fcard.rep_eq card_Diff_singleton_if)

definition fmcount_vals :: "('v \<Rightarrow> bool) \<Rightarrow> ('k, 'v) fmap \<Rightarrow> nat" where
  "fmcount_vals P m =
     fcard (ffilter (\<lambda>k. case fmlookup m k of Some v \<Rightarrow> P v | None \<Rightarrow> False) (fmdom m))"

lemma fmsize_drop_Suc: "fmlookup m k = Some v \<Longrightarrow> Suc (fmsize (fmdrop k m)) = fmsize m"
  using fmdomI [of m k v] card_Suc_Diff1 [of "fset (fmdom m)" k]
  by (simp add: fmsize_def fcard.rep_eq del: card_Diff_insert)

lemma fmsize_drop_vals: "fmsize (fmdrop_vals P m) + fmcount_vals P m = fmsize m"
proof -
  let ?Q = "\<lambda>k. case fmlookup m k of Some v \<Rightarrow> P v | None \<Rightarrow> False"
  have "fmdom (fmdrop_vals P m) = ffilter (\<lambda>k. \<not> ?Q k) (fmdom m)"
    by (auto simp: fmdrop_vals_def split: option.splits)
  then have "fmsize (fmdrop_vals P m) = card ({k. \<not> ?Q k} \<inter> fset (fmdom m))"
    by (simp add: fmsize_def fcard.rep_eq)
  moreover have "fmcount_vals P m = card ({k. ?Q k} \<inter> fset (fmdom m))"
    by (simp add: fmcount_vals_def fcard.rep_eq)
  moreover have "card ({k. \<not> ?Q k} \<inter> fset (fmdom m)) + card ({k. ?Q k} \<inter> fset (fmdom m)) =
      card (({k. \<not> ?Q k} \<inter> fset (fmdom m)) \<union> ({k. ?Q k} \<inter> fset (fmdom m)))"
    by (rule card_Un_disjoint [symmetric]) auto
  moreover have "({k. \<not> ?Q k} \<inter> fset (fmdom m)) \<union> ({k. ?Q k} \<inter> fset (fmdom m)) = fset (fmdom m)"
    by auto
  ultimately show ?thesis by (simp add: fmsize_def fcard.rep_eq)
qed

lemma fmdom_drop_vals_subset: "fmdom (fmdrop_vals P m) |\<subseteq>| fmdom m"
  by (auto simp: fmdrop_vals_def)

lemma fmsize_drop_vals_le: "fmsize (fmdrop_vals P m) \<le> fmsize m"
  by (simp add: fmsize_def fcard_mono fmdom_drop_vals_subset)

section \<open>Permuted images\<close>

lemma butlast_upt0 [simp]: "butlast [0..<n] = [0..<n - 1]"
  by (cases n) simp_all

lemma mset_map_permD:
  "mset ys = mset (map f xs) \<Longrightarrow> \<exists>zs. mset zs = mset xs \<and> ys = map f zs"
proof (induction ys arbitrary: xs)
  case (Cons y ys)
  then have "y \<in> set (map f xs)" by (metis list.set_intros(1) set_mset_mset)
  then obtain x where x: "x \<in> set xs" "y = f x" by auto
  then obtain us vs where xs: "xs = us @ x # vs" by (meson split_list)
  then have "mset ys = mset (map f (us @ vs))"
    using Cons.prems x(2) by simp
  then obtain zs where "mset zs = mset (us @ vs)" "ys = map f zs"
    using Cons.IH by blast
  then have "mset (x # zs) = mset xs \<and> y # ys = map f (x # zs)"
    using xs x by simp
  then show ?case by (intro exI [of _ "x # zs"])
qed simp

section \<open>Machine integers\<close>

text \<open>The value an \<open>int\<close> (64 bits, two's complement) holds after an assignment.\<close>

definition go_int64 :: "int \<Rightarrow> int" where
  "go_int64 v = sint (of_int v :: 64 word)"

lemma go_int64_id: "- (2 ^ 63) \<le> v \<Longrightarrow> v < 2 ^ 63 \<Longrightarrow> go_int64 v = v"
  by (simp add: go_int64_def sint_sbintrunc' signed_take_bit_int_eq_self)

section \<open>The builtin \<open>copy\<close>\<close>

definition go_copy :: "'a list \<Rightarrow> 'a list \<Rightarrow> 'a list" where
  "go_copy dst src = take (length dst) src @ drop (length src) dst"

lemma length_go_copy [simp]: "length (go_copy dst src) = length dst"
  by (simp add: go_copy_def)

lemma go_copy_same [simp]: "length src = length dst \<Longrightarrow> go_copy dst src = src"
  by (simp add: go_copy_def)

section \<open>Random identifiers\<close>

text \<open>The version-4 UUID bits, set on 16 random bytes.\<close>

definition uuid4_bits :: "bytes \<Rightarrow> bytes" where
  "uuid4_bits u =
     (let u1 = u[6 := (u ! 6 AND 0x0f) OR 0x40] in u1[8 := (u1 ! 8 AND 0x3f) OR 0x80])"

lemma length_uuid4_bits [simp]: "length (uuid4_bits u) = length u"
  by (simp add: uuid4_bits_def Let_def)

lemma uuid4_bits_version:
  assumes "length u = 16"
  shows "drop_bit 4 (uuid4_bits u ! 6) = 4" "drop_bit 6 (uuid4_bits u ! 8) = 2"
proof -
  have "drop_bit 4 (w AND 0x0F) = 0" "drop_bit 6 (w AND 0x3F) = 0" for w :: byte
    by (rule bit_word_eqI; simp add: bit_simps; (rule impI)?; simp add: bit_numeral_rec numeral_eq_Suc)+
  then show "drop_bit 4 (uuid4_bits u ! 6) = 4" "drop_bit 6 (uuid4_bits u ! 8) = 2"
    using assms by (simp_all add: uuid4_bits_def Let_def drop_bit_or)
qed

end
