(* ===== verification/Runs.thy ===== *)
theory Runs
  imports Prelude
begin

text \<open>
  Runs of a component: a step function folded over a list of events, collecting the
  answers. The locale \<open>timed_simulation\<close> is the contract between a component and its
  abstract specification: from related states, an event at a time not before the last one
  gives the same answer and related states. Its lemma lifts this to runs. Providers: the
  in-memory deduplicator (\<open>Dedup\<close>), the replay window (\<open>Replay\<close>).
\<close>

section \<open>Runs\<close>

text \<open>Running a step function over a list of events, collecting the answers.\<close>

fun run :: "('e \<Rightarrow> 's \<Rightarrow> 'o \<times> 's) \<Rightarrow> 'e list \<Rightarrow> 's \<Rightarrow> 'o list \<times> 's" where
  "run step [] s = ([], s)"
| "run step (e # es) s =
     (let (out, s1) = step e s; (outs, s2) = run step es s1 in (out # outs, s2))"

lemma length_run [simp]: "length (fst (run step es s)) = length es"
  by (induction es arbitrary: s) (simp_all add: case_prod_beta)

text \<open>The answers to the events that satisfy a test.\<close>

definition answers :: "('e \<Rightarrow> bool) \<Rightarrow> 'e list \<Rightarrow> 'o list \<Rightarrow> 'o list" where
  "answers P es outs = map snd (filter (\<lambda>(e, out). P e) (zip es outs))"

lemma answers_Nil [simp]: "answers P [] outs = []"
  by (simp add: answers_def)

lemma answers_Cons [simp]:
  "answers P (e # es) (out # outs) = (if P e then [out] else []) @ answers P es outs"
  by (simp add: answers_def)

section \<open>Simulation\<close>

locale timed_simulation =
  fixes cstep :: "'e \<Rightarrow> 's \<Rightarrow> 'o \<times> 's"
    and astep :: "'e \<Rightarrow> 't \<Rightarrow> 'o \<times> 't"
    and stamp :: "'e \<Rightarrow> instant"
    and rel :: "instant \<Rightarrow> 's \<Rightarrow> 't \<Rightarrow> bool"
  assumes sim_out: "rel now s t \<Longrightarrow> now \<le> stamp e \<Longrightarrow> fst (cstep e s) = fst (astep e t)"
    and sim_rel: "rel now s t \<Longrightarrow> now \<le> stamp e \<Longrightarrow> rel (stamp e) (snd (cstep e s)) (snd (astep e t))"
begin

lemma run_sim:
  assumes "rel now s t" "sorted (map stamp es)" "\<And>e. e \<in> set es \<Longrightarrow> now \<le> stamp e"
  shows "fst (run cstep es s) = fst (run astep es t) \<and>
    (\<exists>last \<ge> now. rel last (snd (run cstep es s)) (snd (run astep es t)))"
  using assms
proof (induction es arbitrary: now s t)
  case (Cons e es)
  have e: "now \<le> stamp e" using Cons.prems(3) by simp
  have "fst (run cstep es (snd (cstep e s))) = fst (run astep es (snd (astep e t))) \<and>
    (\<exists>last \<ge> stamp e. rel last (snd (run cstep es (snd (cstep e s)))) (snd (run astep es (snd (astep e t)))))"
    by (rule Cons.IH [OF sim_rel [OF Cons.prems(1) e]]) (use Cons.prems(2) in auto)
  then show ?case
    using sim_out [OF Cons.prems(1) e] e by (simp add: case_prod_beta) (meson order_trans)
qed auto

end

end
