(* ===== verification/Slots.thy ===== *)
theory Slots
  imports Runs
begin

text \<open>
  The two contracts behind reassembly.

  \<^item> \<open>slot_table\<close>: a table of numbered slots that fills up. A reassembler keeps one such
    table per message: it stores the payload of fragment \<open>i\<close> in slot \<open>i\<close>, counts the
    slots in use and hands the message over once the count reaches the total. A provider
    promises that a store is visible in exactly one slot, keeps the total and the
    representation invariant, and that the count is the number of slots in use.
  \<^item> \<open>keyed_store\<close>: a machine whose state is a table of independent entries. Every event
    touches the entry of its key only; it can be refused only where it would need a new
    entry and there is no room.

  The lemmas say what a sequence of fragments leaves behind, in any order and interleaved
  with any other traffic. Providers: the SBD reassembler (\<open>Fragment\<close>), the DTN bundle
  buffer (\<open>Bundle\<close>) and the IP-over-satellite packet reassembler (\<open>Ipougrs\<close>).
\<close>

section \<open>Entries in use\<close>

text \<open>The entry exists whenever one of the events \<open>es\<close> arrives.\<close>

fun kept :: "('e \<Rightarrow> 'p option \<Rightarrow> 'o \<times> 'p option) \<Rightarrow> 'e list \<Rightarrow> 'p option \<Rightarrow> bool" where
  "kept feed [] cur = True"
| "kept feed (e # es) cur = (cur \<noteq> None \<and> kept feed es (snd (feed e cur)))"

section \<open>Slot tables\<close>

text \<open>Events that carry the fragments \<open>h 0\<close>, ..., \<open>h (n - 1)\<close> in some order, and a
  function that reads the index of a fragment: the events have distinct indices, which are
  all of \<open>0..<n\<close>.\<close>

lemma perm_indices:
  assumes perm: "mset (map g es) = mset (map h [0..<n])"
    and idx: "\<forall>e. \<forall>i < n. g e = h i \<longrightarrow> idx e = i"
  shows "length es = n" "distinct (map idx es)" "idx ` set es = {..<n}"
    "e \<in> set es \<Longrightarrow> g e = h (idx e) \<and> idx e < n"
proof -
  obtain ks where ks: "mset ks = mset [0..<n]" "map g es = map h ks"
    using mset_map_permD [OF perm] by blast
  have set: "set ks = {..<n}" and dist: "distinct ks" and len: "length ks = n"
    using mset_eq_setD [OF ks(1)] mset_eq_imp_distinct_iff [OF ks(1)] mset_eq_length [OF ks(1)]
    by (auto simp: atLeast0LessThan)
  show lenes: "length es = n" using arg_cong [OF ks(2), of length] len by simp
  have nth: "g (es ! j) = h (ks ! j)" "ks ! j < n" if "j < n" for j
    using arg_cong [OF ks(2), of "\<lambda>l. l ! j"] nth_mem [of j ks] that len lenes set by simp_all
  have eq: "map idx es = ks"
    using nth idx lenes len by (intro nth_equalityI) simp_all
  show "distinct (map idx es)" "idx ` set es = {..<n}"
    using eq dist set by (simp, metis list.set_map)
  show "g e = h (idx e) \<and> idx e < n" if "e \<in> set es"
    using that nth idx lenes by (metis in_set_conv_nth)
qed

locale slot_table =
  fixes total :: "'s \<Rightarrow> nat"
    and slot :: "'s \<Rightarrow> nat \<Rightarrow> 'p option"
    and store :: "nat \<Rightarrow> 'p \<Rightarrow> 's \<Rightarrow> 's"
    and filled :: "'s \<Rightarrow> nat"
    and invar :: "'s \<Rightarrow> bool"
  assumes total_store: "invar s \<Longrightarrow> i < total s \<Longrightarrow> total (store i p s) = total s"
    and slot_store: "invar s \<Longrightarrow> i < total s \<Longrightarrow> slot (store i p s) = (slot s)(i \<mapsto> p)"
    and invar_store: "invar s \<Longrightarrow> i < total s \<Longrightarrow> invar (store i p s)"
    and filled_card: "invar s \<Longrightarrow> filled s = card {i. i < total s \<and> slot s i \<noteq> None}"
begin

lemma incomplete_iff:
  assumes inv: "invar s"
  shows "filled s < total s \<longleftrightarrow> (\<exists>i < total s. slot s i = None)"
proof
  assume lt: "filled s < total s"
  show "\<exists>i < total s. slot s i = None"
  proof (rule ccontr)
    assume "\<not> ?thesis"
    then have "{i. i < total s \<and> slot s i \<noteq> None} = {..<total s}" by auto
    then show False using lt filled_card [OF inv] by simp
  qed
next
  assume "\<exists>i < total s. slot s i = None"
  then obtain i where i: "i < total s" "slot s i = None" by blast
  let ?U = "{i. i < total s \<and> slot s i \<noteq> None}"
  have "?U \<subseteq> {..<total s}" by blast
  moreover have "i \<in> {..<total s}" "i \<notin> ?U" using i by simp_all
  ultimately have "?U \<subset> {..<total s}" by blast
  then have "card ?U < card {..<total s}"
    by (intro psubset_card_mono) simp_all
  then show "filled s < total s" by (simp add: filled_card [OF inv])
qed

text \<open>
  The fragments of one message in any order. The events \<open>es\<close> carry the distinct indices
  \<open>0..<n\<close>; \<open>feed\<close> starts a table with \<open>new\<close> where there is none, stores the payload
  \<open>f i\<close> of the event's index, and ends with \<open>fin\<close> once nothing is missing. Then all
  answers but the last are \<open>wait\<close> and the last one is what \<open>fin\<close> makes of the full
  table.
\<close>

lemma feed_perm_from:
  fixes feed :: "'e \<Rightarrow> 's option \<Rightarrow> 'o \<times> 's option"
  assumes new: "\<And>e. e \<in> set es \<Longrightarrow>
      invar (new e) \<and> total (new e) = n \<and> good (new e) \<and> (\<forall>i. slot (new e) i = None)"
    and feed: "\<And>e pmo. e \<in> set es \<Longrightarrow> pred_option (\<lambda>s. invar s \<and> good s \<and> total s = n) pmo \<Longrightarrow>
      feed e pmo =
        (let s = store (idx e) (f (idx e)) (case pmo of Some s \<Rightarrow> s | None \<Rightarrow> new e)
         in if filled s < total s then (wait, Some s) else (fin s, None))"
    and good: "\<And>i p s. good s \<Longrightarrow> good (store i p s)"
    and fin: "\<And>s. invar s \<Longrightarrow> good s \<Longrightarrow> total s = n \<Longrightarrow>
      (\<And>i. i < n \<Longrightarrow> slot s i = Some (f i)) \<Longrightarrow> fin s = res"
    and cur: "\<And>s. cur = Some s \<Longrightarrow> invar s \<and> good s \<and> total s = n \<and>
      slot s = (\<lambda>i. if i \<in> J then Some (f i) else None)" "cur = None \<Longrightarrow> J = {}"
    and idx: "distinct (map idx es)" "J \<inter> idx ` set es = {}" "J \<union> idx ` set es = {..<n}" "es \<noteq> []"
  shows "run feed es cur = (replicate (length es - 1) wait @ [res], None) \<and>
    kept feed (tl es) (snd (feed (hd es) cur))"
  using assms
proof (induction es arbitrary: cur J)
  case (Cons e es)
  define s where "s = (case cur of Some s \<Rightarrow> s | None \<Rightarrow> new e)"
  have s: "invar s" "good s" "total s = n" "slot s = (\<lambda>i. if i \<in> J then Some (f i) else None)"
    using Cons.prems(1) [of e] Cons.prems(5,6) by (auto simp: s_def split: option.splits)
  have i: "idx e < total s" using Cons.prems(9) s(3) by auto
  define s1 where "s1 = store (idx e) (f (idx e)) s"
  have s1: "invar s1" "good s1" "total s1 = n"
    "slot s1 = (\<lambda>i. if i \<in> insert (idx e) J then Some (f i) else None)"
    using invar_store [OF s(1) i] total_store [OF s(1) i] slot_store [OF s(1) i] Cons.prems(3) s
    by (auto simp: s1_def fun_eq_iff)
  have step: "feed e cur = (if filled s1 < n then (wait, Some s1) else (fin s1, None))"
    using Cons.prems(2) [of e cur] Cons.prems(5) s1(3)
    by (simp add: s_def s1_def Let_def pred_option_def split: option.splits)
  show ?case
  proof (cases "es = []")
    case True
    then have full: "insert (idx e) J = {..<n}" using Cons.prems(9) by auto
    then have sl: "slot s1 i = Some (f i)" if "i < n" for i using s1(4) that by auto
    then have "\<not> filled s1 < n" using incomplete_iff [OF s1(1)] s1(3) by auto
    moreover have "fin s1 = res" using Cons.prems(4) [OF s1(1,2,3)] sl by blast
    ultimately show ?thesis using True step by simp
  next
    case False
    then obtain e' where e': "e' \<in> set es" by (cases es) auto
    then have im: "idx e' \<in> idx ` set es" by blast
    moreover have "idx e \<notin> idx ` set es" using Cons.prems(7) by simp
    ultimately have "idx e' < n" "idx e' \<notin> insert (idx e) J"
      using Cons.prems(8,9) by auto
    then have "filled s1 < n" using incomplete_iff [OF s1(1)] s1(3,4) by auto
    then have st: "feed e cur = (wait, Some s1)" using step by simp
    have "run feed es (Some s1) = (replicate (length es - 1) wait @ [res], None) \<and>
        kept feed (tl es) (snd (feed (hd es) (Some s1)))"
    proof (rule Cons.IH [where J = "insert (idx e) J"])
      show "\<And>s. Some s1 = Some s \<Longrightarrow> invar s \<and> good s \<and> total s = n \<and>
          slot s = (\<lambda>i. if i \<in> insert (idx e) J then Some (f i) else None)"
        using s1 by blast
    qed (use Cons.prems False in auto)
    moreover have "length es = Suc (length es - 1)" "es = hd es # tl es" using False by simp_all
    ultimately show ?thesis by (simp add: st) (metis append_Cons kept.simps(2) option.discI replicate_Suc)
  qed
qed simp


end

section \<open>Independent entries\<close>

locale keyed_store =
  fixes step :: "'e \<Rightarrow> 's \<Rightarrow> 'o \<times> 's"
    and key :: "'e \<Rightarrow> 'k option"
    and look :: "'s \<Rightarrow> 'k \<Rightarrow> 'p option"
    and feed :: "'e \<Rightarrow> 'p option \<Rightarrow> 'o \<times> 'p option"
    and room :: "'s \<Rightarrow> bool"
  assumes own_entry: "look s k \<noteq> None \<or> room s \<Longrightarrow> key e = Some k \<Longrightarrow> step e s = (out, s') \<Longrightarrow>
      feed e (look s k) = (out, look s' k)"
    and other_entry: "key e \<noteq> Some k \<Longrightarrow> step e s = (out, s') \<Longrightarrow> look s' k = look s k"
begin

lemma run_local:
  assumes "(\<forall>s. room s) \<or> kept feed (filter (\<lambda>e. key e = Some k) es) (look s k)"
  shows "answers (\<lambda>e. key e = Some k) es (fst (run step es s)) =
     fst (run feed (filter (\<lambda>e. key e = Some k) es) (look s k)) \<and>
   look (snd (run step es s)) k = snd (run feed (filter (\<lambda>e. key e = Some k) es) (look s k))"
  using assms
proof (induction es arbitrary: s)
  case (Cons e es)
  obtain out s1 where st: "step e s = (out, s1)" by fastforce
  show ?case
  proof (cases "key e = Some k")
    case True
    then have own: "feed e (look s k) = (out, look s1 k)"
      using own_entry [OF _ _ st] Cons.prems by auto
    then have "(\<forall>s. room s) \<or> kept feed (filter (\<lambda>e. key e = Some k) es) (look s1 k)"
      using Cons.prems True by auto
    from Cons.IH [OF this] show ?thesis using own True by (simp add: st case_prod_beta)
  next
    case False
    then have oth: "look s1 k = look s k" using other_entry st by blast
    then have "(\<forall>s. room s) \<or> kept feed (filter (\<lambda>e. key e = Some k) es) (look s1 k)"
      using Cons.prems False by auto
    from Cons.IH [OF this] show ?thesis using oth False by (simp add: st case_prod_beta)
  qed
qed simp

text \<open>Once the first event of an entry has found room, no other traffic matters.\<close>

lemma run_local_first:
  assumes "room s" "key e = Some k" "kept feed (filter (\<lambda>e. key e = Some k) es) (snd (feed e (look s k)))"
  shows "answers (\<lambda>e. key e = Some k) (e # es) (fst (run step (e # es) s)) =
     fst (run feed (e # filter (\<lambda>e. key e = Some k) es) (look s k)) \<and>
   look (snd (run step (e # es) s)) k =
     snd (run feed (e # filter (\<lambda>e. key e = Some k) es) (look s k))"
proof -
  obtain out s1 where st: "step e s = (out, s1)" by fastforce
  then have own: "feed e (look s k) = (out, look s1 k)" using own_entry assms(1,2) by blast
  with assms(3) have "kept feed (filter (\<lambda>e. key e = Some k) es) (look s1 k)" by simp
  with run_local [where es = es and s = s1 and k = k] show ?thesis
    using own assms(2) by (simp add: st case_prod_beta)
qed

end

end
