(* ===== verification/Fragment.thy ===== *)
theory Fragment
  imports Slots
begin

text \<open>
  Model of \<open>internal/fragment/fragment.go\<close>: SBD fragmentation and reassembly. The
  two-byte header, \<open>IsFragment\<close>, \<open>Fragment\<close>, the \<open>Reassembler\<close> (\<open>Claims\<close>,
  \<open>AddFragment\<close>, \<open>Expire\<close>, \<open>PendingCount\<close>) with the clock as an argument. The
  mutex makes every operation atomic, so an operation is one function on the state.
\<close>

section \<open>The fragment header\<close>

definition IridiumMO_MTU :: int where "IridiumMO_MTU = 340"
definition IridiumMT_MTU :: int where "IridiumMT_MTU = 270"
definition HeaderSize :: nat where [simp]: "HeaderSize = 2"
definition MaxFragments :: nat where [simp]: "MaxFragments = 16"
definition MinFragmentPayload :: nat where [simp]: "MinFragmentPayload = 100"
definition versionByte :: byte where [simp]: "versionByte = 0x01"

definition EncodeHeader :: "byte \<Rightarrow> byte \<Rightarrow> byte \<Rightarrow> byte \<times> byte" where
  "EncodeHeader fragIndex fragTotal msgID =
     (push_bit 4 (fragIndex AND 0x0F) OR ((fragTotal - 1) AND 0x0F), msgID)"

definition DecodeHeader :: "byte \<Rightarrow> byte \<Rightarrow> byte \<times> byte \<times> byte" where
  "DecodeHeader b0 b1 = (drop_bit 4 b0, (b0 AND 0x0F) + 1, b1)"

definition IsFragment :: "bytes \<Rightarrow> bool" where
  "IsFragment data =
     (if length data < HeaderSize + MinFragmentPayload then False
      else let (fragIndex, fragTotal, msgID) = DecodeHeader (data ! 0) (data ! 1)
           in fragTotal > 1 \<and> fragIndex < fragTotal)"

section \<open>Splitting\<close>

text \<open>One turn of the loop: the header, then the piece.\<close>

definition frag_at :: "nat \<Rightarrow> nat \<Rightarrow> byte \<Rightarrow> bytes \<Rightarrow> nat \<Rightarrow> bytes" where
  "frag_at fragPayload nFrags msgID data i =
     (let (h0, h1) = EncodeHeader (of_nat i) (of_nat nFrags) msgID
      in h0 # h1 # piece fragPayload i data)"

text \<open>A Go \<open>nil\<close> slice of fragments is the empty list.\<close>

definition Fragment :: "bytes \<Rightarrow> int \<Rightarrow> byte \<Rightarrow> bytes list" where
  "Fragment data mtu msgID =
     (if int (length data) \<le> mtu then []
      else if mtu - int HeaderSize \<le> 0 then []
      else let fragPayload = nat (mtu - int HeaderSize);
               nFrags0 = div_up (length data) fragPayload;
               nFrags = (if nFrags0 > MaxFragments then MaxFragments else nFrags0);
               data' = (if nFrags0 > MaxFragments then take (nFrags * fragPayload) data else data)
           in map (frag_at fragPayload nFrags msgID data') [0..<nFrags])"

section \<open>The reassembler\<close>

record pendingMessage =
  pm_fragments :: "bytes option list"
  pm_total :: nat
  pm_received :: nat
  pm_createdAt :: instant

record Reassembler =
  pending :: "(string, pendingMessage) fmap"
  maxAge :: int

datatype frag_error =
    FragmentTooShort nat
  | FragmentIndex byte nat

definition NewReassembler :: "int \<Rightarrow> Reassembler" where
  "NewReassembler age = \<lparr>pending = fmempty, maxAge = age\<rparr>"

text \<open>\<open>fmt.Sprintf("%s:%d", deviceID, msgID)\<close>.\<close>

definition frag_key :: "string \<Rightarrow> byte \<Rightarrow> string" where
  "frag_key deviceID msgID = deviceID @ '':'' @ dec_digits (unat msgID)"

definition Claims :: "Reassembler \<Rightarrow> string \<Rightarrow> bytes \<Rightarrow> int \<Rightarrow> bool" where
  "Claims r deviceID data mtu =
     (if mtu \<le> 0 \<or> \<not> IsFragment data \<or> data ! 0 = versionByte then False
      else let (fragIndex, fragTotal, msgID) = DecodeHeader (data ! 0) (data ! 1)
           in if fragIndex < fragTotal - 1 then int (length data) = mtu
              else if int (length data) > mtu then False
              else case fmlookup (pending r) (frag_key deviceID msgID) of
                     None \<Rightarrow> False
                   | Some pm \<Rightarrow> pm_total pm = unat fragTotal)"

definition new_pending :: "byte \<Rightarrow> instant \<Rightarrow> pendingMessage" where
  "new_pending fragTotal now =
     \<lparr>pm_fragments = replicate (unat fragTotal) None, pm_total = unat fragTotal,
      pm_received = 0, pm_createdAt = now\<rparr>"

definition pm_store :: "nat \<Rightarrow> bytes \<Rightarrow> pendingMessage \<Rightarrow> pendingMessage" where
  "pm_store i payload pm =
     pm\<lparr>pm_received := (if pm_fragments pm ! i = None then pm_received pm + 1 else pm_received pm),
        pm_fragments := (pm_fragments pm)[i := Some payload]\<rparr>"

definition pm_join :: "pendingMessage \<Rightarrow> bytes" where
  "pm_join pm = concat (map (\<lambda>f. case f of None \<Rightarrow> [] | Some p \<Rightarrow> p) (pm_fragments pm))"

definition AddFragment ::
  "instant \<Rightarrow> string \<Rightarrow> bytes \<Rightarrow> Reassembler \<Rightarrow> (frag_error + bytes option) \<times> Reassembler" where
  "AddFragment now deviceID data r =
     (if length data < HeaderSize then (Inl (FragmentTooShort (length data)), r)
      else
        let (fragIndex, fragTotal, msgID) = DecodeHeader (data ! 0) (data ! 1);
            payload = drop HeaderSize data;
            key = frag_key deviceID msgID;
            pm = (case fmlookup (pending r) key of
                    Some pm \<Rightarrow> pm
                  | None \<Rightarrow> new_pending fragTotal now);
            r1 = r\<lparr>pending := fmupd key pm (pending r)\<rparr>
        in if unat fragIndex \<ge> pm_total pm
           then (Inl (FragmentIndex fragIndex (pm_total pm)), r1)
           else
             let pm1 = pm_store (unat fragIndex) payload pm
             in if pm_received pm1 < pm_total pm1
                then (Inr None, r1\<lparr>pending := fmupd key pm1 (pending r1)\<rparr>)
                else (Inr (Some (pm_join pm1)), r1\<lparr>pending := fmdrop key (pending r1)\<rparr>))"

definition Expire :: "instant \<Rightarrow> Reassembler \<Rightarrow> nat \<times> Reassembler" where
  "Expire now r =
     (let cutoff = now - maxAge r;
          old = (\<lambda>pm. pm_createdAt pm < cutoff)
      in (fmcount_vals old (pending r), r\<lparr>pending := fmdrop_vals old (pending r)\<rparr>))"

definition PendingCount :: "Reassembler \<Rightarrow> nat" where
  "PendingCount r = fmsize (pending r)"

section \<open>The header\<close>

lemma DecodeHeader_EncodeHeader:
  assumes "unat i < 16" "1 \<le> unat t" "unat t \<le> 16"
  shows "DecodeHeader (fst (EncodeHeader i t m)) (snd (EncodeHeader i t m)) = (i, t, m)"
proof -
  have t: "unat (t - 1) < 2 ^ 4"
    using assms(2,3) by (simp add: unat_pred)
  have i: "unat i < 2 ^ (LENGTH(8) - 4)" "unat i < 2 ^ 4" using assms(1) by simp_all
  have eq: "fst (EncodeHeader i t m) = push_bit 4 i OR (t - 1)"
    by (simp add: EncodeHeader_def nibble_mask take_bit_small_word [OF i(2)] take_bit_small_word [OF t])
  have "drop_bit 4 (push_bit 4 i OR (t - 1)) = i" "take_bit 4 (push_bit 4 i OR (t - 1)) = t - 1"
    using drop_bit_field [of 4 i "t - 1"] take_bit_field [of "t - 1" 4 i] i t by simp_all
  then show ?thesis
    unfolding DecodeHeader_def eq nibble_mask by (simp add: EncodeHeader_def)
qed

lemma DecodeHeader_bounds:
  assumes "DecodeHeader b0 b1 = (i, t, m)"
  shows "unat i < 16" "1 \<le> unat t" "unat t \<le> 16" "m = b1"
    "EncodeHeader i t m = (b0, b1)"
proof -
  have i: "i = drop_bit 4 b0" and t: "t = take_bit 4 b0 + 1" and m: "m = b1"
    using assms by (auto simp: DecodeHeader_def nibble_mask)
  show "unat i < 16"
    using unat_byte_less [of b0] by (simp add: i unat_drop_bit_word less_mult_imp_div_less)
  have ut: "unat t = unat b0 mod 16 + 1"
    by (simp add: t unat_word_ariths unat_take_bit_word)
  then show "1 \<le> unat t" "unat t \<le> 16"
    by (simp_all add: Suc_leI)
  show "m = b1" by (fact m)
  have "push_bit 4 (take_bit 4 (drop_bit 4 b0)) OR take_bit 4 b0 = b0"
    by (rule bit_word_eqI) (auto simp: bit_simps)
  then show "EncodeHeader i t m = (b0, b1)"
    by (simp add: EncodeHeader_def i t m nibble_mask)
qed

lemma frag_at_shape:
  "frag_at p n m data i = fst (EncodeHeader (of_nat i) (of_nat n) m) # m # piece p i data"
  by (simp add: frag_at_def EncodeHeader_def)

lemma length_frag_at [simp]: "length (frag_at p n m data i) = 2 + length (piece p i data)"
  by (simp add: frag_at_shape)

lemma DecodeHeader_frag_at:
  assumes "i < n" "n \<le> 16"
  shows "DecodeHeader (frag_at p n m data i ! 0) (frag_at p n m data i ! 1) = (of_nat i, of_nat n, m)"
  using DecodeHeader_EncodeHeader [of "of_nat i" "of_nat n" m] assms
  by (simp add: frag_at_shape EncodeHeader_def)

lemma drop_frag_at [simp]: "drop 2 (frag_at p n m data i) = piece p i data"
  by (simp add: frag_at_shape)

lemma frag_at_1 [simp]: "frag_at p n m data i ! Suc 0 = m"
  by (simp add: frag_at_shape)

lemma Fragment_pieces:
  assumes "mtu < int (length data)" "2 < mtu" "p = nat (mtu - 2)" "n = min 16 (div_up (length data) p)"
  shows "Fragment data mtu m = map (frag_at p n m (take (n * p) data)) [0..<n]"
proof -
  have p: "0 < p" using assms(2,3) by simp
  have "div_up (length data) p \<le> 16 \<Longrightarrow> length data \<le> n * p"
    using div_up_covers [OF p, of "length data"] assms(4) by simp
  then show ?thesis
    using assms by (auto simp: Fragment_def Let_def min_def)
qed

lemma Fragment_count:
  assumes "mtu < int (length data)" "2 < mtu" "p = nat (mtu - 2)" "n = min 16 (div_up (length data) p)"
  shows "2 \<le> n" "n \<le> 16" "0 < p"
proof -
  show p: "0 < p" using assms(2,3) by simp
  have "\<not> length data \<le> 1 * p" using assms(1,2,3) by linarith
  then have "\<not> div_up (length data) p \<le> 1" using div_up_le_iff [OF p, of "length data" 1] by simp
  then show "2 \<le> n" "n \<le> 16" using assms(4) by simp_all
qed

section \<open>One pending message as a slot table\<close>

definition pm_slot :: "pendingMessage \<Rightarrow> nat \<Rightarrow> bytes option" where
  "pm_slot pm i = (if i < length (pm_fragments pm) then pm_fragments pm ! i else None)"

definition pm_inv :: "pendingMessage \<Rightarrow> bool" where
  "pm_inv pm \<longleftrightarrow> length (pm_fragments pm) = pm_total pm \<and>
     pm_received pm = card {i. i < pm_total pm \<and> pm_slot pm i \<noteq> None}"

lemma pm_store_simps [simp]:
  "pm_total (pm_store i p pm) = pm_total pm"
  "pm_createdAt (pm_store i p pm) = pm_createdAt pm"
  "pm_fragments (pm_store i p pm) = (pm_fragments pm)[i := Some p]"
  by (simp_all add: pm_store_def)

lemma pm_slot_store:
  "pm_inv pm \<Longrightarrow> i < pm_total pm \<Longrightarrow> pm_slot (pm_store i p pm) = (pm_slot pm)(i \<mapsto> p)"
  by (auto simp: pm_slot_def pm_inv_def fun_eq_iff nth_list_update)

lemma pm_inv_store:
  assumes "pm_inv pm" "i < pm_total pm"
  shows "pm_inv (pm_store i p pm)"
proof -
  let ?U = "{j. j < pm_total pm \<and> pm_slot pm j \<noteq> None}"
  have len: "length (pm_fragments pm) = pm_total pm" and card: "pm_received pm = card ?U"
    using assms(1) by (auto simp: pm_inv_def)
  have "{j. j < pm_total pm \<and> pm_slot (pm_store i p pm) j \<noteq> None} = insert i ?U"
    using assms(2) by (auto simp: pm_slot_store [OF assms] split: if_splits)
  moreover have "card (insert i ?U) = (if i \<in> ?U then card ?U else Suc (card ?U))"
    by (simp add: card_insert_if)
  moreover have "i \<in> ?U \<longleftrightarrow> pm_fragments pm ! i \<noteq> None"
    unfolding pm_slot_def using assms(2) len by fastforce
  ultimately have "pm_received (pm_store i p pm) =
      card {j. j < pm_total pm \<and> pm_slot (pm_store i p pm) j \<noteq> None}"
    using card by (simp add: pm_store_def)
  then show ?thesis
    using len by (simp add: pm_inv_def)
qed

interpretation pm: slot_table pm_total pm_slot pm_store pm_received pm_inv
  by unfold_locales (simp_all add: pm_slot_store pm_inv_store, simp add: pm_inv_def)

lemma new_pending_slots [simp]:
  "pm_inv (new_pending t now)" "pm_total (new_pending t now) = unat t"
  "pm_slot (new_pending t now) i = None" "pm_received (new_pending t now) = 0"
  by (simp_all add: pm_inv_def new_pending_def pm_slot_def)

section \<open>The reassembler, one key at a time\<close>

text \<open>What \<open>AddFragment\<close> does to the one entry it is about.\<close>

type_synonym arrival = "instant \<times> string \<times> bytes"

definition feed :: "arrival \<Rightarrow> pendingMessage option \<Rightarrow> (frag_error + bytes option) \<times> pendingMessage option" where
  "feed e pmo =
     (let (now, d, data) = e;
          (fragIndex, fragTotal, msgID) = DecodeHeader (data ! 0) (data ! 1);
          pm = (case pmo of Some pm \<Rightarrow> pm | None \<Rightarrow> new_pending fragTotal now)
      in if unat fragIndex \<ge> pm_total pm then (Inl (FragmentIndex fragIndex (pm_total pm)), Some pm)
         else let pm1 = pm_store (unat fragIndex) (drop 2 data) pm
              in if pm_received pm1 < pm_total pm1 then (Inr None, Some pm1)
                 else (Inr (Some (pm_join pm1)), None))"

definition arrival_key :: "arrival \<Rightarrow> string option" where
  "arrival_key e =
     (let (now, d, data) = e in if length data < 2 then None else Some (frag_key d (data ! 1)))"

definition arrive :: "arrival \<Rightarrow> Reassembler \<Rightarrow> (frag_error + bytes option) \<times> Reassembler" where
  "arrive e r = (let (now, d, data) = e in AddFragment now d data r)"

lemma arrive_own:
  assumes "arrival_key e = Some k" "arrive e r = (out, r')"
  shows "feed e (fmlookup (pending r) k) = (out, fmlookup (pending r') k)"
  using assms
  by (cases e) (auto simp: arrive_def AddFragment_def feed_def arrival_key_def DecodeHeader_def
      Let_def split: option.splits if_splits)

lemma arrive_other:
  assumes "arrival_key e \<noteq> Some k" "arrive e r = (out, r')"
  shows "fmlookup (pending r') k = fmlookup (pending r) k"
  using assms
  by (cases e) (auto simp: arrive_def AddFragment_def arrival_key_def DecodeHeader_def
      Let_def split: option.splits if_splits)

interpretation sbd: keyed_store arrive arrival_key "\<lambda>r. fmlookup (pending r)" feed "\<lambda>r. True"
  by unfold_locales (simp_all add: arrive_own arrive_other)

section \<open>Fragments of one message\<close>

lemma pm_join_complete:
  assumes "pm_inv pm" "pm_total pm = n" "\<And>i. i < n \<Longrightarrow> pm_slot pm i = Some (piece p i data)"
  shows "pm_join pm = take (n * p) data"
proof -
  have "pm_fragments pm = map (\<lambda>i. Some (piece p i data)) [0..<n]"
    using assms by (intro nth_equalityI) (auto simp: pm_inv_def pm_slot_def)
  then show ?thesis
    by (simp add: pm_join_def o_def concat_pieces)
qed

definition arrival_index :: "arrival \<Rightarrow> nat" where
  "arrival_index e = (let (now, d, data) = e in unat (fst (DecodeHeader (data ! 0) (data ! 1))))"

lemma arrival_index_frag_at:
  "i < n \<Longrightarrow> n \<le> 16 \<Longrightarrow> arrival_index (now, d, frag_at p n m data i) = i"
  using DecodeHeader_frag_at [of i n p m data] by (simp add: arrival_index_def)

lemma feed_frag_at:
  assumes "i < n" "n \<le> 16" "pred_option (\<lambda>pm. pm_total pm = n) pmo"
  shows "feed (now, d, frag_at p n m data i) pmo =
    (let pm = pm_store i (piece p i data) (case pmo of Some pm \<Rightarrow> pm | None \<Rightarrow> new_pending (of_nat n) now)
     in if pm_received pm < pm_total pm then (Inr None, Some pm) else (Inr (Some (pm_join pm)), None))"
  using assms DecodeHeader_frag_at [OF assms(1,2), of p m data]
  by (cases pmo) (simp_all add: feed_def Let_def)

lemma feed_frags:
  assumes "n \<le> 16" "0 < n" and perm: "mset (map (snd \<circ> snd) es) = mset (map (frag_at p n m data) [0..<n])"
  shows "run feed es None = (replicate (n - 1) (Inr None) @ [Inr (Some (take (n * p) data))], None)"
proof -
  have rd: "\<forall>e. \<forall>i < n. (snd \<circ> snd) e = frag_at p n m data i \<longrightarrow> arrival_index e = i"
    using assms(1) by (metis arrival_index_frag_at comp_apply prod.collapse)
  note ix = perm_indices [where g = "snd \<circ> snd" and idx = arrival_index, OF perm rd]
  have ev: "\<exists>now d. e = (now, d, frag_at p n m data (arrival_index e)) \<and> arrival_index e < n"
    if "e \<in> set es" for e
    using ix(4) [OF that] by (metis comp_apply prod.collapse)
  have "run feed es None = (replicate (length es - 1) (Inr None) @ [Inr (Some (take (n * p) data))], None) \<and>
    kept feed (tl es) (snd (feed (hd es) None))"
  proof (rule pm.feed_perm_from [where J = "{}" and n = n and idx = arrival_index and f = "\<lambda>i. piece p i data"
        and new = "\<lambda>e. new_pending (of_nat n) (fst e)" and good = "\<lambda>_. True"
        and fin = "\<lambda>pm. Inr (Some (pm_join pm))"])
    show "feed e pmo =
        (let s = pm_store (arrival_index e) (piece p (arrival_index e) data)
               (case pmo of Some s \<Rightarrow> s | None \<Rightarrow> new_pending (of_nat n) (fst e))
         in if pm_received s < pm_total s then (Inr None, Some s) else (Inr (Some (pm_join s)), None))"
      if es: "e \<in> set es" and cur: "pred_option (\<lambda>s. pm_inv s \<and> True \<and> pm_total s = n) pmo" for e pmo
    proof -
      obtain now d where e: "e = (now, d, frag_at p n m data (arrival_index e))"
        and i: "arrival_index e < n" using ev [OF es] by blast
      have t: "fst e = now" by (subst e) simp
      show ?thesis
        using feed_frag_at [OF i assms(1), of pmo now d p m data] cur
        unfolding t e [symmetric] by (auto simp: pred_option_def)
    qed
    show "{} \<union> arrival_index ` set es = {..<n}" using ix(3) by simp
    show "distinct (map arrival_index es)" by (rule ix(2))
    show "es \<noteq> []" using ix(1) assms(2) by auto
  qed (use assms(1) pm_join_complete in auto)
  then show ?thesis by (simp add: ix(1))
qed

section \<open>Properties\<close>

text \<open>C9: Take a message longer than the MTU that needs at most 16 fragments and a
  reassembler with no entry for its device and message id. Let the fragments produced by
  \<open>Fragment\<close> arrive in any order, at any times, interleaved with any other traffic of any
  devices and messages. Then \<open>AddFragment\<close> answers "not yet" to all but the last of
  them, answers the last one with exactly the original message, and leaves no entry
  behind.\<close>

theorem reassemble_any_order:
  assumes "2 < mtu" "mtu < int (length data)" "int (length data) \<le> 16 * (mtu - 2)"
    and "fmlookup (pending r) (frag_key d m) = None"
    and "mset (map (snd \<circ> snd) (filter (\<lambda>e. arrival_key e = Some (frag_key d m)) es)) =
         mset (Fragment data mtu m)"
  shows "answers (\<lambda>e. arrival_key e = Some (frag_key d m)) es (fst (run arrive es r)) =
           replicate (length (Fragment data mtu m) - 1) (Inr None) @ [Inr (Some data)] \<and>
         fmlookup (pending (snd (run arrive es r))) (frag_key d m) = None"
proof -
  define p where "p = nat (mtu - 2)"
  define n where "n = min 16 (div_up (length data) p)"
  note frag = Fragment_pieces [OF assms(2,1) p_def n_def]
  have n: "2 \<le> n" "n \<le> 16" "0 < p" using Fragment_count [OF assms(2,1) p_def n_def] by auto
  have "length data \<le> 16 * p" using assms(1,3) by (simp add: p_def nat_le_iff)
  then have "n = div_up (length data) p"
    using div_up_le_iff [OF n(3), of "length data" 16] by (simp add: n_def)
  then have all: "take (n * p) data = data" using div_up_covers [OF n(3), of "length data"] by simp
  have pos: "0 < n" using n(1) by simp
  show ?thesis
    using sbd.run_local [where es = es and s = r and k = "frag_key d m"] feed_frags [OF n(2) pos assms(5) [unfolded frag all]]
    by (simp add: assms(4) frag all)
qed

theorem reassemble_any_order_witness:
  "let f = Fragment [1,2,3,4,5,6,7,8,9,10] 6 7;
       es = [(5, ''dev1'', f ! 2), (6, ''dev2'', [0x10, 7, 99]), (7, ''dev1'', f ! 0), (8, ''dev1'', f ! 1)]
   in answers (\<lambda>e. arrival_key e = Some ''dev1:7'') es (fst (run arrive es (NewReassembler 300))) =
        [Inr None, Inr None, Inr (Some [1,2,3,4,5,6,7,8,9,10])]"
proof -
  let ?d = "[1,2,3,4,5,6,7,8,9,10] :: bytes"
  let ?f = "Fragment ?d 6 7"
  let ?es = "[(5, ''dev1'', ?f ! 2), (6, ''dev2'', [0x10, 7, 99]), (7, ''dev1'', ?f ! 0),
    (8, ''dev1'', ?f ! 1)] :: arrival list"
  have key: "frag_key ''dev1'' 7 = ''dev1:7''" by code_simp
  have f: "?f = [[2,7,1,2,3,4], [18,7,5,6,7,8], [34,7,9,10]]" by code_simp
  have "filter (\<lambda>e. arrival_key e = Some ''dev1:7'') ?es =
      [(5, ''dev1'', ?f ! 2), (7, ''dev1'', ?f ! 0), (8, ''dev1'', ?f ! 1)]"
    unfolding f by code_simp
  then have "answers (\<lambda>e. arrival_key e = Some ''dev1:7'') ?es (fst (run arrive ?es (NewReassembler 300))) =
      replicate (length ?f - 1) (Inr None) @ [Inr (Some ?d)]"
    using reassemble_any_order [where mtu = 6 and data = ?d and r = "NewReassembler 300" and
        d = "''dev1''" and m = 7 and es = ?es, unfolded key]
    by (simp only: f) (simp add: NewReassembler_def)
  then show ?thesis unfolding Let_def by (simp only:) (simp add: f numeral_eq_Suc)
qed

lemma Fragment_sizes:
  assumes "2 < mtu" "mtu < int (length data)"
  shows "list_all (\<lambda>f. int (length f) \<le> mtu) (Fragment data mtu m) \<and>
    list_all (\<lambda>f. int (length f) = mtu) (butlast (Fragment data mtu m))"
proof -
  define p where "p = nat (mtu - 2)"
  define n where "n = min 16 (div_up (length data) p)"
  note frag = Fragment_pieces [OF assms(2,1) p_def n_def]
  have n: "2 \<le> n" "n \<le> 16" "0 < p" using Fragment_count [OF assms(2,1) p_def n_def] by auto
  have mtu: "mtu = int p + 2" using assms(1) by (simp add: p_def)
  have np: "(n - 1) * p \<le> length data"
  proof -
    have "(n - 1) * p \<le> (div_up (length data) p - 1) * p"
      by (intro mult_le_mono1 diff_le_mono) (simp add: n_def)
    also have "\<dots> \<le> length data"
      using div_up_tight [OF n(3), of "length data"] assms by (cases "length data") auto
    finally show ?thesis .
  qed
  let ?D = "take (n * p) data"
  have len: "length (piece p i ?D) = p" if "i < n - 1" for i
  proof -
    have "Suc i * p \<le> (n - 1) * p" using that by (intro mult_le_mono1) simp
    moreover have "(n - 1) * p \<le> n * p" by simp
    ultimately have "Suc i * p \<le> length ?D" using np by (metis le_trans length_take min.boundedI)
    then show ?thesis by (rule length_piece_full)
  qed
  have all: "\<forall>i \<in> set [0..<n]. int (length (frag_at p n m ?D i)) \<le> mtu"
    by (simp add: mtu length_piece)
  have but: "\<forall>i \<in> set [0..<n - 1]. int (length (frag_at p n m ?D i)) = mtu"
    using len by (simp add: mtu)
  show ?thesis
    using all but unfolding frag by (simp add: list_all_iff map_butlast [symmetric])
qed

text \<open>For a message longer than the MTU, \<open>Fragment\<close> produces between 2 and 16
  fragments, none longer than the MTU and all but the last exactly one MTU long; their
  payloads in order are the message, cut off after 16 full payloads. So the message
  survives whole if and only if it needs no more than 16 fragments.\<close>

theorem Fragment_layout:
  assumes "2 < mtu" "mtu < int (length data)"
  shows "2 \<le> length (Fragment data mtu m) \<and> length (Fragment data mtu m) \<le> 16 \<and>
    list_all (\<lambda>f. int (length f) \<le> mtu) (Fragment data mtu m) \<and>
    list_all (\<lambda>f. int (length f) = mtu) (butlast (Fragment data mtu m)) \<and>
    concat (map (drop 2) (Fragment data mtu m)) = take (16 * nat (mtu - 2)) data \<and>
    (concat (map (drop 2) (Fragment data mtu m)) = data \<longleftrightarrow> int (length data) \<le> 16 * (mtu - 2))"
proof -
  define p where "p = nat (mtu - 2)"
  define n where "n = min 16 (div_up (length data) p)"
  note frag = Fragment_pieces [OF assms(2,1) p_def n_def]
  have n: "2 \<le> n" "n \<le> 16" "0 < p" using Fragment_count [OF assms(2,1) p_def n_def] by auto
  have cat: "concat (map (drop 2) (Fragment data mtu m)) = take (n * p) data"
    by (simp add: frag o_def concat_pieces)
  have cut: "take (n * p) data = take (16 * p) data"
  proof (cases "div_up (length data) p \<le> 16")
    case True
    then have "length data \<le> 16 * p" "length data \<le> n * p"
      using div_up_le_iff [OF n(3), of "length data" 16] div_up_covers [OF n(3), of "length data"]
      by (simp_all add: n_def)
    then show ?thesis by simp
  qed (simp add: n_def)
  have "take (16 * p) data = data \<longleftrightarrow> length data \<le> 16 * p"
    by (metis length_take min.absorb_iff2 nle_le take_all)
  moreover have m16: "16 * (mtu - 2) = int (16 * p)" using assms(1) by (simp add: p_def)
  ultimately have iff: "concat (map (drop 2) (Fragment data mtu m)) = data \<longleftrightarrow> int (length data) \<le> 16 * (mtu - 2)"
    unfolding cat cut m16 of_nat_le_iff by simp
  show ?thesis
    using n Fragment_sizes [OF assms, of m] iff cat cut unfolding p_def [symmetric] by (simp add: frag)
qed

text \<open>The representation invariant of the reassembler: every entry is a well-formed
  slot table of 1 to 16 slots with at least one slot free, whose counter is the number of
  slots in use. It is what makes \<open>pm.fragments[fragIndex]\<close> an index in range.\<close>

definition reassembler_inv :: "Reassembler \<Rightarrow> bool" where
  "reassembler_inv r \<longleftrightarrow> (\<forall>k pm. fmlookup (pending r) k = Some pm \<longrightarrow>
     pm_inv pm \<and> 1 \<le> pm_total pm \<and> pm_total pm \<le> 16 \<and> pm_received pm < pm_total pm)"

definition pm_ok :: "pendingMessage option \<Rightarrow> bool" where
  "pm_ok pmo \<longleftrightarrow> (\<forall>pm. pmo = Some pm \<longrightarrow>
     pm_inv pm \<and> 1 \<le> pm_total pm \<and> pm_total pm \<le> 16 \<and> pm_received pm < pm_total pm)"

lemma reassembler_inv_ok: "reassembler_inv r \<longleftrightarrow> (\<forall>k. pm_ok (fmlookup (pending r) k))"
  by (auto simp: reassembler_inv_def pm_ok_def)

lemma feed_ok:
  assumes "pm_ok pmo"
  shows "pm_ok (snd (feed (now, d, data) pmo))"
proof -
  obtain i t m where h: "DecodeHeader (data ! 0) (data ! 1) = (i, t, m)" by (metis prod_cases3)
  define pm where "pm = (case pmo of Some pm \<Rightarrow> pm | None \<Rightarrow> new_pending t now)"
  have pm: "pm_inv pm" "1 \<le> pm_total pm" "pm_total pm \<le> 16" "pm_received pm < pm_total pm"
    using assms DecodeHeader_bounds [OF h]
    by (auto simp: pm_def pm_ok_def split: option.splits)
  show ?thesis
    unfolding feed_def h Let_def prod.case pm_def [symmetric]
    using pm by (auto simp: pm_ok_def pm_inv_store)
qed

text \<open>C27: Every entry of the reassembler stays a well-formed, incomplete slot table of 1
  to 16 slots under \<open>AddFragment\<close>, whatever bytes arrive, and under \<open>Expire\<close>;
  \<open>Expire\<close> removes exactly the entries older than the maximum age and returns how many
  it removed; and the empty reassembler satisfies the invariant.\<close>

theorem reassembler_inv_preserved:
  assumes "reassembler_inv r"
  shows "reassembler_inv (NewReassembler age) \<and>
    reassembler_inv (snd (AddFragment now d data r)) \<and>
    reassembler_inv (snd (Expire now r)) \<and>
    PendingCount (snd (Expire now r)) + fst (Expire now r) = PendingCount r \<and>
    fmlookup (pending (snd (Expire now r))) k =
      (case fmlookup (pending r) k of
         Some pm \<Rightarrow> if now - pm_createdAt pm > maxAge r then None else Some pm
       | None \<Rightarrow> None)"
proof (intro conjI)
  show "reassembler_inv (NewReassembler age)"
    by (simp add: reassembler_inv_def NewReassembler_def)
  show "reassembler_inv (snd (AddFragment now d data r))"
  proof -
    obtain out r' where step: "arrive (now, d, data) r = (out, r')" by fastforce
    have "pm_ok (fmlookup (pending r') k)" for k
      using arrive_own [OF _ step, of k] arrive_other [OF _ step, of k] assms feed_ok
      by (metis reassembler_inv_ok snd_conv)
    then show ?thesis using step by (simp add: arrive_def reassembler_inv_ok)
  qed
  show "reassembler_inv (snd (Expire now r))"
    using assms by (auto simp: reassembler_inv_def Expire_def Let_def split: option.splits if_splits)
  show "PendingCount (snd (Expire now r)) + fst (Expire now r) = PendingCount r"
    by (simp add: PendingCount_def Expire_def Let_def fmsize_drop_vals)
  show "fmlookup (pending (snd (Expire now r))) k =
      (case fmlookup (pending r) k of
         Some pm \<Rightarrow> if now - pm_createdAt pm > maxAge r then None else Some pm
       | None \<Rightarrow> None)"
    by (auto simp: Expire_def Let_def split: option.splits)
qed

theorem reassembler_inv_preserved_witness:
  "reassembler_inv (snd (AddFragment 9 ''d'' [0x12, 3, 4] (NewReassembler 5)))"
  using reassembler_inv_preserved [of "NewReassembler 5" 5 9 "''d''" "[0x12, 3, 4]" "''''"]
  by (simp add: reassembler_inv_def NewReassembler_def)

lemma frag_first_byte:
  assumes "i < n" "2 \<le> n" "n \<le> 16"
  shows "frag_at p n m data i ! 0 = versionByte \<longleftrightarrow> i = 0 \<and> n = 2"
proof
  assume one: "frag_at p n m data i ! 0 = versionByte"
  have "DecodeHeader 1 m = (0, 2, m)" by (simp add: DecodeHeader_def)
  then have "(of_nat i :: byte) = 0" "(of_nat n :: byte) = 2"
    using DecodeHeader_frag_at [OF assms(1,3), of p m data] one by auto
  then have "unat (of_nat i :: byte) = 0" "unat (of_nat n :: byte) = 2" by simp_all
  then show "i = 0 \<and> n = 2" using assms by simp
next
  assume "i = 0 \<and> n = 2"
  then show "frag_at p n m data i ! 0 = versionByte"
    by (simp add: frag_at_shape EncodeHeader_def)
qed

text \<open>Exactly which of the fragments produced by \<open>Fragment\<close> the inbound test
  \<open>Claims\<close> accepts: a fragment that is at least 102 bytes long, is not the first half
  of a two-part message (whose first byte is the protocol version byte), and is either
  not the last one or has siblings of the same total already waiting. In particular a
  last fragment whose payload is shorter than 100 bytes is never claimed, even when all
  its siblings wait for it, so such a message is never reassembled.\<close>

theorem Claims_fragment_iff:
  assumes "2 < mtu" "mtu < int (length data)" "i < length (Fragment data mtu m)"
  shows "Claims r d (Fragment data mtu m ! i) mtu \<longleftrightarrow>
    \<not> (i = 0 \<and> length (Fragment data mtu m) = 2) \<and>
    102 \<le> length (Fragment data mtu m ! i) \<and>
    (i < length (Fragment data mtu m) - 1 \<or>
     (\<exists>pm. fmlookup (pending r) (frag_key d m) = Some pm \<and>
           pm_total pm = length (Fragment data mtu m)))"
proof -
  define p where "p = nat (mtu - 2)"
  define n where "n = min 16 (div_up (length data) p)"
  note frag = Fragment_pieces [OF assms(2,1) p_def n_def]
  have n: "2 \<le> n" "n \<le> 16" "0 < p" using Fragment_count [OF assms(2,1) p_def n_def] by auto
  let ?f = "Fragment data mtu m ! i"
  let ?D = "take (n * p) data"
  have len: "length (Fragment data mtu m) = n" by (simp add: frag)
  then have i: "i < n" using assms(3) by simp
  then have f: "?f = frag_at p n m ?D i" by (simp add: frag)
  note dec = DecodeHeader_frag_at [OF i n(2), of p m ?D, folded f, unfolded One_nat_def]
  have un: "unat (of_nat n :: byte) = n" "unat (of_nat i :: byte) = i" using i n by simp_all
  have cmp: "(1 :: byte) < of_nat n" "(of_nat i :: byte) < of_nat n"
    "(of_nat i :: byte) < of_nat n - 1 \<longleftrightarrow> i < n - 1"
    using n i by (simp_all add: word_less_nat_alt un unat_pred)
  have isf: "IsFragment ?f \<longleftrightarrow> 102 \<le> length ?f"
    using cmp(1,2) by (simp add: IsFragment_def dec not_less)
  have le: "int (length ?f) \<le> mtu" and full: "i < n - 1 \<Longrightarrow> int (length ?f) = mtu"
  proof -
    have lay: "list_all (\<lambda>f. int (length f) \<le> mtu) (Fragment data mtu m)"
      "list_all (\<lambda>f. int (length f) = mtu) (butlast (Fragment data mtu m))"
      using Fragment_sizes [OF assms(1,2), of m] by blast+
    show "int (length ?f) \<le> mtu" using lay(1) assms(3) by (simp add: list_all_length)
    show "int (length ?f) = mtu" if "i < n - 1"
      using lay(2) that len by (simp add: list_all_length nth_butlast)
  qed
  have nm: "n mod 256 = n" using n by simp
  show ?thesis
    using i full le frag_first_byte [OF i n(1,2), of p m ?D, folded f] assms(1) nm
    by (auto simp: Claims_def isf dec cmp(3) len split: option.splits)
qed

end
