(* ===== verification/Bundle.thy ===== *)
theory Bundle
  imports Slots
begin

text \<open>
  DTN bundle fragmentation, \<open>src/internal/protocol/bundle.go\<close>: the 25-byte fragment header
  and its codec, the splitter \<open>FragmentBundle\<close> and the bounded reassembly buffer. The
  random bytes of the bundle id are an argument (\<open>None\<close> where the random source fails),
  as is the clock. A \<open>[16]byte\<close> is a byte list of length 16. The fragments received so
  far are a finite map, as in the code. Operations that hold the mutex are one step each.
  Lengths and the MTU are taken to stay below the range of Go's \<open>int\<close>.
\<close>

definition BundleVersion :: byte where "BundleVersion = 0x01"
definition BundleHeaderLen :: nat where "BundleHeaderLen = 25"
definition MaxBundleFragments :: nat where "MaxBundleFragments = 65535"

lemmas bundle_consts = BundleVersion_def BundleHeaderLen_def MaxBundleFragments_def

record BundleHeader =
  bh_Version :: byte
  bh_BundleID :: bytes
  bh_FragIndex :: "16 word"
  bh_FragTotal :: "16 word"
  bh_TotalSize :: "32 word"

datatype bundle_error =
    BundleHeaderTooShort nat
  | UnsupportedBundleVersion byte
  | ZeroFragTotal
  | FragIndexRange "16 word" "16 word"
  | MTUTooSmall int
  | PayloadTooLarge nat
  | TooManyFragments nat
  | GenerateBundleID
  | BufferFull int
  | TotalSizeMismatch "32 word" "32 word"
  | FragTotalMismatch "16 word" "16 word"
  | MissingFragment "16 word"
  | ReassembledSize nat "32 word"

definition MarshalBundleHeader :: "BundleHeader \<Rightarrow> bytes" where
  "MarshalBundleHeader h =
     [bh_Version h] @ bh_BundleID h @ put_u16_le (bh_FragIndex h) @ put_u16_le (bh_FragTotal h) @
     put_u32_le (bh_TotalSize h)"

definition UnmarshalBundleHeader :: "bytes \<Rightarrow> bundle_error + BundleHeader" where
  "UnmarshalBundleHeader data =
     (if length data < BundleHeaderLen then Inl (BundleHeaderTooShort (length data))
      else if data ! 0 \<noteq> BundleVersion then Inl (UnsupportedBundleVersion (data ! 0))
      else let h = \<lparr> bh_Version = data ! 0, bh_BundleID = slice 1 17 data,
                     bh_FragIndex = get_u16_le (slice 17 19 data),
                     bh_FragTotal = get_u16_le (slice 19 21 data),
                     bh_TotalSize = get_u32_le (slice 21 25 data) \<rparr>
           in if bh_FragTotal h = 0 then Inl ZeroFragTotal
              else if bh_FragIndex h \<ge> bh_FragTotal h
                then Inl (FragIndexRange (bh_FragIndex h) (bh_FragTotal h))
              else Inr h)"

definition IsBundleFragment :: "bytes \<Rightarrow> bool" where
  "IsBundleFragment data \<longleftrightarrow> length data \<ge> BundleHeaderLen \<and> data ! 0 = BundleVersion"

definition bundle_frag :: "nat \<Rightarrow> nat \<Rightarrow> bytes \<Rightarrow> bytes \<Rightarrow> nat \<Rightarrow> bytes" where
  "bundle_frag maxPayloadPerFrag fragCount bundleID payload i =
     (let start = i * maxPayloadPerFrag;
          e = start + maxPayloadPerFrag;
          e' = (if e > length payload then length payload else e);
          hdr = \<lparr> bh_Version = BundleVersion, bh_BundleID = bundleID, bh_FragIndex = of_nat i,
                  bh_FragTotal = of_nat fragCount, bh_TotalSize = of_nat (length payload) \<rparr>
      in MarshalBundleHeader hdr @ slice start e' payload)"

definition FragmentBundle :: "bytes option \<Rightarrow> bytes \<Rightarrow> int \<Rightarrow> bundle_error + bytes \<times> bytes list" where
  "FragmentBundle rnd payload mtu =
     (if mtu \<le> int BundleHeaderLen then Inl (MTUTooSmall mtu)
      else let maxPayloadPerFrag = nat (mtu - int BundleHeaderLen)
      in if length payload > 2 ^ 32 - 1 then Inl (PayloadTooLarge (length payload))
      else let fragCount0 = (length payload + maxPayloadPerFrag - 1) div maxPayloadPerFrag;
               fragCount = (if fragCount0 = 0 then 1 else fragCount0)
      in if fragCount > MaxBundleFragments then Inl (TooManyFragments fragCount)
      else case rnd of None \<Rightarrow> Inl GenerateBundleID
      | Some u \<Rightarrow> let bundleID = uuid4_bits u
          in Inr (bundleID, map (bundle_frag maxPayloadPerFrag fragCount bundleID payload) [0..<fragCount]))"

record reassemblyState =
  rs_totalSize :: "32 word"
  rs_fragTotal :: "16 word"
  rs_fragments :: "(16 word, bytes) fmap"
  rs_createdAt :: instant

record BundleReassemblyBuffer =
  rb_bundles :: "(bytes, reassemblyState) fmap"
  rb_maxAge :: int
  rb_maxSize :: int

definition NewBundleReassemblyBuffer :: "int \<Rightarrow> int \<Rightarrow> BundleReassemblyBuffer" where
  "NewBundleReassemblyBuffer maxAge maxBundles =
     \<lparr> rb_bundles = fmempty, rb_maxAge = maxAge, rb_maxSize = maxBundles \<rparr>"

text \<open>The loop that concatenates fragments \<open>i\<close>, \<open>i + 1\<close>, \<dots> (\<open>n\<close> of them).\<close>

fun bundle_join :: "(16 word, bytes) fmap \<Rightarrow> nat \<Rightarrow> nat \<Rightarrow> bundle_error + bytes" where
  "bundle_join m i 0 = Inr []"
| "bundle_join m i (Suc n) =
     (case fmlookup m (of_nat i) of None \<Rightarrow> Inl (MissingFragment (of_nat i))
      | Some frag \<Rightarrow> (case bundle_join m (Suc i) n of Inl e \<Rightarrow> Inl e | Inr r \<Rightarrow> Inr (frag @ r)))"

definition Reassemble ::
  "instant \<Rightarrow> bytes \<Rightarrow> BundleReassemblyBuffer \<Rightarrow> (bundle_error + bytes option) \<times> BundleReassemblyBuffer" where
  "Reassemble now data rb =
     (case UnmarshalBundleHeader data of Inl e \<Rightarrow> (Inl e, rb)
      | Inr hdr \<Rightarrow>
        let k = bh_BundleID hdr;
            fragPayload = drop BundleHeaderLen data
        in if fmlookup (rb_bundles rb) k = None \<and> rb_maxSize rb > 0 \<and>
              int (fmsize (rb_bundles rb)) \<ge> rb_maxSize rb
           then (Inl (BufferFull (rb_maxSize rb)), rb)
           else let state = (case fmlookup (rb_bundles rb) k of Some st \<Rightarrow> st
                    | None \<Rightarrow> \<lparr> rs_totalSize = bh_TotalSize hdr, rs_fragTotal = bh_FragTotal hdr,
                                rs_fragments = fmempty, rs_createdAt = now \<rparr>);
                    rb1 = rb \<lparr> rb_bundles := fmupd k state (rb_bundles rb) \<rparr>
                in if bh_TotalSize hdr \<noteq> rs_totalSize state
                   then (Inl (TotalSizeMismatch (bh_TotalSize hdr) (rs_totalSize state)), rb1)
                   else if bh_FragTotal hdr \<noteq> rs_fragTotal state
                   then (Inl (FragTotalMismatch (bh_FragTotal hdr) (rs_fragTotal state)), rb1)
                   else let state1 = state \<lparr> rs_fragments :=
                              fmupd (bh_FragIndex hdr) fragPayload (rs_fragments state) \<rparr>;
                            rb2 = rb \<lparr> rb_bundles := fmupd k state1 (rb_bundles rb) \<rparr>;
                            rb3 = rb \<lparr> rb_bundles := fmdrop k (rb_bundles rb2) \<rparr>
                        in if fmsize (rs_fragments state1) < unat (rs_fragTotal state1) then (Inr None, rb2)
                           else case bundle_join (rs_fragments state1) 0 (unat (rs_fragTotal state1)) of
                                  Inl e \<Rightarrow> (Inl e, rb2)
                                | Inr result \<Rightarrow>
                                    if length result \<noteq> unat (rs_totalSize state1)
                                    then (Inl (ReassembledSize (length result) (rs_totalSize state1)), rb3)
                                    else (Inr (Some result), rb3))"

definition bundle_stale :: "instant \<Rightarrow> int \<Rightarrow> reassemblyState \<Rightarrow> bool" where
  "bundle_stale now maxAge st \<longleftrightarrow> now - rs_createdAt st > maxAge"

definition Reap :: "instant \<Rightarrow> BundleReassemblyBuffer \<Rightarrow> nat \<times> BundleReassemblyBuffer" where
  "Reap now rb =
     (fmcount_vals (bundle_stale now (rb_maxAge rb)) (rb_bundles rb),
      rb \<lparr> rb_bundles := fmdrop_vals (bundle_stale now (rb_maxAge rb)) (rb_bundles rb) \<rparr>)"

definition bundle_PendingCount :: "BundleReassemblyBuffer \<Rightarrow> nat" where
  "bundle_PendingCount rb = fmsize (rb_bundles rb)"

definition PendingBundleInfo :: "bytes \<Rightarrow> BundleReassemblyBuffer \<Rightarrow> nat \<times> nat" where
  "PendingBundleInfo bundleID rb =
     (case fmlookup (rb_bundles rb) bundleID of None \<Rightarrow> (0, 0)
      | Some st \<Rightarrow> (fmsize (rs_fragments st), unat (rs_fragTotal st)))"

section \<open>The header\<close>

definition bundle_header_ok :: "BundleHeader \<Rightarrow> bool" where
  "bundle_header_ok h \<longleftrightarrow> bh_Version h = BundleVersion \<and> length (bh_BundleID h) = 16 \<and>
     bh_FragIndex h < bh_FragTotal h"

lemma length_MarshalBundleHeader [simp]:
  "length (bh_BundleID h) = 16 \<Longrightarrow> length (MarshalBundleHeader h) = 25"
  by (simp add: MarshalBundleHeader_def)

lemma Unmarshal_MarshalBundleHeader:
  assumes "bundle_header_ok h"
  shows "UnmarshalBundleHeader (MarshalBundleHeader h @ rest) = Inr h"
proof -
  have len: "length (bh_BundleID h) = 16" using assms by (simp add: bundle_header_ok_def)
  have "bh_FragTotal h \<noteq> 0" using assms by (auto simp: bundle_header_ok_def)
  then show ?thesis
    using assms len
    by (simp add: UnmarshalBundleHeader_def bundle_header_ok_def bundle_consts MarshalBundleHeader_def
        Let_def slice_append_skip slice_def not_le)
qed

lemma UnmarshalBundleHeaderD:
  assumes "UnmarshalBundleHeader data = Inr h"
  shows "bundle_header_ok h \<and> MarshalBundleHeader h @ drop 25 data = data"
proof -
  have len: "25 \<le> length data"
    using assms by (simp add: UnmarshalBundleHeader_def bundle_consts not_less split: if_splits)
  have h: "h = \<lparr> bh_Version = data ! 0, bh_BundleID = slice 1 17 data,
      bh_FragIndex = get_u16_le (slice 17 19 data), bh_FragTotal = get_u16_le (slice 19 21 data),
      bh_TotalSize = get_u32_le (slice 21 25 data) \<rparr>"
    and ok: "data ! 0 = BundleVersion" "bh_FragIndex h < bh_FragTotal h"
    using assms len
    by (auto simp: UnmarshalBundleHeader_def Let_def not_le split: if_splits)
  have ne: "data \<noteq> []" using len by auto
  have "data = data ! 0 # slice 1 17 data @ slice 17 19 data @ slice 19 21 data @ slice 21 25 data @ drop 25 data"
    using Cons_slice [OF ne] drop_eq_slice [of 1 17 data] drop_eq_slice [of 17 19 data]
      drop_eq_slice [of 19 21 data] drop_eq_slice [of 21 25 data] by simp
  moreover have "MarshalBundleHeader h =
      data ! 0 # slice 1 17 data @ slice 17 19 data @ slice 19 21 data @ slice 21 25 data"
    using len by (simp add: h MarshalBundleHeader_def put_get_u16_le put_get_u32_le)
  ultimately have "MarshalBundleHeader h @ drop 25 data = data" by simp
  then show ?thesis using ok len by (simp add: bundle_header_ok_def h)
qed

section \<open>Fragments\<close>

lemma bundle_frag_shape:
  "bundle_frag p n u payload i =
     MarshalBundleHeader \<lparr> bh_Version = BundleVersion, bh_BundleID = u, bh_FragIndex = of_nat i,
       bh_FragTotal = of_nat n, bh_TotalSize = of_nat (length payload) \<rparr> @ piece p i payload"
  by (auto simp: bundle_frag_def Let_def piece_slice slice_def)

lemma Unmarshal_bundle_frag:
  assumes "i < n" "n \<le> MaxBundleFragments" "length u = 16"
  shows "UnmarshalBundleHeader (bundle_frag p n u payload i) =
      Inr \<lparr> bh_Version = BundleVersion, bh_BundleID = u, bh_FragIndex = of_nat i,
        bh_FragTotal = of_nat n, bh_TotalSize = of_nat (length payload) \<rparr>"
  unfolding bundle_frag_shape
  using assms
  by (intro Unmarshal_MarshalBundleHeader)
    (simp add: bundle_header_ok_def word_less_nat_alt unat_of_nat bundle_consts)

lemma drop_bundle_frag:
  "length u = 16 \<Longrightarrow> drop 25 (bundle_frag p n u payload i) = piece p i payload"
  by (simp add: bundle_frag_shape)

definition bundle_count :: "nat \<Rightarrow> nat \<Rightarrow> nat" where
  "bundle_count len p = max 1 (div_up len p)"

lemma bundle_count_covers:
  assumes "0 < p"
  shows "len \<le> bundle_count len p * p"
proof -
  have "div_up len p * p \<le> bundle_count len p * p" by (simp add: bundle_count_def)
  then show ?thesis using div_up_covers [OF assms, of len] by linarith
qed

lemma FragmentBundle_InrD:
  assumes "FragmentBundle (Some u) payload mtu = Inr (bid, frags)"
  shows "25 < mtu" "length payload < 2 ^ 32" "bid = uuid4_bits u"
    "bundle_count (length payload) (nat (mtu - 25)) \<le> MaxBundleFragments"
    "frags = map (bundle_frag (nat (mtu - 25)) (bundle_count (length payload) (nat (mtu - 25))) bid payload)
       [0..<bundle_count (length payload) (nat (mtu - 25))]"
proof -
  have c: "(if (length payload + nat (mtu - 25) - 1) div nat (mtu - 25) = 0 then 1
      else (length payload + nat (mtu - 25) - 1) div nat (mtu - 25)) =
      bundle_count (length payload) (nat (mtu - 25))"
    by (simp add: bundle_count_def div_up_def max_def)
  show "25 < mtu" using assms by (auto simp: FragmentBundle_def BundleHeaderLen_def split: if_splits)
  show "length payload < 2 ^ 32" using assms
    by (auto simp: FragmentBundle_def Let_def split: if_splits)
  show "bid = uuid4_bits u"
    "bundle_count (length payload) (nat (mtu - 25)) \<le> MaxBundleFragments"
    "frags = map (bundle_frag (nat (mtu - 25)) (bundle_count (length payload) (nat (mtu - 25))) bid payload)
       [0..<bundle_count (length payload) (nat (mtu - 25))]"
    using assms
    unfolding FragmentBundle_def Let_def BundleHeaderLen_def of_nat_numeral c
    by (auto split: if_splits)
qed

section \<open>One bundle as a slot table\<close>

definition rs_total :: "reassemblyState \<Rightarrow> nat" where
  "rs_total st = unat (rs_fragTotal st)"

definition rs_slot :: "reassemblyState \<Rightarrow> nat \<Rightarrow> bytes option" where
  "rs_slot st i = (if i < rs_total st then fmlookup (rs_fragments st) (of_nat i) else None)"

definition rs_store :: "nat \<Rightarrow> bytes \<Rightarrow> reassemblyState \<Rightarrow> reassemblyState" where
  "rs_store i p st = st \<lparr> rs_fragments := fmupd (of_nat i) p (rs_fragments st) \<rparr>"

definition rs_inv :: "reassemblyState \<Rightarrow> bool" where
  "rs_inv st \<longleftrightarrow> fBall (fmdom (rs_fragments st)) (\<lambda>i. i < rs_fragTotal st)"

lemma rs_store_simps [simp]:
  "rs_total (rs_store i p st) = rs_total st" "rs_fragTotal (rs_store i p st) = rs_fragTotal st"
  "rs_totalSize (rs_store i p st) = rs_totalSize st"
  by (simp_all add: rs_total_def rs_store_def)

lemma rs_index: "i < rs_total st \<Longrightarrow> unat (of_nat i :: 16 word) = i"
  using unat_less_exp [of "rs_fragTotal st"] by (simp add: rs_total_def unat_of_nat)

lemma rs_slot_store:
  assumes "i < rs_total st"
  shows "rs_slot (rs_store i p st) = (rs_slot st)(i \<mapsto> p)"
proof (rule ext)
  fix j
  show "rs_slot (rs_store i p st) j = ((rs_slot st)(i \<mapsto> p)) j"
    using rs_index [OF assms] rs_index [of j st] assms
    by (cases "i = j") (auto simp: rs_slot_def rs_store_def rs_total_def)
qed

lemma rs_inv_store: "rs_inv st \<Longrightarrow> i < rs_total st \<Longrightarrow> rs_inv (rs_store i p st)"
  using rs_index [of i st]
  by (auto simp: rs_inv_def rs_store_def rs_total_def word_less_nat_alt)

lemma rs_filled:
  assumes "rs_inv st"
  shows "fmsize (rs_fragments st) = card {i. i < rs_total st \<and> rs_slot st i \<noteq> None}"
proof -
  have "bij_betw unat (fset (fmdom (rs_fragments st))) {i. i < rs_total st \<and> rs_slot st i \<noteq> None}"
  proof (rule bij_betw_byWitness [where f' = of_nat])
    show "unat ` fset (fmdom (rs_fragments st)) \<subseteq> {i. i < rs_total st \<and> rs_slot st i \<noteq> None}"
      using assms by (auto simp: rs_inv_def rs_slot_def rs_total_def word_less_nat_alt fmlookup_dom_iff)
    show "of_nat ` {i. i < rs_total st \<and> rs_slot st i \<noteq> None} \<subseteq> fset (fmdom (rs_fragments st))"
      by (auto simp: rs_slot_def intro: fmdomI)
    show "\<forall>i\<in>{i. i < rs_total st \<and> rs_slot st i \<noteq> None}. unat (of_nat i :: 16 word) = i"
      using rs_index by blast
  qed simp
  then show ?thesis by (simp add: fmsize_def fcard.rep_eq bij_betw_same_card)
qed

interpretation rs: slot_table rs_total rs_slot rs_store "\<lambda>st. fmsize (rs_fragments st)" rs_inv
  by unfold_locales (simp_all add: rs_slot_store rs_inv_store rs_filled)

definition rs_new :: "BundleHeader \<Rightarrow> instant \<Rightarrow> reassemblyState" where
  "rs_new h now = \<lparr> rs_totalSize = bh_TotalSize h, rs_fragTotal = bh_FragTotal h,
     rs_fragments = fmempty, rs_createdAt = now \<rparr>"

lemma rs_new_simps [simp]:
  "rs_inv (rs_new h now)" "rs_total (rs_new h now) = unat (bh_FragTotal h)"
  "rs_slot (rs_new h now) i = None" "rs_totalSize (rs_new h now) = bh_TotalSize h"
  "rs_fragTotal (rs_new h now) = bh_FragTotal h"
  by (simp_all add: rs_new_def rs_inv_def rs_total_def rs_slot_def)

lemma bundle_join_slots:
  assumes "\<And>j. i \<le> j \<Longrightarrow> j < i + n \<Longrightarrow> fmlookup m (of_nat j) = Some (f j)"
  shows "bundle_join m i n = Inr (concat (map f [i..<i + n]))"
  using assms
proof (induction n arbitrary: i)
  case (Suc n)
  have "fmlookup m (of_nat i) = Some (f i)" using Suc.prems by simp
  moreover have "bundle_join m (Suc i) n = Inr (concat (map f [Suc i..<Suc i + n]))"
    by (rule Suc.IH) (use Suc.prems in simp)
  ultimately show ?case by (simp add: upt_rec [of i])
qed simp

lemma bundle_join_full:
  assumes "rs_inv st" "\<not> fmsize (rs_fragments st) < rs_total st"
  shows "bundle_join (rs_fragments st) 0 (rs_total st) =
    Inr (concat (map (\<lambda>i. the (rs_slot st i)) [0..<rs_total st]))"
proof -
  have "rs_slot st i \<noteq> None" if "i < rs_total st" for i
    using rs.incomplete_iff [OF assms(1)] assms(2) that by metis
  then show ?thesis
    using bundle_join_slots [where m = "rs_fragments st" and i = 0 and n = "rs_total st"
        and f = "\<lambda>i. the (rs_slot st i)"]
    by (fastforce simp: rs_slot_def)
qed

section \<open>The buffer, one bundle at a time\<close>

type_synonym bundle_arrival = "instant \<times> bytes"

text \<open>What \<open>Reassemble\<close> does to the one entry it is about.\<close>

definition rs_finish :: "reassemblyState \<Rightarrow> bundle_error + bytes option" where
  "rs_finish st =
     (case bundle_join (rs_fragments st) 0 (rs_total st) of
        Inl e \<Rightarrow> Inl e
      | Inr result \<Rightarrow> if length result \<noteq> unat (rs_totalSize st)
          then Inl (ReassembledSize (length result) (rs_totalSize st)) else Inr (Some result))"

definition bundle_feed ::
  "bundle_arrival \<Rightarrow> reassemblyState option \<Rightarrow> (bundle_error + bytes option) \<times> reassemblyState option" where
  "bundle_feed e cur =
     (case UnmarshalBundleHeader (snd e) of Inl err \<Rightarrow> (Inl err, cur)
      | Inr hdr \<Rightarrow>
        let st = (case cur of Some st \<Rightarrow> st | None \<Rightarrow> rs_new hdr (fst e))
        in if bh_TotalSize hdr \<noteq> rs_totalSize st
           then (Inl (TotalSizeMismatch (bh_TotalSize hdr) (rs_totalSize st)), Some st)
           else if bh_FragTotal hdr \<noteq> rs_fragTotal st
           then (Inl (FragTotalMismatch (bh_FragTotal hdr) (rs_fragTotal st)), Some st)
           else let st1 = rs_store (unat (bh_FragIndex hdr)) (drop 25 (snd e)) st
                in if fmsize (rs_fragments st1) < rs_total st1 then (Inr None, Some st1)
                   else (case bundle_join (rs_fragments st1) 0 (rs_total st1) of
                           Inl err \<Rightarrow> (Inl err, Some st1) | Inr r \<Rightarrow> (rs_finish st1, None)))"

definition bundle_key :: "bundle_arrival \<Rightarrow> bytes option" where
  "bundle_key e = (case UnmarshalBundleHeader (snd e) of Inl _ \<Rightarrow> None | Inr h \<Rightarrow> Some (bh_BundleID h))"

definition bundle_step ::
  "bundle_arrival \<Rightarrow> BundleReassemblyBuffer \<Rightarrow> (bundle_error + bytes option) \<times> BundleReassemblyBuffer" where
  "bundle_step e rb = Reassemble (fst e) (snd e) rb"

definition bundle_room :: "BundleReassemblyBuffer \<Rightarrow> bool" where
  "bundle_room rb \<longleftrightarrow> rb_maxSize rb \<le> 0 \<or> int (fmsize (rb_bundles rb)) < rb_maxSize rb"

lemma bundle_step_own:
  assumes "fmlookup (rb_bundles rb) k \<noteq> None \<or> bundle_room rb" "bundle_key e = Some k"
    "bundle_step e rb = (out, rb')"
  shows "bundle_feed e (fmlookup (rb_bundles rb) k) = (out, fmlookup (rb_bundles rb') k)"
proof -
  obtain h where h: "UnmarshalBundleHeader (snd e) = Inr h" "bh_BundleID h = k"
    using assms(2) by (auto simp: bundle_key_def split: sum.splits)
  have "\<not> (fmlookup (rb_bundles rb) k = None \<and> rb_maxSize rb > 0 \<and>
      int (fmsize (rb_bundles rb)) \<ge> rb_maxSize rb)"
    using assms(1) by (auto simp: bundle_room_def)
  with assms(3) h show ?thesis
    by (auto simp: bundle_feed_def bundle_step_def Reassemble_def Let_def rs_new_def rs_store_def
        rs_total_def rs_finish_def BundleHeaderLen_def split: option.splits sum.splits if_splits)
qed

lemma bundle_step_other:
  assumes "bundle_key e \<noteq> Some k" "bundle_step e rb = (out, rb')"
  shows "fmlookup (rb_bundles rb') k = fmlookup (rb_bundles rb) k"
  using assms
  by (auto simp: bundle_step_def Reassemble_def Let_def bundle_key_def
      split: sum.splits if_splits)

interpretation dtn: keyed_store bundle_step bundle_key "\<lambda>rb. fmlookup (rb_bundles rb)" bundle_feed bundle_room
  by unfold_locales (rule bundle_step_own bundle_step_other; assumption)+

section \<open>Fragments of one bundle\<close>

definition bundle_index :: "bundle_arrival \<Rightarrow> nat" where
  "bundle_index e = (case UnmarshalBundleHeader (snd e) of Inl _ \<Rightarrow> 0 | Inr h \<Rightarrow> unat (bh_FragIndex h))"

lemma bundle_index_frag:
  assumes "i < n" "n \<le> MaxBundleFragments" "length u = 16"
  shows "bundle_index (now, bundle_frag p n u payload i) = i"
  using assms by (simp add: bundle_index_def Unmarshal_bundle_frag bundle_consts unat_of_nat)

definition rs_for :: "nat \<Rightarrow> nat \<Rightarrow> reassemblyState \<Rightarrow> bool" where
  "rs_for n len st \<longleftrightarrow> rs_fragTotal st = of_nat n \<and> rs_totalSize st = of_nat len"

lemma rs_finish_full:
  assumes "rs_inv st" "rs_for n (length payload) st" "rs_total st = n" "length payload < 2 ^ 32"
    and cover: "length payload \<le> n * p"
    and full: "\<And>i. i < n \<Longrightarrow> rs_slot st i = Some (piece p i payload)"
  shows "bundle_join (rs_fragments st) 0 (rs_total st) = Inr payload" "rs_finish st = Inr (Some payload)"
proof -
  have "\<not> fmsize (rs_fragments st) < rs_total st"
    using rs.incomplete_iff [OF assms(1)] full assms(3) by auto
  moreover have "concat (map (\<lambda>i. the (rs_slot st i)) [0..<n]) = concat (map (\<lambda>i. piece p i payload) [0..<n])"
    using full by (intro arg_cong [of _ _ concat]) simp
  ultimately show j: "bundle_join (rs_fragments st) 0 (rs_total st) = Inr payload"
    using bundle_join_full [OF assms(1)] assms(3) cover by (simp add: concat_pieces)
  show "rs_finish st = Inr (Some payload)"
    using assms(2,4) by (simp add: rs_finish_def j rs_for_def unat_of_nat)
qed

lemma bundle_feed_frag:
  assumes i: "i < n" "n \<le> MaxBundleFragments" "length u = 16" "length payload \<le> n * p" "length payload < 2 ^ 32"
    and cur: "pred_option (\<lambda>st. rs_inv st \<and> rs_for n (length payload) st \<and> rs_total st = n) cur"
  shows "bundle_feed (now, bundle_frag p n u payload i) cur =
    (let hdr = \<lparr> bh_Version = BundleVersion, bh_BundleID = u, bh_FragIndex = of_nat i,
           bh_FragTotal = of_nat n, bh_TotalSize = of_nat (length payload) \<rparr>;
         st = rs_store i (piece p i payload) (case cur of Some st \<Rightarrow> st | None \<Rightarrow> rs_new hdr now)
     in if fmsize (rs_fragments st) < rs_total st then (Inr None, Some st) else (rs_finish st, None))"
proof -
  define hdr where "hdr = \<lparr> bh_Version = BundleVersion, bh_BundleID = u, bh_FragIndex = of_nat i,
      bh_FragTotal = of_nat n, bh_TotalSize = of_nat (length payload) \<rparr>"
  have hdr: "bh_FragIndex hdr = of_nat i" "bh_FragTotal hdr = of_nat n"
    "bh_TotalSize hdr = of_nat (length payload)" by (simp_all add: hdr_def)
  define st where "st = (case cur of Some st \<Rightarrow> st | None \<Rightarrow> rs_new hdr now)"
  have n: "unat (of_nat n :: 16 word) = n" "unat (of_nat i :: 16 word) = i"
    using i by (simp_all add: bundle_consts unat_of_nat)
  have st: "rs_inv st" "rs_fragTotal st = of_nat n" "rs_totalSize st = of_nat (length payload)" "rs_total st = n"
    using cur n by (auto simp: st_def hdr_def rs_for_def rs_total_def split: option.splits)
  have inv1: "rs_inv (rs_store i (piece p i payload) st)" using rs_inv_store st i(1) by simp
  have "\<exists>r. bundle_join (rs_fragments (rs_store i (piece p i payload) st)) 0
      (rs_total (rs_store i (piece p i payload) st)) = Inr r"
    if "\<not> fmsize (rs_fragments (rs_store i (piece p i payload) st)) < rs_total st"
    using bundle_join_full [OF inv1] that by simp
  moreover have "UnmarshalBundleHeader (bundle_frag p n u payload i) = Inr hdr"
    using Unmarshal_bundle_frag [OF i(1-3)] by (simp add: hdr_def)
  ultimately have "bundle_feed (now, bundle_frag p n u payload i) cur =
      (let st = rs_store i (piece p i payload) st
       in if fmsize (rs_fragments st) < rs_total st then (Inr None, Some st) else (rs_finish st, None))"
    using st i(3) n hdr
    unfolding bundle_feed_def snd_conv fst_conv
    by (auto simp: Let_def st_def [symmetric] drop_bundle_frag)
  then show ?thesis by (simp only: st_def hdr_def Let_def)
qed

lemma bundle_feed_frags:
  assumes n: "0 < n" "n \<le> MaxBundleFragments" "length u = 16" "length payload \<le> n * p" "length payload < 2 ^ 32"
    and perm: "mset (map snd es) = mset (map (bundle_frag p n u payload) [0..<n])"
  shows "run bundle_feed es None = (replicate (n - 1) (Inr None) @ [Inr (Some payload)], None) \<and>
    kept bundle_feed (tl es) (snd (bundle_feed (hd es) None))"
proof -
  have rd: "\<forall>e. \<forall>i < n. snd e = bundle_frag p n u payload i \<longrightarrow> bundle_index e = i"
    using n(2,3) by (metis bundle_index_frag prod.collapse)
  note ix = perm_indices [where g = snd and idx = bundle_index, OF perm rd]
  have ev: "\<exists>now. e = (now, bundle_frag p n u payload (bundle_index e)) \<and> bundle_index e < n"
    if "e \<in> set es" for e
    using ix(4) [OF that] by (metis prod.collapse)
  define hdr where "hdr i = \<lparr> bh_Version = BundleVersion, bh_BundleID = u, bh_FragIndex = of_nat i,
      bh_FragTotal = of_nat n, bh_TotalSize = of_nat (length payload) \<rparr>" for i
  have "run bundle_feed es None = (replicate (length es - 1) (Inr None) @ [Inr (Some payload)], None) \<and>
    kept bundle_feed (tl es) (snd (bundle_feed (hd es) None))"
  proof (rule rs.feed_perm_from [where J = "{}" and n = n and idx = bundle_index
        and f = "\<lambda>i. piece p i payload" and new = "\<lambda>e. rs_new (hdr (bundle_index e)) (fst e)"
        and good = "\<lambda>st. rs_for n (length payload) st" and fin = rs_finish])
    show "bundle_feed e cur =
        (let s = rs_store (bundle_index e) (piece p (bundle_index e) payload)
               (case cur of Some s \<Rightarrow> s | None \<Rightarrow> rs_new (hdr (bundle_index e)) (fst e))
         in if fmsize (rs_fragments s) < rs_total s then (Inr None, Some s) else (rs_finish s, None))"
      if es: "e \<in> set es" and cur: "pred_option (\<lambda>s. rs_inv s \<and> rs_for n (length payload) s \<and> rs_total s = n) cur"
      for e cur
    proof -
      obtain now where e: "e = (now, bundle_frag p n u payload (bundle_index e))"
        and i: "bundle_index e < n" using ev [OF es] by blast
      have t: "fst e = now" by (subst e) simp
      show ?thesis
        using bundle_feed_frag [OF i n(2-5) cur, of now]
        unfolding t e [symmetric] hdr_def Let_def by simp
    qed
    show "{} \<union> bundle_index ` set es = {..<n}" using ix(3) by simp
    show "distinct (map bundle_index es)" by (rule ix(2))
    show "es \<noteq> []" using ix(1) n(1) by auto
  qed (use n rs_finish_full in \<open>auto simp: rs_for_def hdr_def bundle_consts unat_of_nat\<close>)
  then show ?thesis by (simp add: ix(1))
qed

section \<open>Properties\<close>

text \<open>C15: Take any payload that \<open>FragmentBundle\<close> accepts, and a reassembly buffer that
  has no entry for its bundle id and has room when the first of its fragments arrives. Let
  the fragments arrive in any order, at any times, interleaved with any other traffic
  (other bundles, malformed packets, even enough of it to fill the buffer). Then
  \<open>Reassemble\<close> answers "not yet" to all but the last fragment, answers the last one with
  exactly the payload, and leaves no entry behind.\<close>

theorem bundle_any_order:
  assumes "FragmentBundle (Some u) payload mtu = Inr (bid, frags)" "length u = 16"
    and "fmlookup (rb_bundles rb) bid = None" "bundle_room rb"
    and "bundle_key e = Some bid"
    and "mset (map snd (e # filter (\<lambda>e. bundle_key e = Some bid) es)) = mset frags"
  shows "answers (\<lambda>e. bundle_key e = Some bid) (e # es) (fst (run bundle_step (e # es) rb)) =
           replicate (length frags - 1) (Inr None) @ [Inr (Some payload)] \<and>
         fmlookup (rb_bundles (snd (run bundle_step (e # es) rb))) bid = None"
proof -
  define p where "p = nat (mtu - 25)"
  define n where "n = bundle_count (length payload) p"
  note fb = FragmentBundle_InrD [OF assms(1), folded p_def, folded n_def]
  have p: "0 < p" using fb(1) by (simp add: p_def)
  have n: "0 < n" "length payload \<le> n * p"
    using bundle_count_covers [OF p] by (simp_all add: n_def bundle_count_def)
  have "length bid = 16" using fb(3) assms(2) by simp
  from bundle_feed_frags [OF n(1) fb(4) this n(2) fb(2) assms(6) [unfolded fb(5)]]
  show ?thesis
    using dtn.run_local_first [OF assms(4,5), of es] assms(3) fb(5) by simp
qed

theorem bundle_any_order_witness:
  "let u = replicate 16 0; b = uuid4_bits u; f = map (bundle_frag 4 3 b [1,2,3,4,5,6,7,8,9]) [0..<3];
       e = (1, f ! 2); es = [(2, [9, 9]), (3, f ! 0), (4, f ! 1)]
   in answers (\<lambda>e. bundle_key e = Some b) (e # es)
        (fst (run bundle_step (e # es) (NewBundleReassemblyBuffer 60 1))) =
      [Inr None, Inr None, Inr (Some [1,2,3,4,5,6,7,8,9])]"
proof -
  let ?u = "replicate 16 0 :: bytes" and ?p = "[1,2,3,4,5,6,7,8,9] :: bytes"
  let ?b = "uuid4_bits ?u" and ?rb = "NewBundleReassemblyBuffer 60 1"
  let ?f = "map (bundle_frag 4 3 ?b ?p) [0..<3]"
  let ?es = "[(2, [9, 9]), (3, ?f ! 0), (4, ?f ! 1)] :: bundle_arrival list"
  have fb: "FragmentBundle (Some ?u) ?p 29 = Inr (?b, ?f)"
    by (simp add: FragmentBundle_def bundle_consts Let_def)
  have key: "bundle_key (1, ?f ! 2) = Some ?b" by code_simp
  have fil: "filter (\<lambda>e. bundle_key e = Some ?b) ?es = [(3, ?f ! 0), (4, ?f ! 1)]" by code_simp
  have f: "?f = [?f ! 0, ?f ! 1, ?f ! 2]" by (simp add: upt_rec)
  have perm: "mset (map snd ((1, ?f ! 2) # filter (\<lambda>e. bundle_key e = Some ?b) ?es)) = mset ?f"
    unfolding fil by (subst (4) f) simp
  have "answers (\<lambda>e. bundle_key e = Some ?b) ((1, ?f ! 2) # ?es)
      (fst (run bundle_step ((1, ?f ! 2) # ?es) ?rb)) =
      replicate (length ?f - 1) (Inr None) @ [Inr (Some ?p)]"
    by (rule conjunct1 [OF bundle_any_order [OF fb _ _ _ key perm]])
      (simp_all add: NewBundleReassemblyBuffer_def bundle_room_def)
  then show ?thesis unfolding Let_def by (simp only:) (simp add: numeral_eq_Suc)
qed

text \<open>\<open>FragmentBundle\<close> accepts a payload exactly when the MTU exceeds the header, the
  size fits the 32-bit field and 65535 fragments are enough. It then produces
  \<open>max 1 (ceil (len / (mtu - 25)))\<close> packets, none longer than the MTU. Packet \<open>i\<close>
  decodes to a header with the bundle id, index \<open>i\<close>, the packet count and the payload's
  size, and the packets without their headers concatenate to the payload. The id carries
  the version-4 UUID bits.\<close>

theorem FragmentBundle_layout:
  assumes "length u = 16"
  shows "((\<exists>r. FragmentBundle (Some u) payload mtu = Inr r) \<longleftrightarrow>
            25 < mtu \<and> length payload < 2 ^ 32 \<and> int (length payload) \<le> 65535 * (mtu - 25)) \<and>
         (\<forall>bid frags. FragmentBundle (Some u) payload mtu = Inr (bid, frags) \<longrightarrow>
            length frags = max 1 (div_up (length payload) (nat (mtu - 25))) \<and>
            (\<forall>i < length frags. int (length (frags ! i)) \<le> mtu \<and>
               UnmarshalBundleHeader (frags ! i) =
                 Inr \<lparr> bh_Version = BundleVersion, bh_BundleID = bid, bh_FragIndex = of_nat i,
                        bh_FragTotal = of_nat (length frags), bh_TotalSize = of_nat (length payload) \<rparr>) \<and>
            concat (map (drop 25) frags) = payload \<and>
            drop_bit 4 (bid ! 6) = 4 \<and> drop_bit 6 (bid ! 8) = 2)"
proof (intro conjI allI impI)
  show "(\<exists>r. FragmentBundle (Some u) payload mtu = Inr r) \<longleftrightarrow>
      25 < mtu \<and> length payload < 2 ^ 32 \<and> int (length payload) \<le> 65535 * (mtu - 25)"
  proof (cases "25 < mtu")
    case True
    define p where "p = nat (mtu - 25)"
    have p: "0 < p" "int p = mtu - 25" using True by (simp_all add: p_def)
    have "bundle_count (length payload) p \<le> 65535 \<longleftrightarrow> length payload \<le> 65535 * p"
      using div_up_le_iff [OF p(1), of "length payload" 65535] by (simp add: bundle_count_def)
    also have "\<dots> \<longleftrightarrow> int (length payload) \<le> 65535 * (mtu - 25)"
      unfolding p(2) [symmetric] by linarith
    finally show ?thesis
      using True p(2)
      by (auto simp: FragmentBundle_def Let_def bundle_consts bundle_count_def div_up_def p_def [symmetric]
          split: if_splits)
  qed (simp add: FragmentBundle_def BundleHeaderLen_def)
next
  fix bid frags assume fb: "FragmentBundle (Some u) payload mtu = Inr (bid, frags)"
  define p where "p = nat (mtu - 25)"
  define n where "n = bundle_count (length payload) p"
  note fb = FragmentBundle_InrD [OF fb, folded p_def, folded n_def]
  have p: "0 < p" "int p = mtu - 25" using fb(1) by (simp_all add: p_def)
  have len: "length bid = 16" using fb(3) assms by simp
  show "length frags = max 1 (div_up (length payload) (nat (mtu - 25)))"
    by (simp add: fb(5) n_def bundle_count_def p_def)
  show "concat (map (drop 25) frags) = payload"
    using len bundle_count_covers [OF p(1), of "length payload"]
    by (simp add: fb(5) o_def drop_bundle_frag concat_pieces n_def)
  show "drop_bit 4 (bid ! 6) = 4" "drop_bit 6 (bid ! 8) = 2"
    using uuid4_bits_version [OF assms] by (simp_all add: fb(3))
  fix i assume i: "i < length frags"
  show "int (length (frags ! i)) \<le> mtu"
    using i len p(2) by (simp add: fb(5) bundle_frag_shape length_piece min_def)
  show "UnmarshalBundleHeader (frags ! i) =
      Inr \<lparr> bh_Version = BundleVersion, bh_BundleID = bid, bh_FragIndex = of_nat i,
        bh_FragTotal = of_nat (length frags), bh_TotalSize = of_nat (length payload) \<rparr>"
    using i fb(4) len by (simp add: fb(5) Unmarshal_bundle_frag)
qed

text \<open>The states a buffer can be in: every sequence of arrivals and reapings.\<close>

inductive bundle_reachable :: "int \<Rightarrow> int \<Rightarrow> BundleReassemblyBuffer \<Rightarrow> bool" for maxAge maxSize where
  fresh: "bundle_reachable maxAge maxSize (NewBundleReassemblyBuffer maxAge maxSize)"
| arrival: "bundle_reachable maxAge maxSize rb \<Longrightarrow> bundle_reachable maxAge maxSize (snd (Reassemble now data rb))"
| reap: "bundle_reachable maxAge maxSize rb \<Longrightarrow> bundle_reachable maxAge maxSize (snd (Reap now rb))"

definition bundle_entry_ok :: "reassemblyState option \<Rightarrow> bool" where
  "bundle_entry_ok = pred_option (\<lambda>st. rs_inv st \<and> fmsize (rs_fragments st) < rs_total st)"

lemma bundle_feed_ok:
  assumes "bundle_entry_ok cur"
  shows "bundle_entry_ok (snd (bundle_feed e cur))"
    "fst (bundle_feed e cur) \<noteq> Inl (MissingFragment j)"
    "fst (bundle_feed e cur) = Inr (Some payload) \<Longrightarrow>
       \<exists>h. UnmarshalBundleHeader (snd e) = Inr h \<and> length payload = unat (bh_TotalSize h)"
proof -
  have *: "bundle_entry_ok (snd (bundle_feed e cur)) \<and> fst (bundle_feed e cur) \<noteq> Inl (MissingFragment j) \<and>
    (\<forall>payload. fst (bundle_feed e cur) = Inr (Some payload) \<longrightarrow>
       (\<exists>h. UnmarshalBundleHeader (snd e) = Inr h \<and> length payload = unat (bh_TotalSize h)))"
  proof (cases "UnmarshalBundleHeader (snd e)")
    case (Inl err)
    then show ?thesis using assms
      by (auto simp: bundle_feed_def UnmarshalBundleHeader_def Let_def split: if_splits)
  next
    case (Inr h)
    define st where "st = (case cur of Some st \<Rightarrow> st | None \<Rightarrow> rs_new h (fst e))"
    define st1 where "st1 = rs_store (unat (bh_FragIndex h)) (drop 25 (snd e)) st"
    have lt: "bh_FragIndex h < bh_FragTotal h"
      using UnmarshalBundleHeaderD [OF Inr] by (simp add: bundle_header_ok_def)
    have st: "rs_inv st" "fmsize (rs_fragments st) < rs_total st"
      using assms lt by (auto simp: bundle_entry_ok_def st_def rs_new_def rs_inv_def rs_total_def
          word_less_nat_alt split: option.splits)
    have inv1: "rs_inv st1" if "bh_FragTotal h = rs_fragTotal st"
      using rs_inv_store [OF st(1)] lt that by (simp add: st1_def rs_total_def word_less_nat_alt)
    have join: "\<exists>r. bundle_join (rs_fragments st1) 0 (rs_total st1) = Inr r"
      if "bh_FragTotal h = rs_fragTotal st" "\<not> fmsize (rs_fragments st1) < rs_total st1"
      using bundle_join_full [OF inv1 [OF that(1)] that(2)] by blast
    show ?thesis
      using st inv1 join
      by (auto simp: bundle_feed_def Inr Let_def st_def [symmetric] st1_def [symmetric]
          bundle_entry_ok_def rs_finish_def split: sum.splits if_splits)
        (simp_all add: st1_def)
  qed
  show "bundle_entry_ok (snd (bundle_feed e cur))" "fst (bundle_feed e cur) \<noteq> Inl (MissingFragment j)"
    "fst (bundle_feed e cur) = Inr (Some payload) \<Longrightarrow>
       \<exists>h. UnmarshalBundleHeader (snd e) = Inr h \<and> length payload = unat (bh_TotalSize h)"
    using * by auto
qed

definition bundle_inv :: "int \<Rightarrow> int \<Rightarrow> BundleReassemblyBuffer \<Rightarrow> bool" where
  "bundle_inv maxAge maxSize rb \<longleftrightarrow> rb_maxAge rb = maxAge \<and> rb_maxSize rb = maxSize \<and>
     (\<forall>k. bundle_entry_ok (fmlookup (rb_bundles rb) k)) \<and>
     (0 < maxSize \<longrightarrow> int (fmsize (rb_bundles rb)) \<le> maxSize)"

lemma Reassemble_entries:
  assumes "\<And>k. bundle_entry_ok (fmlookup (rb_bundles rb) k)"
  shows "bundle_entry_ok (fmlookup (rb_bundles (snd (Reassemble now data rb))) k)"
    "fst (Reassemble now data rb) \<noteq> Inl (MissingFragment j)"
    "fst (Reassemble now data rb) = Inr (Some payload) \<Longrightarrow>
       \<exists>h. UnmarshalBundleHeader data = Inr h \<and> length payload = unat (bh_TotalSize h)"
proof -
  obtain out rb' where st: "bundle_step (now, data) rb = (out, rb')" by fastforce
  consider (own) k where "bundle_feed (now, data) (fmlookup (rb_bundles rb) k) = (out, fmlookup (rb_bundles rb') k)"
      "bundle_key (now, data) = Some k"
    | (none) "rb' = rb" "\<exists>err. out = Inl err \<and> (\<forall>j. err \<noteq> MissingFragment j)"
  proof (cases "\<exists>h. UnmarshalBundleHeader data = Inr h \<and>
      (fmlookup (rb_bundles rb) (bh_BundleID h) \<noteq> None \<or> bundle_room rb)")
    case True
    then obtain h where h: "UnmarshalBundleHeader data = Inr h"
      "fmlookup (rb_bundles rb) (bh_BundleID h) \<noteq> None \<or> bundle_room rb" by blast
    then have k: "bundle_key (now, data) = Some (bh_BundleID h)" by (simp add: bundle_key_def)
    show ?thesis using own [OF bundle_step_own [OF h(2) k st] k] .
  next
    case False
    have "out = fst (Reassemble now data rb)" "rb' = snd (Reassemble now data rb)"
      using st by (simp_all add: bundle_step_def)
    with False show ?thesis
      by (intro none) (auto simp: Reassemble_def bundle_room_def UnmarshalBundleHeader_def Let_def
          split: sum.splits if_splits)
  qed
  then have "(\<forall>k. bundle_entry_ok (fmlookup (rb_bundles rb') k)) \<and> out \<noteq> Inl (MissingFragment j) \<and>
      (out = Inr (Some payload) \<longrightarrow>
        (\<exists>h. UnmarshalBundleHeader data = Inr h \<and> length payload = unat (bh_TotalSize h)))"
  proof cases
    case (own k')
    have "bundle_entry_ok (fmlookup (rb_bundles rb') k)" for k
      using own assms bundle_feed_ok(1) [OF assms, of "(now, data)" k'] bundle_step_other [OF _ st, of k]
      by (cases "k = k'") auto
    moreover have "out \<noteq> Inl (MissingFragment j)"
      using bundle_feed_ok(2) [OF assms, of "(now, data)" k' j] own(1) by simp
    moreover have "\<exists>h. UnmarshalBundleHeader data = Inr h \<and> length payload = unat (bh_TotalSize h)"
      if "out = Inr (Some payload)"
      using bundle_feed_ok(3) [OF assms, of "(now, data)" k' payload] own(1) that by simp
    ultimately show ?thesis by blast
  qed (use assms in auto)
  then show "bundle_entry_ok (fmlookup (rb_bundles (snd (Reassemble now data rb))) k)"
    "fst (Reassemble now data rb) \<noteq> Inl (MissingFragment j)"
    "fst (Reassemble now data rb) = Inr (Some payload) \<Longrightarrow>
       \<exists>h. UnmarshalBundleHeader data = Inr h \<and> length payload = unat (bh_TotalSize h)"
    using st by (auto simp: bundle_step_def)
qed

lemma Reassemble_size:
  "rb_maxSize (snd (Reassemble now data rb)) = rb_maxSize rb"
  "rb_maxAge (snd (Reassemble now data rb)) = rb_maxAge rb"
  "0 < rb_maxSize rb \<Longrightarrow> int (fmsize (rb_bundles rb)) \<le> rb_maxSize rb \<Longrightarrow>
     int (fmsize (rb_bundles (snd (Reassemble now data rb)))) \<le> rb_maxSize rb"
  by (auto simp: Reassemble_def Let_def fmsize_upd fmsize_drop fmlookup_dom_iff
      split: sum.splits option.splits if_splits)

lemma bundle_reachable_inv: "bundle_reachable maxAge maxSize rb \<Longrightarrow> bundle_inv maxAge maxSize rb"
proof (induction rule: bundle_reachable.induct)
  case fresh
  then show ?case by (simp add: bundle_inv_def NewBundleReassemblyBuffer_def bundle_entry_ok_def)
next
  case (arrival rb now data)
  have "\<And>k. bundle_entry_ok (fmlookup (rb_bundles rb) k)" using arrival.IH by (simp add: bundle_inv_def)
  from Reassemble_entries(1) [OF this] show ?case
    using arrival.IH Reassemble_size [where rb = rb] unfolding bundle_inv_def by metis
next
  case (reap rb now)
  have "int (fmsize (fmdrop_vals (bundle_stale now maxAge) (rb_bundles rb))) \<le> int (fmsize (rb_bundles rb))"
    by (simp add: fmsize_drop_vals_le)
  moreover have "bundle_entry_ok (fmlookup (fmdrop_vals P (rb_bundles rb)) k)" for P k
    using reap.IH by (cases "fmlookup (rb_bundles rb) k")
      (auto simp: bundle_inv_def bundle_entry_ok_def fmlookup_drop_vals dest: spec [of _ k])
  ultimately show ?case using reap.IH by (auto simp: bundle_inv_def Reap_def)
qed

text \<open>C28: In every state a buffer can reach, whatever packets arrived: it holds at most
  \<open>maxSize\<close> bundles when a limit is set; every entry still misses a fragment and has only
  indices below its total; the guard against a missing fragment never fires; and a payload
  that is handed over has exactly the size the header announces. Reaping removes exactly
  the entries older than the limit and reports how many they were.\<close>

theorem bundle_buffer_invariant:
  assumes "bundle_reachable maxAge maxSize rb"
  shows "(0 < maxSize \<longrightarrow> int (bundle_PendingCount rb) \<le> maxSize) \<and>
    (\<forall>k r t. PendingBundleInfo k rb = (r, t) \<longrightarrow> fmlookup (rb_bundles rb) k \<noteq> None \<longrightarrow> r < t) \<and>
    (\<forall>k st i. fmlookup (rb_bundles rb) k = Some st \<longrightarrow> i |\<in>| fmdom (rs_fragments st) \<longrightarrow> i < rs_fragTotal st) \<and>
    (\<forall>now data j. fst (Reassemble now data rb) \<noteq> Inl (MissingFragment j)) \<and>
    (\<forall>now data payload. fst (Reassemble now data rb) = Inr (Some payload) \<longrightarrow>
       (\<exists>h. UnmarshalBundleHeader data = Inr h \<and> length payload = unat (bh_TotalSize h))) \<and>
    (\<forall>now k. fmlookup (rb_bundles (snd (Reap now rb))) k =
       (case fmlookup (rb_bundles rb) k of None \<Rightarrow> None
        | Some st \<Rightarrow> if maxAge < now - rs_createdAt st then None else Some st) \<and>
       bundle_PendingCount (snd (Reap now rb)) + fst (Reap now rb) = bundle_PendingCount rb)"
proof -
  have inv: "bundle_inv maxAge maxSize rb" using bundle_reachable_inv assms by blast
  then have ok: "bundle_entry_ok (fmlookup (rb_bundles rb) k)" for k by (simp add: bundle_inv_def)
  have ent: "rs_inv st" "fmsize (rs_fragments st) < rs_total st" if "fmlookup (rb_bundles rb) k = Some st" for k st
    using ok [of k] that by (simp_all add: bundle_entry_ok_def)
  have info: "r < t" if "PendingBundleInfo k rb = (r, t)" "fmlookup (rb_bundles rb) k \<noteq> None" for k r t
    using that ent [of k] by (auto simp: PendingBundleInfo_def rs_total_def)
  have idx: "i < rs_fragTotal st" if "fmlookup (rb_bundles rb) k = Some st" "i |\<in>| fmdom (rs_fragments st)" for k st i
    using ent(1) [OF that(1)] that(2) by (auto simp: rs_inv_def)
  have reap: "fmlookup (rb_bundles (snd (Reap now rb))) k =
       (case fmlookup (rb_bundles rb) k of None \<Rightarrow> None
        | Some st \<Rightarrow> if maxAge < now - rs_createdAt st then None else Some st) \<and>
       bundle_PendingCount (snd (Reap now rb)) + fst (Reap now rb) = bundle_PendingCount rb" for now k
    using inv fmsize_drop_vals
    by (auto simp: Reap_def fmlookup_drop_vals bundle_stale_def bundle_inv_def bundle_PendingCount_def
        split: option.splits)
  have size: "0 < maxSize \<longrightarrow> int (bundle_PendingCount rb) \<le> maxSize"
    using inv by (simp add: bundle_inv_def bundle_PendingCount_def)
  show ?thesis
    using size info idx reap Reassemble_entries(2,3) [OF ok] by blast
qed

theorem bundle_buffer_invariant_witness:
  "fst (Reassemble 3 [1, 2] (snd (Reap 2 (snd (Reassemble 1 [1] (NewBundleReassemblyBuffer 60 1)))))) \<noteq>
     Inl (MissingFragment 0)"
  using bundle_buffer_invariant [OF reap [OF arrival [OF fresh [of 60 1]]]] by blast

end
