(* ===== verification/Custody.thy ===== *)
theory Custody
  imports Prelude
begin

text \<open>
  DTN custody transfer, \<open>src/internal/protocol/custody.go\<close>: the offer and acknowledgment
  packets with their codecs, the signed acknowledgment, and the manager that matches
  acknowledgments to pending offers.

  Ed25519 is a pair of arguments \<open>sign\<close> and \<open>verify\<close>. The Go channel of an offer is an
  entry of an explicit channel table (buffer and closed flag, capacity 1); sending on a
  closed channel and closing twice are panics, which the model returns as \<open>None\<close>. The
  order in which Go's \<open>range\<close> visits the pending map is an argument of \<open>Reap\<close>.
\<close>

definition CustodyOfferType :: byte where "CustodyOfferType = 0x16"
definition CustodyACKType :: byte where "CustodyACKType = 0x17"
definition custodyOfferHeaderLen :: nat where "custodyOfferHeaderLen = 37"
definition custodyACKLen :: nat where "custodyACKLen = 97"

lemmas custody_consts = CustodyOfferType_def CustodyACKType_def custodyOfferHeaderLen_def custodyACKLen_def

record CustodyOffer =
  co_CustodyID :: bytes
  co_SourceHash :: bytes
  co_DeliveryID :: "32 word"
  co_Payload :: bytes

record CustodyACK =
  ca_CustodyID :: bytes
  ca_AcceptorHash :: bytes
  ca_Signature :: bytes

datatype custody_error = CustodyTooShort nat | CustodyBadType byte

definition MarshalCustodyOffer :: "CustodyOffer \<Rightarrow> bytes" where
  "MarshalCustodyOffer o' =
     [CustodyOfferType] @ co_CustodyID o' @ co_SourceHash o' @ put_u32_le (co_DeliveryID o') @ co_Payload o'"

definition UnmarshalCustodyOffer :: "bytes \<Rightarrow> custody_error + CustodyOffer" where
  "UnmarshalCustodyOffer data =
     (if length data < custodyOfferHeaderLen then Inl (CustodyTooShort (length data))
      else if data ! 0 \<noteq> CustodyOfferType then Inl (CustodyBadType (data ! 0))
      else Inr \<lparr> co_CustodyID = slice 1 17 data, co_SourceHash = slice 17 33 data,
                 co_DeliveryID = get_u32_le (slice 33 37 data),
                 co_Payload = (if length data > custodyOfferHeaderLen
                               then drop custodyOfferHeaderLen data else []) \<rparr>)"

definition MarshalCustodyACK :: "CustodyACK \<Rightarrow> bytes" where
  "MarshalCustodyACK a = [CustodyACKType] @ ca_CustodyID a @ ca_AcceptorHash a @ ca_Signature a"

definition UnmarshalCustodyACK :: "bytes \<Rightarrow> custody_error + CustodyACK" where
  "UnmarshalCustodyACK data =
     (if length data < custodyACKLen then Inl (CustodyTooShort (length data))
      else if data ! 0 \<noteq> CustodyACKType then Inl (CustodyBadType (data ! 0))
      else Inr \<lparr> ca_CustodyID = slice 1 17 data, ca_AcceptorHash = slice 17 33 data,
                 ca_Signature = slice 33 97 data \<rparr>)"

definition SignCustodyACK :: "('sk \<Rightarrow> bytes \<Rightarrow> bytes) \<Rightarrow> bytes \<Rightarrow> bytes \<Rightarrow> 'sk \<Rightarrow> CustodyACK" where
  "SignCustodyACK sign custodyID acceptorHash privKey =
     (let msg = custodyID @ acceptorHash
      in \<lparr> ca_CustodyID = custodyID, ca_AcceptorHash = acceptorHash, ca_Signature = sign privKey msg \<rparr>)"

definition VerifyCustodyACK :: "('pk \<Rightarrow> bytes \<Rightarrow> bytes \<Rightarrow> bool) \<Rightarrow> CustodyACK \<Rightarrow> 'pk \<Rightarrow> bool" where
  "VerifyCustodyACK verify ack pubKey =
     (let msg = ca_CustodyID ack @ ca_AcceptorHash ack in verify pubKey msg (ca_Signature ack))"

definition IsCustodyOffer :: "bytes \<Rightarrow> bool" where
  "IsCustodyOffer data \<longleftrightarrow> length data \<ge> custodyOfferHeaderLen \<and> data ! 0 = CustodyOfferType"

definition IsCustodyACK :: "bytes \<Rightarrow> bool" where
  "IsCustodyACK data \<longleftrightarrow> length data \<ge> custodyACKLen \<and> data ! 0 = CustodyACKType"

datatype CustodyState = CustodyOffered | CustodyAccepted | CustodyExpired

record pendingCustody =
  pc_offer :: CustodyOffer
  pc_state :: CustodyState
  pc_offeredAt :: instant
  pc_ackCh :: nat

text \<open>A Go channel of acknowledgments with capacity 1.\<close>

record ack_chan =
  ch_buf :: "CustodyACK list"
  ch_closed :: bool

record CustodyManager =
  cm_pending :: "(bytes, pendingCustody) fmap"
  cm_timeout :: int
  cm_chans :: "ack_chan list"

definition NewCustodyManager :: "int \<Rightarrow> CustodyManager" where
  "NewCustodyManager ackTimeout = \<lparr> cm_pending = fmempty, cm_timeout = ackTimeout, cm_chans = [] \<rparr>"

text \<open>Language primitives: \<open>select { case c <- v: default: }\<close> and \<open>close(c)\<close>.\<close>

definition chan_try_send :: "CustodyACK \<Rightarrow> ack_chan \<Rightarrow> ack_chan option" where
  "chan_try_send v c = (if ch_closed c then None
     else Some (if length (ch_buf c) < 1 then c \<lparr> ch_buf := ch_buf c @ [v] \<rparr> else c))"

definition chan_close :: "ack_chan \<Rightarrow> ack_chan option" where
  "chan_close c = (if ch_closed c then None else Some (c \<lparr> ch_closed := True \<rparr>))"

definition RegisterOffer :: "instant \<Rightarrow> CustodyOffer \<Rightarrow> CustodyManager \<Rightarrow> nat \<times> CustodyManager" where
  "RegisterOffer now offer cm =
     (let ch = length (cm_chans cm)
      in (ch, cm \<lparr> cm_chans := cm_chans cm @ [\<lparr> ch_buf = [], ch_closed = False \<rparr>],
                   cm_pending := fmupd (co_CustodyID offer)
                     \<lparr> pc_offer = offer, pc_state = CustodyOffered, pc_offeredAt = now, pc_ackCh = ch \<rparr>
                     (cm_pending cm) \<rparr>))"

definition HandleACK :: "CustodyACK \<Rightarrow> CustodyManager \<Rightarrow> (bool \<times> CustodyManager) option" where
  "HandleACK ack cm =
     (case fmlookup (cm_pending cm) (ca_CustodyID ack) of None \<Rightarrow> Some (False, cm)
      | Some p \<Rightarrow>
        if pc_state p \<noteq> CustodyOffered then Some (False, cm)
        else let pending = fmupd (ca_CustodyID ack) (p \<lparr> pc_state := CustodyAccepted \<rparr>) (cm_pending cm)
             in case chan_try_send ack (cm_chans cm ! pc_ackCh p) of None \<Rightarrow> None
                | Some c \<Rightarrow> (case chan_close c of None \<Rightarrow> None
                   | Some c' \<Rightarrow> Some (True, cm \<lparr> cm_pending := pending,
                                                 cm_chans := (cm_chans cm)[pc_ackCh p := c'] \<rparr>)))"

fun custody_reap_loop :: "bytes list \<Rightarrow> instant \<Rightarrow> nat \<Rightarrow> CustodyManager \<Rightarrow> (nat \<times> CustodyManager) option" where
  "custody_reap_loop [] now expired cm = Some (expired, cm)"
| "custody_reap_loop (k # ks) now expired cm =
     (case fmlookup (cm_pending cm) k of None \<Rightarrow> custody_reap_loop ks now expired cm
      | Some p \<Rightarrow>
        if pc_state p = CustodyOffered \<and> now - pc_offeredAt p > cm_timeout cm
        then case chan_close (cm_chans cm ! pc_ackCh p) of None \<Rightarrow> None
             | Some c \<Rightarrow> custody_reap_loop ks now (Suc expired)
                 (cm \<lparr> cm_chans := (cm_chans cm)[pc_ackCh p := c],
                        cm_pending := fmdrop k (cm_pending cm) \<rparr>)
        else custody_reap_loop ks now expired cm)"

definition custody_Reap :: "bytes list \<Rightarrow> instant \<Rightarrow> CustodyManager \<Rightarrow> (nat \<times> CustodyManager) option" where
  "custody_Reap order now cm = custody_reap_loop order now 0 cm"

definition awaiting :: "pendingCustody \<Rightarrow> bool" where
  "awaiting p \<longleftrightarrow> pc_state p = CustodyOffered"

definition custody_PendingCount :: "CustodyManager \<Rightarrow> nat" where
  "custody_PendingCount cm = fmcount_vals awaiting (cm_pending cm)"

definition custody_Clear :: "CustodyManager \<Rightarrow> CustodyManager" where
  "custody_Clear cm = cm \<lparr> cm_pending := fmdrop_vals (\<lambda>p. pc_state p \<noteq> CustodyOffered) (cm_pending cm) \<rparr>"

text \<open>The holder of a channel takes a value out of it.\<close>

definition chan_take :: "nat \<Rightarrow> CustodyManager \<Rightarrow> CustodyManager" where
  "chan_take i cm = cm \<lparr> cm_chans := (cm_chans cm)[i := (cm_chans cm ! i) \<lparr> ch_buf := tl (ch_buf (cm_chans cm ! i)) \<rparr>] \<rparr>"

definition NewCustodyID :: "bytes option \<Rightarrow> bytes option" where
  "NewCustodyID rnd = map_option uuid4_bits rnd"

definition CustodyState_String :: "CustodyState \<Rightarrow> string" where
  "CustodyState_String s = (case s of CustodyOffered \<Rightarrow> ''offered'' | CustodyAccepted \<Rightarrow> ''accepted''
     | CustodyExpired \<Rightarrow> ''expired'')"

section \<open>Packets\<close>

lemma Unmarshal_MarshalCustodyOffer:
  assumes "length (co_CustodyID o') = 16" "length (co_SourceHash o') = 16"
  shows "UnmarshalCustodyOffer (MarshalCustodyOffer o') = Inr o'"
  using assms
  by (simp add: UnmarshalCustodyOffer_def MarshalCustodyOffer_def custody_consts slice_append_skip slice_def)

lemma Unmarshal_MarshalCustodyACK:
  assumes "length (ca_CustodyID a) = 16" "length (ca_AcceptorHash a) = 16" "length (ca_Signature a) = 64"
  shows "UnmarshalCustodyACK (MarshalCustodyACK a @ rest) = Inr a"
  using assms
  by (simp add: UnmarshalCustodyACK_def MarshalCustodyACK_def custody_consts slice_append_skip slice_def)

section \<open>The manager\<close>

text \<open>The states a manager can be in: offers, acknowledgments, reapings in any visiting
  order, clearings, and receivers taking values out of their channels.\<close>

inductive custody_reachable :: "int \<Rightarrow> CustodyManager \<Rightarrow> bool" for timeout where
  custody_fresh: "custody_reachable timeout (NewCustodyManager timeout)"
| custody_register: "custody_reachable timeout cm \<Longrightarrow> custody_reachable timeout (snd (RegisterOffer now offer cm))"
| custody_ack: "custody_reachable timeout cm \<Longrightarrow> HandleACK ack cm = Some (b, cm') \<Longrightarrow> custody_reachable timeout cm'"
| custody_reap: "custody_reachable timeout cm \<Longrightarrow> distinct order \<Longrightarrow> set order = fset (fmdom (cm_pending cm)) \<Longrightarrow>
    custody_Reap order now cm = Some (n, cm') \<Longrightarrow> custody_reachable timeout cm'"
| custody_clear: "custody_reachable timeout cm \<Longrightarrow> custody_reachable timeout (custody_Clear cm)"
| custody_take: "custody_reachable timeout cm \<Longrightarrow> custody_reachable timeout (chan_take i cm)"

definition custody_inv :: "CustodyManager \<Rightarrow> bool" where
  "custody_inv cm \<longleftrightarrow>
     (\<forall>k p. fmlookup (cm_pending cm) k = Some p \<longrightarrow>
        pc_ackCh p < length (cm_chans cm) \<and> pc_state p \<noteq> CustodyExpired \<and>
        (pc_state p = CustodyOffered \<longrightarrow> cm_chans cm ! pc_ackCh p = \<lparr> ch_buf = [], ch_closed = False \<rparr>)) \<and>
     (\<forall>k p k' p'. fmlookup (cm_pending cm) k = Some p \<longrightarrow> fmlookup (cm_pending cm) k' = Some p' \<longrightarrow>
        pc_ackCh p = pc_ackCh p' \<longrightarrow> k = k')"

lemma custody_invD:
  assumes "custody_inv cm" "fmlookup (cm_pending cm) k = Some p"
  shows "pc_ackCh p < length (cm_chans cm)" "pc_state p \<noteq> CustodyExpired"
    "pc_state p = CustodyOffered \<Longrightarrow> cm_chans cm ! pc_ackCh p = \<lparr> ch_buf = [], ch_closed = False \<rparr>"
    "fmlookup (cm_pending cm) k' = Some p' \<Longrightarrow> pc_ackCh p = pc_ackCh p' \<Longrightarrow> k = k'"
  using assms unfolding custody_inv_def by blast+

lemma HandleACK_cases:
  assumes "custody_inv cm"
  shows "HandleACK ack cm =
    (case fmlookup (cm_pending cm) (ca_CustodyID ack) of
       Some p \<Rightarrow> if pc_state p = CustodyOffered
         then Some (True, cm \<lparr> cm_pending := fmupd (ca_CustodyID ack) (p \<lparr> pc_state := CustodyAccepted \<rparr>) (cm_pending cm),
                cm_chans := (cm_chans cm)[pc_ackCh p := \<lparr> ch_buf = [ack], ch_closed = True \<rparr>] \<rparr>)
         else Some (False, cm)
     | None \<Rightarrow> Some (False, cm))"
  using custody_invD [OF assms]
  by (auto simp: HandleACK_def chan_try_send_def chan_close_def Let_def split: option.splits)

lemma custody_inv_upd:
  assumes inv: "custody_inv cm" and p: "fmlookup (cm_pending cm) k = Some p"
    and cm': "cm_chans cm' = (cm_chans cm)[pc_ackCh p := c]"
      "\<And>j. j \<noteq> k \<Longrightarrow> fmlookup (cm_pending cm') j = fmlookup (cm_pending cm) j"
      "fmlookup (cm_pending cm') k = None \<or>
       fmlookup (cm_pending cm') k = Some (p \<lparr> pc_state := CustodyAccepted \<rparr>)"
  shows "custody_inv cm'"
proof -
  have ch: "cm_chans cm' ! pc_ackCh q = cm_chans cm ! pc_ackCh q"
    if "fmlookup (cm_pending cm) j = Some q" "j \<noteq> k" for j q
  proof -
    have "pc_ackCh p \<noteq> pc_ackCh q" using custody_invD(4) [OF inv that(1) p] that(2) by auto
    then show ?thesis by (simp add: cm'(1))
  qed
  have old: "\<exists>q0. fmlookup (cm_pending cm) j = Some q0 \<and> pc_ackCh q0 = pc_ackCh q \<and>
      (if j = k then pc_state q = CustodyAccepted else q0 = q)"
    if "fmlookup (cm_pending cm') j = Some q" for j q
    using that cm'(2,3) p by (cases "j = k") auto
  show ?thesis
    unfolding custody_inv_def
  proof (intro conjI allI impI)
    fix j q assume q: "fmlookup (cm_pending cm') j = Some q"
    from old [OF q] obtain q0 where q0: "fmlookup (cm_pending cm) j = Some q0" "pc_ackCh q0 = pc_ackCh q"
      "if j = k then pc_state q = CustodyAccepted else q0 = q" by blast
    note i = custody_invD [OF inv q0(1)]
    show "pc_ackCh q < length (cm_chans cm')" using i(1) q0(2) by (simp add: cm'(1))
    show "pc_state q \<noteq> CustodyExpired" using i(2) q0(3) by (auto split: if_splits)
    show "cm_chans cm' ! pc_ackCh q = \<lparr> ch_buf = [], ch_closed = False \<rparr>" if "pc_state q = CustodyOffered"
      using i(3) ch [OF q0(1)] q0(3) that by (auto split: if_splits)
    fix j' q' assume q': "fmlookup (cm_pending cm') j' = Some q'" "pc_ackCh q = pc_ackCh q'"
    then show "j = j'" using i(4) q0 old [OF q'(1)] by fastforce
  qed
qed

lemma custody_inv_sub:
  "custody_inv cm \<Longrightarrow> cm_chans cm' = cm_chans cm \<Longrightarrow>
   (\<And>k p. fmlookup (cm_pending cm') k = Some p \<Longrightarrow> fmlookup (cm_pending cm) k = Some p) \<Longrightarrow> custody_inv cm'"
  unfolding custody_inv_def by simp blast

lemma HandleACK_inv:
  assumes "custody_inv cm" "HandleACK ack cm = Some (b, cm')"
  shows "custody_inv cm'"
proof (cases b)
  case True
  then obtain p where p: "fmlookup (cm_pending cm) (ca_CustodyID ack) = Some p"
    and cm': "cm' = cm \<lparr> cm_pending := fmupd (ca_CustodyID ack) (p \<lparr> pc_state := CustodyAccepted \<rparr>) (cm_pending cm),
         cm_chans := (cm_chans cm)[pc_ackCh p := \<lparr> ch_buf = [ack], ch_closed = True \<rparr>] \<rparr>"
    using assms(2) by (auto simp: HandleACK_cases [OF assms(1)] split: option.splits if_splits)
  show ?thesis by (rule custody_inv_upd [OF assms(1) p]) (simp_all add: cm')
qed (use assms in \<open>auto simp: HandleACK_cases [OF assms(1)] split: option.splits if_splits\<close>)

definition custody_stale :: "instant \<Rightarrow> int \<Rightarrow> pendingCustody \<Rightarrow> bool" where
  "custody_stale now timeout p \<longleftrightarrow> pc_state p = CustodyOffered \<and> timeout < now - pc_offeredAt p"

text \<open>The loop of \<open>Reap\<close> over the keys \<open>ks\<close>: the stale ones among them leave the map,
  each of their channels is closed, nothing else changes.\<close>

definition reaped :: "bytes list \<Rightarrow> instant \<Rightarrow> CustodyManager \<Rightarrow> nat \<Rightarrow> CustodyManager \<Rightarrow> bool" where
  "reaped ks now cm n cm' \<longleftrightarrow> cm_timeout cm' = cm_timeout cm \<and>
     (\<forall>k. fmlookup (cm_pending cm') k = (case fmlookup (cm_pending cm) k of None \<Rightarrow> None
        | Some p \<Rightarrow> if k \<in> set ks \<and> custody_stale now (cm_timeout cm) p then None else Some p)) \<and>
     n + fmsize (cm_pending cm') = fmsize (cm_pending cm) \<and>
     length (cm_chans cm') = length (cm_chans cm) \<and>
     (\<forall>i < length (cm_chans cm). cm_chans cm' ! i =
        (if \<exists>k \<in> set ks. \<exists>p. fmlookup (cm_pending cm) k = Some p \<and> custody_stale now (cm_timeout cm) p \<and> pc_ackCh p = i
         then \<lparr> ch_buf = [], ch_closed = True \<rparr> else cm_chans cm ! i))"

lemma reap_loop:
  assumes "custody_inv cm" "distinct ks"
  shows "\<exists>n cm'. custody_reap_loop ks now m cm = Some (m + n, cm') \<and> custody_inv cm' \<and> reaped ks now cm n cm'"
  using assms
proof (induction ks arbitrary: m cm)
  case Nil
  then show ?case by (auto simp: reaped_def split: option.splits)
next
  case (Cons k ks)
  note inv = Cons.prems(1)
  show ?case
  proof (cases "\<exists>p. fmlookup (cm_pending cm) k = Some p \<and> custody_stale now (cm_timeout cm) p")
    case False
    then have skip: "custody_reap_loop (k # ks) now m cm = custody_reap_loop ks now m cm"
      by (auto simp: custody_stale_def split: option.splits)
    obtain n cm' where n: "custody_reap_loop ks now m cm = Some (m + n, cm')" "custody_inv cm'" "reaped ks now cm n cm'"
      using Cons.IH [OF inv] Cons.prems(2) by fastforce
    moreover have "reaped (k # ks) now cm n cm'" using n(3) False by (auto simp: reaped_def split: option.splits)
    ultimately show ?thesis unfolding skip by blast
  next
    case True
    then obtain p where p: "fmlookup (cm_pending cm) k = Some p" "custody_stale now (cm_timeout cm) p" by blast
    define cm1 where "cm1 = cm \<lparr> cm_chans := (cm_chans cm)[pc_ackCh p := \<lparr> ch_buf = [], ch_closed = True \<rparr>],
        cm_pending := fmdrop k (cm_pending cm) \<rparr>"
    have step: "custody_reap_loop (k # ks) now m cm = custody_reap_loop ks now (Suc m) cm1"
      using p custody_invD(3) [OF inv p(1)] by (simp add: custody_stale_def chan_close_def cm1_def)
    have inv1: "custody_inv cm1" by (rule custody_inv_upd [OF inv p(1)]) (simp_all add: cm1_def)
    obtain n cm' where n: "custody_reap_loop ks now (Suc m) cm1 = Some (Suc m + n, cm')" "custody_inv cm'"
      "reaped ks now cm1 n cm'"
      using Cons.IH [OF inv1] Cons.prems(2) by fastforce
    have c1: "cm_timeout cm1 = cm_timeout cm" "length (cm_chans cm1) = length (cm_chans cm)"
      "\<And>j. fmlookup (cm_pending cm1) j = (if j = k then None else fmlookup (cm_pending cm) j)"
      "Suc (fmsize (cm_pending cm1)) = fmsize (cm_pending cm)"
      using fmsize_drop_Suc [OF p(1)] by (simp_all add: cm1_def)
    have ch1: "cm_chans cm1 ! i = (if i = pc_ackCh p then \<lparr> ch_buf = [], ch_closed = True \<rparr> else cm_chans cm ! i)"
      if "i < length (cm_chans cm)" for i
      using that by (simp add: cm1_def)
    have "reaped (k # ks) now cm (Suc n) cm'"
      unfolding reaped_def
    proof (intro conjI allI impI)
      show "cm_timeout cm' = cm_timeout cm" "length (cm_chans cm') = length (cm_chans cm)"
        using n(3) c1 by (simp_all add: reaped_def)
      show "Suc n + fmsize (cm_pending cm') = fmsize (cm_pending cm)"
        using n(3) c1(4) by (simp add: reaped_def)
      show "fmlookup (cm_pending cm') j = (case fmlookup (cm_pending cm) j of None \<Rightarrow> None
          | Some q \<Rightarrow> if j \<in> set (k # ks) \<and> custody_stale now (cm_timeout cm) q then None else Some q)" for j
        using n(3) c1 p by (cases "j = k") (auto simp: reaped_def split: option.splits)
      fix i assume i: "i < length (cm_chans cm)"
      then have "cm_chans cm' ! i = (if \<exists>j \<in> set ks. \<exists>q. fmlookup (cm_pending cm1) j = Some q \<and>
          custody_stale now (cm_timeout cm) q \<and> pc_ackCh q = i
         then \<lparr> ch_buf = [], ch_closed = True \<rparr> else cm_chans cm1 ! i)"
        using n(3) c1(1,2) by (simp add: reaped_def)
      then show "cm_chans cm' ! i = (if \<exists>j \<in> set (k # ks). \<exists>q. fmlookup (cm_pending cm) j = Some q \<and>
          custody_stale now (cm_timeout cm) q \<and> pc_ackCh q = i
         then \<lparr> ch_buf = [], ch_closed = True \<rparr> else cm_chans cm ! i)"
        using ch1 [OF i] p Cons.prems(2) by (auto simp: c1(3))
    qed
    then show ?thesis unfolding step using n by (intro exI [of _ "Suc n"] exI [of _ cm']) simp
  qed
qed

lemma custody_reachable_inv: "custody_reachable timeout cm \<Longrightarrow> custody_inv cm \<and> cm_timeout cm = timeout"
proof (induction rule: custody_reachable.induct)
  case custody_fresh
  then show ?case by (simp add: custody_inv_def NewCustodyManager_def)
next
  case (custody_register cm now offer)
  then show ?case
    by (auto simp: custody_inv_def RegisterOffer_def Let_def nth_append less_Suc_eq
        split: if_splits) (metis less_irrefl)+
next
  case (custody_ack cm ack b cm')
  then show ?case using HandleACK_inv [of cm ack b cm']
    by (auto simp: HandleACK_def Let_def split: option.splits if_splits)
next
  case (custody_reap cm order now n cm')
  then show ?case using reap_loop [of cm order now 0]
    by (auto simp: custody_Reap_def reaped_def)
next
  case (custody_clear cm)
  have "custody_inv (custody_Clear cm)"
    by (rule custody_inv_sub [of cm])
      (use custody_clear.IH in \<open>auto simp: custody_Clear_def simp del: fmlookup_drop_vals dest: fmdrop_vals_SomeD\<close>)
  then show ?case using custody_clear.IH by (simp add: custody_Clear_def)
next
  case (custody_take cm i)
  have "cm_chans (chan_take i cm) ! j = cm_chans cm ! j"
    if "j < length (cm_chans cm)" "cm_chans cm ! j = \<lparr> ch_buf = [], ch_closed = False \<rparr>" for j
    using that by (cases "i = j") (simp_all add: chan_take_def)
  moreover have "cm_pending (chan_take i cm) = cm_pending cm" "cm_timeout (chan_take i cm) = cm_timeout cm"
    "length (cm_chans (chan_take i cm)) = length (cm_chans cm)" by (simp_all add: chan_take_def)
  ultimately show ?case using custody_take.IH unfolding custody_inv_def by simp
qed

section \<open>Properties\<close>

text \<open>C29: Custody packets survive the wire. An offer, and an acknowledgment followed by
  any trailing bytes, decode to exactly what was encoded and are told apart by their type
  byte; an acknowledgment signed with a private key verifies, after the trip, under the
  matching public key. Assumed of Ed25519: signatures are 64 bytes long and verify under
  the key pair.\<close>

theorem custody_wire:
  assumes "length (co_CustodyID offer) = 16" "length (co_SourceHash offer) = 16"
    and "length acceptor = 16"
    and "\<And>m. length (sign sk m) = 64" "\<And>m. verify pk m (sign sk m)"
  shows "UnmarshalCustodyOffer (MarshalCustodyOffer offer) = Inr offer \<and>
    IsCustodyOffer (MarshalCustodyOffer offer) \<and> \<not> IsCustodyACK (MarshalCustodyOffer offer) \<and>
    (let w = MarshalCustodyACK (SignCustodyACK sign (co_CustodyID offer) acceptor sk) @ rest
     in IsCustodyACK w \<and> \<not> IsCustodyOffer w \<and>
       (\<exists>ack. UnmarshalCustodyACK w = Inr ack \<and> ca_CustodyID ack = co_CustodyID offer \<and>
          ca_AcceptorHash ack = acceptor \<and> VerifyCustodyACK verify ack pk))"
proof -
  let ?a = "SignCustodyACK sign (co_CustodyID offer) acceptor sk"
  have "UnmarshalCustodyACK (MarshalCustodyACK ?a @ rest) = Inr ?a"
    by (rule Unmarshal_MarshalCustodyACK) (simp_all add: SignCustodyACK_def assms)
  moreover have "VerifyCustodyACK verify ?a pk"
    by (simp add: VerifyCustodyACK_def SignCustodyACK_def assms)
  ultimately show ?thesis
    using assms Unmarshal_MarshalCustodyOffer [of offer]
    by (simp add: IsCustodyOffer_def IsCustodyACK_def MarshalCustodyOffer_def MarshalCustodyACK_def
        SignCustodyACK_def custody_consts)
qed

theorem custody_wire_witness:
  "UnmarshalCustodyOffer (MarshalCustodyOffer
     \<lparr> co_CustodyID = replicate 16 1, co_SourceHash = replicate 16 2, co_DeliveryID = 3, co_Payload = [4, 5] \<rparr>) =
   Inr \<lparr> co_CustodyID = replicate 16 1, co_SourceHash = replicate 16 2, co_DeliveryID = 3, co_Payload = [4, 5] \<rparr>"
  using custody_wire [where offer = "\<lparr> co_CustodyID = replicate 16 1, co_SourceHash = replicate 16 2,
      co_DeliveryID = 3, co_Payload = [4, 5] \<rparr>" and acceptor = "replicate 16 9"
      and sign = "\<lambda>(sk::byte) m. replicate 64 (sk + foldr (+) m 0)" and sk = 7 and pk = 7
      and verify = "\<lambda>pk m s. s = replicate 64 (pk + foldr (+) m 0)"] by simp

lemma Reap_correct:
  fixes now :: instant
  assumes inv: "custody_inv cm" and o: "distinct order" "set order = fset (fmdom (cm_pending cm))"
  defines "stale \<equiv> custody_stale now (cm_timeout cm)"
  shows "\<exists>n cm'. custody_Reap order now cm = Some (n, cm') \<and> cm_pending cm' = fmdrop_vals stale (cm_pending cm) \<and>
    n = fmcount_vals stale (cm_pending cm) \<and>
    (\<forall>i < length (cm_chans cm). cm_chans cm' ! i =
      (if \<exists>k p. fmlookup (cm_pending cm) k = Some p \<and> stale p \<and> pc_ackCh p = i
       then \<lparr> ch_buf = [], ch_closed = True \<rparr> else cm_chans cm ! i))"
proof -
  obtain n cm' where r: "custody_Reap order now cm = Some (n, cm')" "reaped order now cm n cm'"
    using reap_loop [OF inv o(1), of now 0] by (auto simp: custody_Reap_def)
  have dom: "k \<in> set order \<longleftrightarrow> fmlookup (cm_pending cm) k \<noteq> None" for k
    by (auto simp: o(2) fmlookup_dom_iff)
  have pend: "cm_pending cm' = fmdrop_vals stale (cm_pending cm)"
  proof (rule fmap_ext)
    fix k
    show "fmlookup (cm_pending cm') k = fmlookup (fmdrop_vals stale (cm_pending cm)) k"
      using r(2) dom [of k] by (cases "fmlookup (cm_pending cm) k") (simp_all add: reaped_def fmlookup_drop_vals stale_def)
  qed
  moreover have "n = fmcount_vals stale (cm_pending cm)"
    using r(2) fmsize_drop_vals [of stale "cm_pending cm"] by (simp add: reaped_def pend)
  moreover have "cm_chans cm' ! i = (if \<exists>k p. fmlookup (cm_pending cm) k = Some p \<and> stale p \<and> pc_ackCh p = i
       then \<lparr> ch_buf = [], ch_closed = True \<rparr> else cm_chans cm ! i)" if "i < length (cm_chans cm)" for i
  proof -
    have "(\<exists>k p. fmlookup (cm_pending cm) k = Some p \<and> stale p \<and> pc_ackCh p = i) \<longleftrightarrow>
        (\<exists>k \<in> set order. \<exists>p. fmlookup (cm_pending cm) k = Some p \<and> stale p \<and> pc_ackCh p = i)"
      using dom by auto
    then show ?thesis using r(2) that by (simp only: reaped_def stale_def)
  qed
  ultimately show ?thesis using r(1) by blast
qed

lemma HandleACK_correct:
  assumes inv: "custody_inv cm"
  shows "\<exists>ok cm'. HandleACK ack cm = Some (ok, cm') \<and>
    (ok \<longleftrightarrow> (\<exists>p. fmlookup (cm_pending cm) (ca_CustodyID ack) = Some p \<and> awaiting p)) \<and>
    (\<forall>p. ok \<longrightarrow> fmlookup (cm_pending cm) (ca_CustodyID ack) = Some p \<longrightarrow>
       cm_chans cm' = (cm_chans cm)[pc_ackCh p := \<lparr> ch_buf = [ack], ch_closed = True \<rparr>] \<and> pc_ackCh p < length (cm_chans cm)) \<and>
    (\<forall>k. k \<noteq> ca_CustodyID ack \<longrightarrow> fmlookup (cm_pending cm') k = fmlookup (cm_pending cm) k) \<and>
    (\<forall>ack'. ca_CustodyID ack' = ca_CustodyID ack \<longrightarrow> HandleACK ack' cm' = Some (False, cm'))"
proof -
  obtain ok cm' where h: "HandleACK ack cm = Some (ok, cm')"
    using HandleACK_cases [OF inv, of ack] by (auto split: option.splits if_splits)
  have inv': "custody_inv cm'" using HandleACK_inv [OF inv h] .
  show ?thesis
    using h HandleACK_cases [OF inv, of ack] HandleACK_cases [OF inv'] custody_invD(1) [OF inv]
    by (auto simp: awaiting_def split: option.splits if_splits)
qed

text \<open>C14: In every state a custody manager can reach, no operation panics (no send on or
  close of a closed channel), in whatever order \<open>Reap\<close> visits the map.
  \<open>HandleACK\<close> reports success exactly when the offer is pending and still awaiting its
  acknowledgment; then the offer's channel holds exactly that acknowledgment and is closed,
  no other offer is touched, and a second acknowledgment of the same offer is refused.
  \<open>Reap\<close> removes exactly the awaiting offers older than the timeout, closes each of
  their channels with nothing in it, leaves every other channel alone, and returns their
  number.\<close>

theorem custody_manager_correct:
  assumes "custody_reachable timeout cm"
  shows "(\<exists>ok cm'. HandleACK ack cm = Some (ok, cm') \<and>
      (ok \<longleftrightarrow> (\<exists>p. fmlookup (cm_pending cm) (ca_CustodyID ack) = Some p \<and> awaiting p)) \<and>
      (\<forall>p. ok \<longrightarrow> fmlookup (cm_pending cm) (ca_CustodyID ack) = Some p \<longrightarrow>
         cm_chans cm' = (cm_chans cm)[pc_ackCh p := \<lparr> ch_buf = [ack], ch_closed = True \<rparr>] \<and>
         pc_ackCh p < length (cm_chans cm)) \<and>
      (\<forall>k. k \<noteq> ca_CustodyID ack \<longrightarrow> fmlookup (cm_pending cm') k = fmlookup (cm_pending cm) k) \<and>
      (\<forall>ack'. ca_CustodyID ack' = ca_CustodyID ack \<longrightarrow> HandleACK ack' cm' = Some (False, cm'))) \<and>
    (\<forall>order. distinct order \<longrightarrow> set order = fset (fmdom (cm_pending cm)) \<longrightarrow>
      (\<exists>n cm'. custody_Reap order now cm = Some (n, cm') \<and>
        cm_pending cm' = fmdrop_vals (custody_stale now timeout) (cm_pending cm) \<and>
        n = fmcount_vals (custody_stale now timeout) (cm_pending cm) \<and>
        (\<forall>i < length (cm_chans cm). cm_chans cm' ! i =
          (if \<exists>k p. fmlookup (cm_pending cm) k = Some p \<and> custody_stale now timeout p \<and> pc_ackCh p = i
           then \<lparr> ch_buf = [], ch_closed = True \<rparr> else cm_chans cm ! i))))"
  using custody_reachable_inv [OF assms] HandleACK_correct [of cm ack] Reap_correct [of cm _ now] by blast

theorem custody_manager_correct_witness:
  "\<exists>ok cm'. HandleACK \<lparr> ca_CustodyID = replicate 16 1, ca_AcceptorHash = replicate 16 2, ca_Signature = replicate 64 3 \<rparr>
     (snd (RegisterOffer 5 \<lparr> co_CustodyID = replicate 16 1, co_SourceHash = replicate 16 2, co_DeliveryID = 3, co_Payload = [4] \<rparr>
        (NewCustodyManager 30))) = Some (ok, cm') \<and> ok"
proof -
  let ?o = "\<lparr> co_CustodyID = replicate 16 1, co_SourceHash = replicate 16 2, co_DeliveryID = 3, co_Payload = [4] \<rparr>"
  let ?a = "\<lparr> ca_CustodyID = replicate 16 1, ca_AcceptorHash = replicate 16 2, ca_Signature = replicate 64 3 \<rparr>"
  let ?cm = "snd (RegisterOffer 5 ?o (NewCustodyManager 30))"
  have "\<exists>p. fmlookup (cm_pending ?cm) (ca_CustodyID ?a) = Some p \<and> awaiting p"
    by (simp add: RegisterOffer_def Let_def awaiting_def)
  then show ?thesis
    using conjunct1 [OF custody_manager_correct [OF custody_register [OF custody_fresh]], of ?a 5 ?o 30]
    by blast
qed

end
