(* ===== verification/Gf256.thy ===== *)
theory Gf256
  imports Prelude
begin

text \<open>
  Arithmetic in GF(256), \<open>src/internal/protocol/rlnc.go\<close>: the construction of the
  exponential and logarithm tables by \<open>initGFTables\<close>, and addition, multiplication and
  inversion by table lookup. The lemmas show that the tables are those of a generator of
  the multiplicative group, and from this the field laws that Gaussian elimination needs.
\<close>

section \<open>The tables\<close>

text \<open>One turn of the loop on its 16-bit accumulator: multiplication by the generator 3.\<close>

definition gf_next :: "16 word \<Rightarrow> 16 word" where
  "gf_next x = (let hi = push_bit 1 x; hi' = (if hi \<ge> 256 then hi XOR 0x11B else hi) in hi' XOR x)"

fun gf_fill :: "nat \<Rightarrow> nat \<Rightarrow> 16 word \<Rightarrow> bytes \<times> bytes \<Rightarrow> bytes \<times> bytes" where
  "gf_fill i 0 x t = t"
| "gf_fill i (Suc n) x (ex, lg) =
     gf_fill (Suc i) n (gf_next x) (ex[i := ucast x], lg[unat (ucast x :: byte) := of_nat i])"

definition gf_dup :: "bytes \<Rightarrow> bytes" where
  "gf_dup ex = fold (\<lambda>i ex. ex[i + 255 := ex ! i]) [0..<255] ex"

definition initGFTables :: "bytes \<times> bytes" where
  "initGFTables =
     (let (ex, lg) = gf_fill 0 255 1 (replicate 512 0, replicate 256 0) in (gf_dup ex, lg))"

definition gfExp :: bytes where "gfExp = fst initGFTables"
definition gfLog :: bytes where "gfLog = snd initGFTables"

definition GFAdd :: "byte \<Rightarrow> byte \<Rightarrow> byte" where
  "GFAdd a b = a XOR b"

definition GFMul :: "byte \<Rightarrow> byte \<Rightarrow> byte" where
  "GFMul a b = (if a = 0 \<or> b = 0 then 0 else gfExp ! (unat (gfLog ! unat a) + unat (gfLog ! unat b)))"

text \<open>\<open>None\<close> is the panic on zero.\<close>

definition GFInv :: "byte \<Rightarrow> byte option" where
  "GFInv a = (if a = 0 then None else Some (gfExp ! (255 - unat (gfLog ! unat a))))"

section \<open>Multiplication by the generator\<close>

text \<open>The same step on bytes, linear over exclusive or.\<close>

definition gf3 :: "byte \<Rightarrow> byte" where
  "gf3 b = push_bit 1 b XOR b XOR (if bit b 7 then 0x1B else 0)"

lemma gf3_xor: "gf3 (a XOR b) = gf3 a XOR gf3 b"
  by (rule bit_word_eqI) (auto simp: gf3_def bit_xor_iff push_bit_xor)

lemma gf3_0 [simp]: "gf3 0 = 0"
  by (simp add: gf3_def)

text \<open>The powers of the generator.\<close>

definition gf_powers :: bytes where
  "gf_powers = [
    1, 3, 5, 15, 17, 51, 85, 255, 26, 46, 114, 150, 161, 248, 19, 53, 95, 225, 56, 72, 216, 115,
    149, 164, 247, 2, 6, 10, 30, 34, 102, 170, 229, 52, 92, 228, 55, 89, 235, 38, 106, 190, 217,
    112, 144, 171, 230, 49, 83, 245, 4, 12, 20, 60, 68, 204, 79, 209, 104, 184, 211, 110, 178, 205,
    76, 212, 103, 169, 224, 59, 77, 215, 98, 166, 241, 8, 24, 40, 120, 136, 131, 158, 185, 208,
    107, 189, 220, 127, 129, 152, 179, 206, 73, 219, 118, 154, 181, 196, 87, 249, 16, 48, 80, 240,
    11, 29, 39, 105, 187, 214, 97, 163, 254, 25, 43, 125, 135, 146, 173, 236, 47, 113, 147, 174,
    233, 32, 96, 160, 251, 22, 58, 78, 210, 109, 183, 194, 93, 231, 50, 86, 250, 21, 63, 65, 195,
    94, 226, 61, 71, 201, 64, 192, 91, 237, 44, 116, 156, 191, 218, 117, 159, 186, 213, 100, 172,
    239, 42, 126, 130, 157, 188, 223, 122, 142, 137, 128, 155, 182, 193, 88, 232, 35, 101, 175,
    234, 37, 111, 177, 200, 67, 197, 84, 252, 31, 33, 99, 165, 244, 7, 9, 27, 45, 119, 153, 176,
    203, 70, 202, 69, 207, 74, 222, 121, 139, 134, 145, 168, 227, 62, 66, 198, 81, 243, 14, 18, 54,
    90, 238, 41, 123, 141, 140, 143, 138, 133, 148, 167, 242, 13, 23, 57, 75, 221, 124, 132, 151,
    162, 253, 28, 36, 108, 180, 199, 82, 246]"

lemma length_gf_powers: "length gf_powers = 255"
  by (simp add: gf_powers_def)

lemma gf_powers_step: "map gf3 gf_powers = tl gf_powers @ [1]"
  by code_simp

lemma gf_powers_once: "hd gf_powers = 1 \<and> 1 \<notin> set (tl gf_powers)"
  by code_simp

lemma gf_next_powers: "list_all (\<lambda>b. gf_next (ucast b) = ucast (gf3 b)) gf_powers"
  by code_simp

definition gf_pow :: "nat \<Rightarrow> byte" where
  "gf_pow i = (gf3 ^^ i) 1"

lemma gf_pow_Suc: "gf_pow (Suc i) = gf3 (gf_pow i)"
  by (simp add: gf_pow_def)

lemma gf_pow_table: "i < 255 \<Longrightarrow> gf_powers ! i = gf_pow i"
proof (induction i)
  case 0
  have "gf_powers \<noteq> []" using length_gf_powers by (metis list.size(3) zero_neq_numeral)
  then have "gf_powers ! 0 = hd gf_powers" by (metis hd_conv_nth)
  then show ?case using gf_powers_once by (simp add: gf_pow_def)
next
  case (Suc i)
  have "gf3 (gf_powers ! i) = (tl gf_powers @ [1]) ! i"
    using arg_cong [OF gf_powers_step, of "\<lambda>l. l ! i"] Suc.prems by (simp add: length_gf_powers)
  also have "\<dots> = gf_powers ! Suc i"
    using Suc.prems by (simp add: nth_append nth_tl length_gf_powers)
  finally show ?case using Suc by (simp add: gf_pow_Suc)
qed

lemma gf_pow_255: "gf_pow 255 = 1"
proof -
  have "gf3 (gf_powers ! 254) = (tl gf_powers @ [1]) ! 254"
    using arg_cong [OF gf_powers_step, of "\<lambda>l. l ! 254"] by (simp add: length_gf_powers)
  then show ?thesis
    using gf_pow_table [of 254] gf_pow_Suc [of 254] by (simp add: nth_append length_gf_powers)
qed

lemma gf_pow_0 [simp]: "gf_pow 0 = 1"
  by (simp add: gf_pow_def)

lemma gf_pow_add: "gf_pow (i + j) = (gf3 ^^ i) (gf_pow j)"
  by (simp add: gf_pow_def funpow_add)

lemma gf_pow_period: "gf_pow (i + 255 * k) = gf_pow i"
proof (induction k)
  case (Suc k)
  have "gf_pow (i + 255 * Suc k) = (gf3 ^^ (i + 255 * k)) (gf_pow 255)"
    using gf_pow_add [of "i + 255 * k" 255] by (simp add: algebra_simps)
  also have "\<dots> = gf_pow (i + 255 * k)" using gf_pow_255 by (simp add: gf_pow_def)
  finally show ?case using Suc by simp
qed simp

lemma gf_pow_mod: "gf_pow i = gf_pow (i mod 255)"
  using gf_pow_period [of "i mod 255" "i div 255"] by simp

lemma funpow_gf3_0 [simp]: "(gf3 ^^ n) 0 = 0"
  by (induction n) simp_all

lemma funpow_gf3_xor: "(gf3 ^^ n) (a XOR b) = (gf3 ^^ n) a XOR (gf3 ^^ n) b"
  by (induction n) (simp_all add: gf3_xor)

lemma gf_pow_nonzero [simp]: "gf_pow i \<noteq> 0"
proof
  assume "gf_pow i = 0"
  then have "gf_pow (i * 254 + i) = 0" unfolding gf_pow_add by simp
  moreover have "i * 254 + i = 0 + 255 * i" by simp
  ultimately show False using gf_pow_period [of 0 i] by (simp only: gf_pow_0) simp
qed

lemma gf_pow_one: "d < 255 \<Longrightarrow> gf_pow d = 1 \<Longrightarrow> d = 0"
proof (rule ccontr)
  assume d: "d < 255" "gf_pow d = 1" "d \<noteq> 0"
  then have "gf_powers ! d \<in> set (tl gf_powers)"
    using nth_mem [of "d - 1" "tl gf_powers"] by (simp add: nth_tl length_gf_powers)
  then show False using d gf_pow_table gf_powers_once by auto
qed

lemma gf_pow_inj:
  assumes "i < 255" "j < 255" "gf_pow i = gf_pow j"
  shows "i = j"
proof -
  have main: "a = b" if "a \<le> b" "b < 255" "gf_pow a = gf_pow b" for a b
  proof -
    have "gf_pow (255 - a + a) = gf_pow (255 - a + b)" unfolding gf_pow_add that(3) ..
    moreover have "255 - a + a = 255" "255 - a + b = (b - a) + 255 * 1" using that(1,2) by simp_all
    ultimately have "gf_pow (b - a) = 1" by (simp only: gf_pow_255 gf_pow_period)
    then show ?thesis using gf_pow_one [of "b - a"] that by linarith
  qed
  show ?thesis using main [of i j] main [of j i] assms by (cases "i \<le> j") auto
qed

lemma gf_pow_surj:
  assumes "b \<noteq> 0"
  obtains i where "i < 255" "gf_pow i = b"
proof -
  have inj: "inj_on gf_pow {..<255}" by (auto intro: inj_onI gf_pow_inj)
  have "card (gf_pow ` {..<255}) = 255" using card_image [OF inj] by simp
  moreover have "card (UNIV - {0 :: byte}) = 255" by (simp add: card_Diff_subset card_word)
  moreover have "gf_pow ` {..<255} \<subseteq> UNIV - {0}" by auto
  ultimately have "gf_pow ` {..<255} = UNIV - {0}" by (intro card_subset_eq) simp_all
  then have "b \<in> gf_pow ` {..<255}" using assms by blast
  then show thesis using that by blast
qed

section \<open>What the tables contain\<close>

lemma gf_next_pow: "i < 255 \<Longrightarrow> gf_next (ucast (gf_pow i)) = ucast (gf_pow (Suc i))"
  using gf_next_powers gf_pow_table [of i] unfolding list_all_length length_gf_powers gf_pow_Suc by metis

lemma ucast_down_byte: "ucast (ucast (b :: byte) :: 16 word) = b"
  by (rule bit_word_eqI) (simp add: bit_simps)

lemma gf_fill_tables:
  assumes "i + n \<le> 255" "length ex = 512" "length lg = 256"
    "gf_fill i n (ucast (gf_pow i)) (ex, lg) = (ex', lg')"
  shows "length ex' = 512 \<and> length lg' = 256 \<and>
    (\<forall>j. ex' ! j = (if i \<le> j \<and> j < i + n then gf_pow j else ex ! j)) \<and>
    (\<forall>j < 255. lg' ! unat (gf_pow j) = (if i \<le> j \<and> j < i + n then of_nat j else lg ! unat (gf_pow j)))"
  using assms
proof (induction n arbitrary: i ex lg)
  case (Suc n)
  let ?ex = "ex[i := gf_pow i]" and ?lg = "lg[unat (gf_pow i) := of_nat i]"
  have "gf_fill (Suc i) n (ucast (gf_pow (Suc i))) (?ex, ?lg) = (ex', lg')"
    using Suc.prems gf_next_pow [of i] by (simp add: ucast_down_byte)
  from Suc.IH [OF _ _ _ this] Suc.prems(1-3)
  have IH: "length ex' = 512" "length lg' = 256"
    "\<And>j. ex' ! j = (if Suc i \<le> j \<and> j < Suc i + n then gf_pow j else ?ex ! j)"
    "\<And>j. j < 255 \<Longrightarrow> lg' ! unat (gf_pow j) = (if Suc i \<le> j \<and> j < Suc i + n then of_nat j else ?lg ! unat (gf_pow j))"
    by simp_all
  have "unat (gf_pow j) < 256" for j using unat_byte_less .
  moreover have "?lg ! unat (gf_pow j) = lg ! unat (gf_pow j)" if "j < 255" "j \<noteq> i" for j
  proof -
    have "unat (gf_pow i) \<noteq> unat (gf_pow j)"
      using gf_pow_inj [of i j] that Suc.prems(1) by (auto simp: word_unat_eq_iff)
    then show ?thesis by simp
  qed
  moreover have "i \<le> j \<and> \<not> Suc i \<le> j \<longleftrightarrow> j = i" for j by auto
  ultimately show ?case
    using IH Suc.prems(1-3) by (auto simp: not_less_eq_eq dest: le_antisym)
qed auto

lemma gf_dup_spec:
  assumes "length ex = 512"
  shows "length (gf_dup ex) = 512" "j < 255 \<Longrightarrow> gf_dup ex ! j = ex ! j"
    "j < 255 \<Longrightarrow> gf_dup ex ! (j + 255) = ex ! j"
proof -
  have *: "length (fold (\<lambda>i ex. ex[i + 255 := ex ! i]) [0..<m] ex) = 512 \<and>
     (\<forall>j. j < 255 + m \<longrightarrow> fold (\<lambda>i ex. ex[i + 255 := ex ! i]) [0..<m] ex ! j = (if j < 255 then ex ! j else ex ! (j - 255)))"
    if "m \<le> 255" for m
    using that assms by (induction m) (auto simp: nth_list_update less_Suc_eq)
  show "length (gf_dup ex) = 512" "j < 255 \<Longrightarrow> gf_dup ex ! j = ex ! j"
    "j < 255 \<Longrightarrow> gf_dup ex ! (j + 255) = ex ! j"
    using * [of 255] unfolding gf_dup_def by simp_all
qed

lemma gf_tables:
  shows gfExp_nth: "j < 510 \<Longrightarrow> gfExp ! j = gf_pow j"
    and gfLog_nth: "i < 255 \<Longrightarrow> gfLog ! unat (gf_pow i) = of_nat i"
    and length_gf_tables: "length gfExp = 512 \<and> length gfLog = 256"
proof -
  obtain ex lg where f: "gf_fill 0 255 1 (replicate 512 0, replicate 256 0) = (ex, lg)" by fastforce
  have "gf_fill 0 255 (ucast (gf_pow 0)) (replicate 512 0, replicate 256 0) = (ex, lg)" using f by simp
  from gf_fill_tables [OF _ _ _ this]
  have t: "length ex = 512" "\<And>j. j < 255 \<Longrightarrow> ex ! j = gf_pow j"
    "\<And>j. j < 255 \<Longrightarrow> lg ! unat (gf_pow j) = of_nat j" "length lg = 256" by simp_all
  have tab: "gfExp = gf_dup ex" "gfLog = lg"
    using f by (simp_all add: gfExp_def gfLog_def initGFTables_def)
  show "length gfExp = 512 \<and> length gfLog = 256" using gf_dup_spec(1) [OF t(1)] t(4) by (simp add: tab)
  show "gfExp ! j = gf_pow j" if "j < 510"
    using that gf_dup_spec(2) [OF t(1), of j] gf_dup_spec(3) [OF t(1), of "j - 255"] t(2)
      gf_pow_period [of "j - 255" 1]
    by (cases "j < 255") (simp_all add: tab)
  show "gfLog ! unat (gf_pow i) = of_nat i" if "i < 255"
    using t(3) that by (simp add: tab)
qed

section \<open>The field laws\<close>

text \<open>Multiplication by a nonzero byte is a power of the generator step.\<close>

definition gf_log :: "byte \<Rightarrow> nat" where
  "gf_log a = unat (gfLog ! unat a)"

lemma gf_log_pow: "gf_log (gf_pow i) = i mod 255"
  using gfLog_nth [of "i mod 255"] gf_pow_mod [of i] by (simp add: gf_log_def unat_of_nat)

lemma gf_pow_log: "a \<noteq> 0 \<Longrightarrow> gf_pow (gf_log a) = a"
  using gf_log_pow by (metis gf_pow_surj mod_less)

lemma gf_log_less: "a \<noteq> 0 \<Longrightarrow> gf_log a < 255"
  using gf_log_pow by (metis gf_pow_surj mod_less)

lemma GFMul_pow: "a \<noteq> 0 \<Longrightarrow> GFMul a b = (gf3 ^^ gf_log a) b"
  using gf_log_less [of a] gf_log_less [of b] gf_pow_log [of b] gfExp_nth [of "gf_log a + gf_log b"]
  by (cases "b = 0") (simp_all add: GFMul_def gf_log_def [symmetric] gf_pow_add)

lemma GFMul_0 [simp]: "GFMul 0 b = 0" "GFMul a 0 = 0"
  by (simp_all add: GFMul_def)

lemma GFMul_commute: "GFMul a b = GFMul b a"
  by (auto simp: GFMul_def add.commute)

lemma GFMul_add_right: "GFMul a (GFAdd b c) = GFAdd (GFMul a b) (GFMul a c)"
  by (cases "a = 0") (simp_all add: GFMul_pow GFAdd_def funpow_gf3_xor)

lemma GFMul_add_left: "GFMul (GFAdd a b) c = GFAdd (GFMul a c) (GFMul b c)"
  by (metis GFMul_add_right GFMul_commute)

lemma GFMul_1 [simp]: "GFMul 1 b = b" "GFMul a 1 = a"
proof -
  have "gf_log 1 = 0" using gf_log_pow [of 0] by simp
  then show "GFMul 1 b = b" by (simp add: GFMul_pow)
  then show "GFMul a 1 = a" using \<open>gf_log 1 = 0\<close> by (subst GFMul_commute) (simp add: GFMul_pow)
qed

lemma GFMul_powers: "GFMul (gf_pow i) (gf_pow j) = gf_pow (i + j)"
proof -
  have "GFMul (gf_pow i) (gf_pow j) = gf_pow (i mod 255 + j)"
    by (simp add: GFMul_pow gf_log_pow gf_pow_add)
  also have "\<dots> = gf_pow (i + j)"
    unfolding gf_pow_mod [of "i mod 255 + j"] gf_pow_mod [of "i + j"] by (simp add: mod_add_left_eq)
  finally show ?thesis .
qed

lemma byte_pow_cases:
  obtains "a = 0" | i where "a = gf_pow i"
  using gf_pow_log by metis

lemma GFMul_nonzero: "a \<noteq> 0 \<Longrightarrow> b \<noteq> 0 \<Longrightarrow> GFMul a b \<noteq> 0"
  by (cases a rule: byte_pow_cases; cases b rule: byte_pow_cases) (simp_all add: GFMul_powers)

lemma GFMul_assoc: "GFMul (GFMul a b) c = GFMul a (GFMul b c)"
  by (cases a rule: byte_pow_cases; cases b rule: byte_pow_cases; cases c rule: byte_pow_cases)
    (simp_all add: GFMul_powers add.assoc)

lemma GFInv_mul:
  assumes "a \<noteq> 0"
  shows "\<exists>v. GFInv a = Some v \<and> GFMul a v = 1 \<and> v \<noteq> 0"
proof -
  have v: "GFInv a = Some (gf_pow (255 - gf_log a))"
    using assms gfExp_nth [of "255 - gf_log a"] by (simp add: GFInv_def gf_log_def)
  have "GFMul a (gf_pow (255 - gf_log a)) = gf_pow (gf_log a + (255 - gf_log a))"
    using GFMul_powers [of "gf_log a"] gf_pow_log [OF assms] by metis
  also have "gf_log a + (255 - gf_log a) = 255" using gf_log_less [OF assms] by simp
  finally show ?thesis using v gf_pow_255 by simp
qed

lemma GFAdd_self [simp]: "GFAdd a a = 0" "GFAdd a 0 = a" "GFAdd 0 a = a"
  by (simp_all add: GFAdd_def)

lemma GFAdd_eq_0_iff [simp]: "GFAdd a b = 0 \<longleftrightarrow> a = b"
proof
  assume "GFAdd a b = 0"
  moreover have "a = (a XOR b) XOR b" by (simp add: xor.assoc)
  ultimately show "a = b" by (simp add: GFAdd_def)
qed simp

interpretation gf: comm_monoid_set GFAdd 0
  by unfold_locales (simp_all add: GFAdd_def ac_simps)

interpretation gf_mul: comm_monoid GFMul 1
  by unfold_locales (simp_all add: GFMul_assoc, rule GFMul_commute)

section \<open>Properties\<close>

text \<open>The tables built by \<open>initGFTables\<close> make \<open>GFAdd\<close> and \<open>GFMul\<close> a field on the
  256 bytes: multiplication is associative, commutative, has 1 as its unit and no zero
  divisors, and distributes over addition; \<open>GFInv\<close> panics exactly on zero and otherwise
  returns the inverse. In every lookup the index is within the table.\<close>

theorem gf256_field:
  "GFMul (GFMul a b) c = GFMul a (GFMul b c) \<and> GFMul a b = GFMul b a \<and> GFMul 1 a = a \<and>
   GFMul a (GFAdd b c) = GFAdd (GFMul a b) (GFMul a c) \<and>
   (GFMul a b = 0 \<longleftrightarrow> a = 0 \<or> b = 0) \<and>
   (case GFInv a of None \<Rightarrow> a = 0 | Some v \<Rightarrow> a \<noteq> 0 \<and> GFMul a v = 1) \<and>
   length gfExp = 512 \<and> length gfLog = 256 \<and>
   (a \<noteq> 0 \<and> b \<noteq> 0 \<longrightarrow> unat (gfLog ! unat a) + unat (gfLog ! unat b) < 509)"
proof -
  have "case GFInv a of None \<Rightarrow> a = 0 | Some v \<Rightarrow> a \<noteq> 0 \<and> GFMul a v = 1"
    using GFInv_mul [of a] by (cases "a = 0") (auto simp: GFInv_def)
  moreover have "unat (gfLog ! unat a) + unat (gfLog ! unat b) < 509" if "a \<noteq> 0" "b \<noteq> 0"
    using gf_log_less [OF that(1)] gf_log_less [OF that(2)] by (simp add: gf_log_def)
  moreover have "GFMul a b = 0 \<longleftrightarrow> a = 0 \<or> b = 0" using GFMul_nonzero [of a b] by auto
  ultimately show ?thesis
    using GFMul_assoc GFMul_commute GFMul_add_right length_gf_tables by auto
qed

end
