(* ===== verification/Wire.thy ===== *)
theory Wire
  imports Prelude
begin

text \<open>
  Two's-complement wire fields, \<open>src/internal/wire/wire.go\<close>: the signed readings of
  unsigned fields and the saturating conversions. A signed machine integer is an
  \<open>int\<close> in its range.
\<close>

definition I32BE :: "bytes \<Rightarrow> int" where "I32BE b = sint (of_nat (be_val (take 4 b)) :: 32 word)"
definition I32LE :: "bytes \<Rightarrow> int" where "I32LE b = sint (of_nat (le_val (take 4 b)) :: 32 word)"
definition I16BE :: "bytes \<Rightarrow> int" where "I16BE b = sint (of_nat (be_val (take 2 b)) :: 16 word)"
definition I16LE :: "bytes \<Rightarrow> int" where "I16LE b = sint (of_nat (le_val (take 2 b)) :: 16 word)"
definition I8 :: "byte \<Rightarrow> int" where "I8 b = sint b"
definition U32 :: "int \<Rightarrow> 32 word" where "U32 v = of_int v"
definition U16 :: "int \<Rightarrow> 16 word" where "U16 v = of_int v"

definition ClampU8 :: "int \<Rightarrow> byte" where
  "ClampU8 v = (if v < 0 then 0 else if v > 255 then 255 else of_int v)"

definition ClampU16 :: "int \<Rightarrow> 16 word" where
  "ClampU16 v = (if v < 0 then 0 else if v > 65535 then 65535 else of_int v)"

lemma unat_of_int_bound: "0 \<le> v \<Longrightarrow> v < 2 ^ LENGTH('a) \<Longrightarrow> unat (of_int v :: 'a::len word) = nat v"
  by (metis nat_0_le of_int_of_nat_eq of_nat_inverse nat_less_iff of_nat_numeral of_nat_power)

lemma unat_ClampU8: "unat (ClampU8 v) = nat (max 0 (min 255 v))"
  using unat_of_int_bound [where 'a = 8, of v] by (auto simp: ClampU8_def)

lemma unat_ClampU16: "unat (ClampU16 v) = nat (max 0 (min 65535 v))"
  using unat_of_int_bound [where 'a = 16, of v] by (auto simp: ClampU16_def)

lemma sint_of_int_range:
  "- (2 ^ (LENGTH('a) - 1)) \<le> v \<Longrightarrow> v < 2 ^ (LENGTH('a) - 1) \<Longrightarrow> sint (of_int v :: 'a::len word) = v"
  by (simp add: sint_sbintrunc' signed_take_bit_int_eq_self)

end
