(* ===== verification/Rlnc.thy ===== *)
theory Rlnc
  imports Gf256 Wire
begin

text \<open>
  Random linear network coding, \<open>src/internal/protocol/rlnc.go\<close> (matrices and Gaussian
  elimination) and \<open>src/internal/protocol/rlnc_resource.go\<close> (coded packets and
  generations). A matrix is its row-major data, as in the code; the loops over rows and
  columns are folds. The random coefficient vectors are an argument of
  \<open>EncodeGeneration\<close>, and so is the packet count that the code computes from a
  floating-point redundancy.
\<close>

section \<open>Matrices and elimination\<close>

record GFMatrix =
  gm_Rows :: nat
  gm_Cols :: nat
  gm_Data :: bytes

definition NewGFMatrix :: "nat \<Rightarrow> nat \<Rightarrow> GFMatrix" where
  "NewGFMatrix rows cols = \<lparr> gm_Rows = rows, gm_Cols = cols, gm_Data = replicate (rows * cols) 0 \<rparr>"

definition GF_Get :: "GFMatrix \<Rightarrow> nat \<Rightarrow> nat \<Rightarrow> byte" where
  "GF_Get m row col = gm_Data m ! (row * gm_Cols m + col)"

definition GF_Set :: "nat \<Rightarrow> nat \<Rightarrow> byte \<Rightarrow> GFMatrix \<Rightarrow> GFMatrix" where
  "GF_Set row col v m = m \<lparr> gm_Data := (gm_Data m)[row * gm_Cols m + col := v] \<rparr>"

datatype rlnc_error =
    RankDeficientRows nat nat
  | RankDeficientColumn nat
  | PayloadCount nat nat
  | PayloadLength nat
  | GFInvPanic

definition find_pivot :: "GFMatrix \<Rightarrow> nat \<Rightarrow> nat \<Rightarrow> nat option" where
  "find_pivot mat n col = List.find (\<lambda>row. GF_Get mat row col \<noteq> 0) [col..<n]"

definition swap_rows :: "nat \<Rightarrow> nat \<Rightarrow> nat \<Rightarrow> GFMatrix \<Rightarrow> GFMatrix" where
  "swap_rows k col p mat =
     fold (\<lambda>c m. GF_Set p c (GF_Get m col c) (GF_Set col c (GF_Get m p c) m)) [0..<k] mat"

definition scale_row :: "nat \<Rightarrow> nat \<Rightarrow> byte \<Rightarrow> GFMatrix \<Rightarrow> GFMatrix" where
  "scale_row k col iv mat = fold (\<lambda>c m. GF_Set col c (GFMul (GF_Get m col c) iv) m) [0..<k] mat"

definition elim_row :: "nat \<Rightarrow> nat \<Rightarrow> byte \<Rightarrow> nat \<Rightarrow> GFMatrix \<Rightarrow> GFMatrix" where
  "elim_row k col factor row mat =
     fold (\<lambda>c m. GF_Set row c (GFAdd (GF_Get m row c) (GFMul factor (GF_Get m col c))) m) [0..<k] mat"

definition elim_step :: "nat \<Rightarrow> nat \<Rightarrow> nat \<Rightarrow> GFMatrix \<times> bytes list \<Rightarrow> GFMatrix \<times> bytes list" where
  "elim_step k col row s =
     (let (mat, pld) = s; factor = GF_Get mat row col
      in if row = col then s
         else if factor = 0 then s
         else (elim_row k col factor row mat,
               pld[row := map2 (\<lambda>a b. GFAdd a (GFMul factor b)) (pld ! row) (pld ! col)]))"

fun gauss_loop :: "nat \<Rightarrow> nat \<Rightarrow> nat \<Rightarrow> nat \<Rightarrow> GFMatrix \<times> bytes list \<Rightarrow> rlnc_error + GFMatrix \<times> bytes list" where
  "gauss_loop n k col 0 s = Inr s"
| "gauss_loop n k col (Suc todo) (mat, pld) =
     (case find_pivot mat n col of
        None \<Rightarrow> Inl (RankDeficientColumn col)
      | Some pivotRow \<Rightarrow>
        let mat1 = (if pivotRow \<noteq> col then swap_rows k col pivotRow mat else mat);
            pld1 = (if pivotRow \<noteq> col then pld[col := pld ! pivotRow, pivotRow := pld ! col] else pld)
        in case GFInv (GF_Get mat1 col col) of
             None \<Rightarrow> Inl GFInvPanic
           | Some iv \<Rightarrow>
             let mat2 = scale_row k col iv mat1;
                 pld2 = pld1[col := map (\<lambda>b. GFMul b iv) (pld1 ! col)]
             in gauss_loop n k (Suc col) todo (fold (elim_step k col) [0..<n] (mat2, pld2)))"

definition GaussianEliminate :: "GFMatrix \<Rightarrow> bytes list \<Rightarrow> rlnc_error + bytes list" where
  "GaussianEliminate coeffs payloads =
     (let n = gm_Rows coeffs; k = gm_Cols coeffs
      in if n < k then Inl (RankDeficientRows n k)
         else if length payloads \<noteq> n then Inl (PayloadCount (length payloads) n)
         else if k = 0 then Inr []
         else let payloadLen = length (payloads ! 0)
         in case List.find (\<lambda>i. length (payloads ! i) \<noteq> payloadLen) [1..<n] of
              Some i \<Rightarrow> Inl (PayloadLength i)
            | None \<Rightarrow>
              let mat = (NewGFMatrix n k) \<lparr> gm_Data := go_copy (replicate (n * k) 0) (gm_Data coeffs) \<rparr>;
                  pld = map (go_copy (replicate payloadLen 0)) payloads
              in case gauss_loop n k 0 k (mat, pld) of
                   Inl e \<Rightarrow> Inl e
                 | Inr (mat', pld') \<Rightarrow> Inr (map (\<lambda>i. pld' ! i) [0..<k]))"

section \<open>What the loops do to the entries\<close>

definition mat_ok :: "nat \<Rightarrow> nat \<Rightarrow> GFMatrix \<Rightarrow> bool" where
  "mat_ok n k m \<longleftrightarrow> gm_Rows m = n \<and> gm_Cols m = k \<and> length (gm_Data m) = n * k"

lemma flat_index_less: "r < n \<Longrightarrow> c < k \<Longrightarrow> r * k + c < n * (k :: nat)"
proof -
  assume "r < n" "c < k"
  then have "r * k + c < Suc r * k" "Suc r * k \<le> n * k" by (simp_all add: mult_le_mono1 Suc_leI del: mult_Suc) simp
  then show ?thesis by linarith
qed

lemma flat_index_inject:
  "c < k \<Longrightarrow> c' < k \<Longrightarrow> r * k + c = r' * k + (c' :: nat) \<longleftrightarrow> r = r' \<and> c = c'"
proof
  assume c: "c < k" "c' < k" and eq: "r * k + c = r' * k + c'"
  have "(r * k + c) div k = r" "(r' * k + c') div k = r'" using c by simp_all
  then have "r = r'" using eq by simp
  then show "r = r' \<and> c = c'" using eq by simp
qed simp

lemma mat_ok_Set [simp]: "mat_ok n k (GF_Set r c v m) = mat_ok n k m"
  by (simp add: mat_ok_def GF_Set_def)

lemma Get_Set:
  assumes "mat_ok n k m" "r < n" "c < k" "r' < n" "c' < k"
  shows "GF_Get (GF_Set r c v m) r' c' = (if r' = r \<and> c' = c then v else GF_Get m r' c')"
  using assms flat_index_less [of r n c k] flat_index_inject [of c k c' r r']
  by (auto simp: GF_Get_def GF_Set_def mat_ok_def nth_list_update)

lemma Get_fold_Set:
  assumes "mat_ok n k m0" "row < n" "j \<le> k"
    and local: "\<And>c m m'. c < k \<Longrightarrow> (\<And>r. r < n \<Longrightarrow> GF_Get m r c = GF_Get m' r c) \<Longrightarrow> g c m = g c m'"
  shows "mat_ok n k (fold (\<lambda>c m. GF_Set row c (g c m) m) [0..<j] m0) \<and>
    (\<forall>r < n. \<forall>c < k. GF_Get (fold (\<lambda>c m. GF_Set row c (g c m) m) [0..<j] m0) r c =
      (if r = row \<and> c < j then g c m0 else GF_Get m0 r c))"
  using assms(3)
proof (induction j)
  case (Suc j)
  let ?m = "fold (\<lambda>c m. GF_Set row c (g c m) m) [0..<j] m0"
  have ok: "mat_ok n k ?m" and get: "\<And>r c. r < n \<Longrightarrow> c < k \<Longrightarrow>
      GF_Get ?m r c = (if r = row \<and> c < j then g c m0 else GF_Get m0 r c)"
    using Suc by auto
  have "g j ?m = g j m0" using Suc.prems by (intro local) (auto simp: get)
  then show ?case
    using Get_Set [OF ok assms(2) Suc_le_lessD [OF Suc.prems]] ok get by (auto simp: less_Suc_eq)
qed (use assms in simp)

lemma Get_scale_row:
  assumes "mat_ok n k m" "col < n"
  shows "mat_ok n k (scale_row k col iv m)"
    "r < n \<Longrightarrow> c < k \<Longrightarrow> GF_Get (scale_row k col iv m) r c =
      (if r = col then GFMul (GF_Get m r c) iv else GF_Get m r c)"
  using Get_fold_Set [OF assms order_refl, where g = "\<lambda>c m. GFMul (GF_Get m col c) iv"] assms(2)
  by (auto simp: scale_row_def)

lemma Get_elim_row:
  assumes "mat_ok n k m" "col < n" "row < n"
  shows "mat_ok n k (elim_row k col f row m)"
    "r < n \<Longrightarrow> c < k \<Longrightarrow> GF_Get (elim_row k col f row m) r c =
      (if r = row then GFAdd (GF_Get m row c) (GFMul f (GF_Get m col c)) else GF_Get m r c)"
  using Get_fold_Set [OF assms(1,3) order_refl,
      where g = "\<lambda>c m. GFAdd (GF_Get m row c) (GFMul f (GF_Get m col c))"] assms(2,3)
  by (auto simp: elim_row_def)

lemma Get_swap_rows:
  assumes "mat_ok n k m" "col < n" "p < n" "p \<noteq> col"
  shows "mat_ok n k (swap_rows k col p m)"
    "r < n \<Longrightarrow> c < k \<Longrightarrow> GF_Get (swap_rows k col p m) r c =
      GF_Get m (if r = col then p else if r = p then col else r) c"
proof -
  let ?f = "\<lambda>c m. GF_Set p c (GF_Get m col c) (GF_Set col c (GF_Get m p c) m)"
  have "mat_ok n k (fold ?f [0..<j] m) \<and> (\<forall>r < n. \<forall>c < k. GF_Get (fold ?f [0..<j] m) r c =
      (if c < j then GF_Get m (if r = col then p else if r = p then col else r) c else GF_Get m r c))"
    if "j \<le> k" for j
    using that
  proof (induction j)
    case (Suc j)
    then show ?case using assms by (auto simp: Get_Set less_Suc_eq)
  qed (use assms in simp)
  from this [of k] show "mat_ok n k (swap_rows k col p m)"
    "r < n \<Longrightarrow> c < k \<Longrightarrow> GF_Get (swap_rows k col p m) r c =
      GF_Get m (if r = col then p else if r = p then col else r) c"
    by (auto simp: swap_rows_def)
qed

section \<open>Row operations on the augmented matrix\<close>

text \<open>Row \<open>r\<close> of \<open>[coeffs | payloads]\<close>: \<open>Inl c\<close> is a coefficient, \<open>Inr j\<close> a payload byte.\<close>

type_synonym aug = "nat \<Rightarrow> nat + nat \<Rightarrow> byte"

definition aug :: "GFMatrix \<Rightarrow> bytes list \<Rightarrow> aug" where
  "aug m pld r i = (case i of Inl c \<Rightarrow> GF_Get m r c | Inr j \<Rightarrow> pld ! r ! j)"

definition gs_ok :: "nat \<Rightarrow> nat \<Rightarrow> nat \<Rightarrow> GFMatrix \<times> bytes list \<Rightarrow> bool" where
  "gs_ok n k len s \<longleftrightarrow> mat_ok n k (fst s) \<and> length (snd s) = n \<and> (\<forall>r < n. length (snd s ! r) = len)"

text \<open>The entries in range, and equality on them.\<close>

definition ix :: "nat \<Rightarrow> nat \<Rightarrow> (nat + nat) set" where
  "ix k len = Inl ` {..<k} \<union> Inr ` {..<len}"

definition aug_eq :: "nat \<Rightarrow> nat \<Rightarrow> nat \<Rightarrow> aug \<Rightarrow> aug \<Rightarrow> bool" where
  "aug_eq n k len a b \<longleftrightarrow> (\<forall>r < n. \<forall>i \<in> ix k len. a r i = b r i)"

definition aug_swap :: "nat \<Rightarrow> nat \<Rightarrow> aug \<Rightarrow> aug" where
  "aug_swap col p a r = a (if r = col then p else if r = p then col else r)"

definition aug_scale :: "nat \<Rightarrow> byte \<Rightarrow> aug \<Rightarrow> aug" where
  "aug_scale col v a r i = (if r = col then GFMul (a r i) v else a r i)"

definition aug_elim :: "nat \<Rightarrow> aug \<Rightarrow> aug" where
  "aug_elim col a r i = (if r = col then a r i else GFAdd (a r i) (GFMul (a r (Inl col)) (a col i)))"

lemma aug_elim_row:
  assumes "gs_ok n k len (mat, pld)" "col < n" "row < n" "r < n" "i \<in> ix k len"
  shows "aug (elim_row k col f row mat)
      (pld[row := map2 (\<lambda>a b. GFAdd a (GFMul f b)) (pld ! row) (pld ! col)]) r i =
    (if r = row then GFAdd (aug mat pld row i) (GFMul f (aug mat pld col i)) else aug mat pld r i)"
  using assms by (auto simp: aug_def gs_ok_def ix_def Get_elim_row(2) [of n])

lemma gs_ok_elim_row:
  assumes "gs_ok n k len (mat, pld)" "col < n" "row < n"
  shows "gs_ok n k len (elim_row k col f row mat,
    pld[row := map2 (\<lambda>a b. GFAdd a (GFMul f b)) (pld ! row) (pld ! col)])"
  using assms Get_elim_row(1) by (auto simp: gs_ok_def nth_list_update)

lemma elim_fold:
  assumes "gs_ok n k len s" "col < n" "col < k" "m \<le> n"
  shows "gs_ok n k len (fold (elim_step k col) [0..<m] s) \<and>
    aug_eq n k len (case fold (elim_step k col) [0..<m] s of (mat, pld) \<Rightarrow> aug mat pld)
      (\<lambda>r i. if r < m then aug_elim col (aug (fst s) (snd s)) r i else aug (fst s) (snd s) r i)"
  using assms(4)
proof (induction m)
  case 0
  then show ?case using assms by (simp add: aug_eq_def case_prod_beta)
next
  case (Suc m)
  obtain mat pld where s: "fold (elim_step k col) [0..<m] s = (mat, pld)" by fastforce
  define a where "a = aug (fst s) (snd s)"
  have m: "m < n" using Suc.prems by simp
  have ok: "gs_ok n k len (mat, pld)"
    and eq: "\<And>r i. r < n \<Longrightarrow> i \<in> ix k len \<Longrightarrow> aug mat pld r i = (if r < m then aug_elim col a r i else a r i)"
    using Suc.IH m by (auto simp: s a_def aug_eq_def)
  have ci: "Inl col \<in> ix k len" using assms(3) by (simp add: ix_def)
  have fac: "GF_Get mat m col = a m (Inl col)"
    using eq [OF m ci] by (simp add: aug_def)
  have rowc: "aug mat pld col i = a col i" if "i \<in> ix k len" for i
    using eq [OF assms(2) that] by (simp add: aug_elim_def)
  show ?case
  proof (cases "m = col \<or> GF_Get mat m col = 0")
    case True
    then have "fold (elim_step k col) [0..<Suc m] s = (mat, pld)"
      by (auto simp: s elim_step_def)
    moreover have "aug_elim col a m i = a m i" if "i \<in> ix k len" for i
      using True fac by (auto simp: aug_elim_def)
    ultimately show ?thesis
      using ok eq by (auto simp: aug_eq_def a_def [symmetric] less_Suc_eq)
  next
    case False
    then have st: "fold (elim_step k col) [0..<Suc m] s = (elim_row k col (GF_Get mat m col) m mat,
        pld[m := map2 (\<lambda>x y. GFAdd x (GFMul (GF_Get mat m col) y)) (pld ! m) (pld ! col)])"
      by (simp add: s elim_step_def Let_def)
    have "aug (elim_row k col (GF_Get mat m col) m mat)
        (pld[m := map2 (\<lambda>x y. GFAdd x (GFMul (GF_Get mat m col) y)) (pld ! m) (pld ! col)]) r i =
      (if r < Suc m then aug_elim col a r i else a r i)" if "r < n" "i \<in> ix k len" for r i
      using aug_elim_row [OF ok assms(2) m that, of "GF_Get mat m col"] eq [OF that] eq [OF m that(2)]
        rowc [OF that(2)] fac False
      by (auto simp: aug_elim_def)
    then show ?thesis
      unfolding st using gs_ok_elim_row [OF ok assms(2) m]
      by (simp add: aug_eq_def a_def [symmetric])
  qed
qed

section \<open>Linear functionals of rows\<close>

definition gf_linear :: "(nat + nat) set \<Rightarrow> ((nat + nat \<Rightarrow> byte) \<Rightarrow> byte) \<Rightarrow> bool" where
  "gf_linear S \<phi> \<longleftrightarrow>
     (\<forall>f g. (\<forall>i \<in> S. f i = g i) \<longrightarrow> \<phi> f = \<phi> g) \<and>
     (\<forall>f q g. \<phi> (\<lambda>i. GFAdd (f i) (GFMul q (g i))) = GFAdd (\<phi> f) (GFMul q (\<phi> g))) \<and>
     (\<forall>f q. \<phi> (\<lambda>i. GFMul (f i) q) = GFMul (\<phi> f) q)"

definition annih :: "nat \<Rightarrow> ((nat + nat \<Rightarrow> byte) \<Rightarrow> byte) \<Rightarrow> aug \<Rightarrow> bool" where
  "annih n \<phi> a \<longleftrightarrow> (\<forall>r < n. \<phi> (a r) = 0)"

lemma annih_eq: "gf_linear (ix k len) \<phi> \<Longrightarrow> aug_eq n k len a b \<Longrightarrow> annih n \<phi> a = annih n \<phi> b"
  unfolding annih_def gf_linear_def aug_eq_def by metis

lemma annih_swap: "col < n \<Longrightarrow> p < n \<Longrightarrow> annih n \<phi> (aug_swap col p a) = annih n \<phi> a"
  unfolding annih_def aug_swap_def by (auto split: if_splits)

lemma annih_scale:
  assumes "gf_linear S \<phi>" "v \<noteq> 0"
  shows "annih n \<phi> (aug_scale col v a) = annih n \<phi> a"
proof -
  have "\<phi> (aug_scale col v a r) = (if r = col then GFMul (\<phi> (a r)) v else \<phi> (a r))" for r
  proof -
    have "aug_scale col v a r = (if r = col then (\<lambda>i. GFMul (a r i) v) else a r)"
      by (auto simp: aug_scale_def fun_eq_iff)
    then show ?thesis using assms(1) by (simp add: gf_linear_def)
  qed
  then show ?thesis using GFMul_nonzero assms(2) by (auto simp: annih_def)
qed

lemma annih_elim:
  assumes "gf_linear S \<phi>" "col < n"
  shows "annih n \<phi> (aug_elim col a) = annih n \<phi> a"
proof -
  have "\<phi> (aug_elim col a r) = (if r = col then \<phi> (a r) else GFAdd (\<phi> (a r)) (GFMul (a r (Inl col)) (\<phi> (a col))))" for r
  proof -
    have "aug_elim col a r = (if r = col then a r else (\<lambda>i. GFAdd (a r i) (GFMul (a r (Inl col)) (a col i))))"
      by (auto simp: aug_elim_def fun_eq_iff)
    then show ?thesis using assms(1) by (simp add: gf_linear_def)
  qed
  then show ?thesis using assms(2) unfolding annih_def by (metis GFAdd_self(2) GFMul_0(2))
qed

section \<open>One column of the elimination\<close>

text \<open>Columns below \<open>col\<close> are unit vectors.\<close>

definition reduced :: "nat \<Rightarrow> nat \<Rightarrow> aug \<Rightarrow> bool" where
  "reduced n col a \<longleftrightarrow> (\<forall>r < n. \<forall>c < col. a r (Inl c) = (if r = c then 1 else 0))"

definition col_step :: "nat \<Rightarrow> nat \<Rightarrow> byte \<Rightarrow> aug \<Rightarrow> aug" where
  "col_step col p v a = aug_elim col (aug_scale col v (aug_swap col p a))"

lemma reduced_col_step:
  assumes "reduced n col a" "col \<le> p" "p < n" "GFMul (a p (Inl col)) v = 1"
  shows "reduced n (Suc col) (col_step col p v a)"
proof -
  let ?b = "aug_scale col v (aug_swap col p a)"
  have b: "?b col (Inl col) = 1" "\<And>r c. r < n \<Longrightarrow> c < col \<Longrightarrow> ?b r (Inl c) = (if r = c then 1 else 0)"
    using assms by (auto simp: aug_scale_def aug_swap_def reduced_def)
  show ?thesis
    unfolding reduced_def col_step_def
  proof (intro allI impI)
    fix r c assume r: "r < n" "c < Suc col"
    have "col < n" using assms(2,3) by simp
    then show "aug_elim col ?b r (Inl c) = (if r = c then 1 else 0)"
      using r b(1) b(2) [of r c] b(2) [of col c]
      by (cases "c = col") (auto simp: aug_elim_def)
  qed
qed

lemma gauss_column:
  assumes ok: "gs_ok n k len (mat, pld)" and col: "col < k" "k \<le> n"
    and piv: "find_pivot mat n col = Some p"
  shows "\<exists>v s'. v \<noteq> 0 \<and> col \<le> p \<and> p < n \<and> GFMul (aug mat pld p (Inl col)) v = 1 \<and>
    gauss_loop n k col (Suc todo) (mat, pld) = gauss_loop n k (Suc col) todo s' \<and>
    gs_ok n k len s' \<and> aug_eq n k len (aug (fst s') (snd s')) (col_step col p v (aug mat pld))"
proof -
  have p: "col \<le> p" "p < n" "GF_Get mat p col \<noteq> 0"
    using piv by (auto simp: find_pivot_def find_Some_iff)
  have cn: "col < n" using col by simp
  define mat1 where "mat1 = (if p \<noteq> col then swap_rows k col p mat else mat)"
  define pld1 where "pld1 = (if p \<noteq> col then pld[col := pld ! p, p := pld ! col] else pld)"
  have m: "mat_ok n k mat" "length pld = n" "\<And>r. r < n \<Longrightarrow> length (pld ! r) = len"
    using ok by (auto simp: gs_ok_def)
  have get1: "GF_Get mat1 r c = GF_Get mat (if r = col then p else if r = p then col else r) c" if "r < n" "c < k" for r c
    using Get_swap_rows(2) [OF m(1) cn p(2) _ that] by (auto simp: mat1_def)
  have ok1: "gs_ok n k len (mat1, pld1)"
    using m p cn Get_swap_rows(1) [OF m(1) cn p(2)] by (auto simp: gs_ok_def mat1_def pld1_def nth_list_update)
  have a1: "aug mat1 pld1 r i = aug_swap col p (aug mat pld) r i" if "r < n" "i \<in> ix k len" for r i
    using that get1 m(2) p cn by (auto simp: aug_def aug_swap_def ix_def pld1_def nth_list_update)
  have nz: "GF_Get mat1 col col \<noteq> 0" using get1 [OF cn col(1)] p(3) by simp
  then obtain v where v: "GFInv (GF_Get mat1 col col) = Some v" "GFMul (GF_Get mat1 col col) v = 1" "v \<noteq> 0"
    using GFInv_mul by blast
  define mat2 where "mat2 = scale_row k col v mat1"
  define pld2 where "pld2 = pld1[col := map (\<lambda>b. GFMul b v) (pld1 ! col)]"
  have m1: "mat_ok n k mat1" "length pld1 = n" "\<And>r. r < n \<Longrightarrow> length (pld1 ! r) = len"
    using ok1 by (auto simp: gs_ok_def)
  have ok2: "gs_ok n k len (mat2, pld2)"
    using m1 Get_scale_row(1) [OF m1(1) cn] cn by (auto simp: gs_ok_def mat2_def pld2_def nth_list_update)
  have a2: "aug mat2 pld2 r i = aug_scale col v (aug_swap col p (aug mat pld)) r i" if "r < n" "i \<in> ix k len" for r i
    using that a1 [OF that] Get_scale_row(2) [OF m1(1) cn that(1)] m1(2,3) cn
    by (auto simp: aug_def aug_scale_def ix_def mat2_def pld2_def nth_list_update)
  define s' where "s' = fold (elim_step k col) [0..<n] (mat2, pld2)"
  have ok3: "gs_ok n k len s'" and a3: "aug_eq n k len (aug (fst s') (snd s')) (aug_elim col (aug mat2 pld2))"
    using elim_fold [OF ok2 cn col(1) order_refl]
    by (auto simp: s'_def aug_eq_def case_prod_beta)
  have "aug_eq n k len (aug (fst s') (snd s')) (col_step col p v (aug mat pld))"
    using a3 a2 cn col(1) by (auto simp: aug_eq_def col_step_def aug_elim_def ix_def)
  moreover have "gauss_loop n k col (Suc todo) (mat, pld) = gauss_loop n k (Suc col) todo s'"
    using piv v by (simp add: mat1_def [symmetric] pld1_def [symmetric] mat2_def pld2_def s'_def Let_def)
  moreover have "GFMul (aug mat pld p (Inl col)) v = 1"
    using v(2) get1 [OF cn col(1)] by (simp add: aug_def)
  ultimately show ?thesis using p ok3 v(3) by blast
qed

section \<open>The whole elimination\<close>

text \<open>The coefficients of a row applied to a vector, and the same plus one payload byte.\<close>

definition coeff_sum :: "nat \<Rightarrow> (nat \<Rightarrow> byte) \<Rightarrow> (nat + nat \<Rightarrow> byte) \<Rightarrow> byte" where
  "coeff_sum k v row = gf.F (\<lambda>c. GFMul (row (Inl c)) (v c)) {..<k}"

lemma gf_sum_scale: "GFMul (gf.F f {..<k}) q = gf.F (\<lambda>c. GFMul (f c) q) {..<(k :: nat)}"
  by (induction k) (simp_all add: lessThan_Suc GFMul_add_left)

lemma gf_linear_coeff_sum: "gf_linear (ix k len) (coeff_sum k v)"
proof -
  have "coeff_sum k v f = coeff_sum k v g" if "\<forall>i \<in> ix k len. f i = g i" for f g
    unfolding coeff_sum_def by (rule gf.cong) (use that in \<open>auto simp: ix_def\<close>)
  moreover have "coeff_sum k v (\<lambda>i. GFMul (f i) q) = GFMul (coeff_sum k v f) q" for f q
    unfolding coeff_sum_def gf_sum_scale by (simp add: GFMul_assoc GFMul_commute [of q])
  moreover have "coeff_sum k v (\<lambda>i. GFAdd (f i) (GFMul q (g i))) = GFAdd (coeff_sum k v f) (GFMul q (coeff_sum k v g))" for f q g
    unfolding coeff_sum_def GFMul_commute [of q] gf_sum_scale gf.distrib [symmetric]
    by (simp add: GFMul_add_left GFMul_assoc GFMul_commute [of q])
  ultimately show ?thesis by (simp add: gf_linear_def)
qed

lemma gf_linear_payload: "j < len \<Longrightarrow> gf_linear (ix k len) (\<lambda>row. GFAdd (coeff_sum k x row) (row (Inr j)))"
proof -
  assume j: "j < len"
  have lin: "\<And>f g. \<forall>i \<in> ix k len. f i = g i \<Longrightarrow> coeff_sum k x f = coeff_sum k x g"
    "\<And>f q g. coeff_sum k x (\<lambda>i. GFAdd (f i) (GFMul q (g i))) = GFAdd (coeff_sum k x f) (GFMul q (coeff_sum k x g))"
    "\<And>f q. coeff_sum k x (\<lambda>i. GFMul (f i) q) = GFMul (coeff_sum k x f) q"
    using gf_linear_coeff_sum [of k len x] unfolding gf_linear_def by blast+
  have "Inr j \<in> ix k len" using j by (simp add: ix_def)
  then have "GFAdd (coeff_sum k x f) (f (Inr j)) = GFAdd (coeff_sum k x g) (g (Inr j))"
    if "\<forall>i \<in> ix k len. f i = g i" for f g
    using lin(1) [OF that] that by simp
  then show ?thesis
    unfolding gf_linear_def using lin(2,3)
    by (auto simp: GFMul_add_left GFMul_add_right gf.assoc gf.left_commute)
qed

lemma coeff_sum_unit:
  assumes "i < k" "\<And>c. c < k \<Longrightarrow> row (Inl c) = (if i = c then 1 else 0)"
  shows "coeff_sum k v row = v i"
proof -
  have "coeff_sum k v row = gf.F (\<lambda>c. if i = c then v c else 0) {..<k}"
    unfolding coeff_sum_def by (rule gf.cong) (auto simp: assms(2))
  then show ?thesis using assms(1) by (simp add: gf.delta)
qed

text \<open>A column without a pivot yields a nonzero vector that all rows annihilate.\<close>

lemma no_pivot_kernel:
  assumes red: "reduced n col a" and col: "col < k" "k \<le> n"
    and none: "\<And>r. col \<le> r \<Longrightarrow> r < n \<Longrightarrow> a r (Inl col) = 0"
  shows "annih n (coeff_sum k (\<lambda>c. if c < col then a c (Inl col) else if c = col then 1 else 0)) a"
  unfolding annih_def
proof (intro allI impI)
  fix r assume r: "r < n"
  let ?v = "\<lambda>c. if c < col then a c (Inl col) else if c = col then 1 else 0"
  have "coeff_sum k ?v (a r) =
      gf.F (\<lambda>c. GFAdd (if c = r \<and> r < col then a r (Inl col) else 0) (if c = col then a r (Inl col) else 0)) {..<k}"
    unfolding coeff_sum_def
    by (rule gf.cong) (use red r in \<open>auto simp: reduced_def\<close>)
  also have "\<dots> = GFAdd (if r < col then a r (Inl col) else 0) (a r (Inl col))"
    using col by (simp add: gf.distrib gf.delta' conj_commute if_bool_eq_conj)
  also have "\<dots> = 0" using none [of r] r by auto
  finally show "coeff_sum k ?v (a r) = 0" .
qed

lemma gauss_loop_correct:
  assumes "gs_ok n k len s" "reduced n col (aug (fst s) (snd s))" "col + todo = k" "k \<le> n"
  shows "case gauss_loop n k col todo s of
      Inr s' \<Rightarrow> gs_ok n k len s' \<and> reduced n k (aug (fst s') (snd s')) \<and>
        (\<forall>\<phi>. gf_linear (ix k len) \<phi> \<longrightarrow> annih n \<phi> (aug (fst s) (snd s)) = annih n \<phi> (aug (fst s') (snd s')))
    | Inl e \<Rightarrow> (\<exists>c < k. e = RankDeficientColumn c) \<and>
        (\<exists>v. (\<exists>c < k. v c \<noteq> 0) \<and> annih n (coeff_sum k v) (aug (fst s) (snd s)))"
  using assms
proof (induction todo arbitrary: col s)
  case 0
  then show ?case by simp
next
  case (Suc todo)
  obtain mat pld where s: "s = (mat, pld)" by fastforce
  have col: "col < k" using Suc.prems(3) by simp
  show ?case
  proof (cases "find_pivot mat n col")
    case None
    then have "\<And>r. col \<le> r \<Longrightarrow> r < n \<Longrightarrow> aug mat pld r (Inl col) = 0"
      by (auto simp: find_pivot_def find_None_iff aug_def)
    with no_pivot_kernel [OF _ col Suc.prems(4)] Suc.prems(2)
    have ker: "annih n (coeff_sum k (\<lambda>c. if c < col then aug mat pld c (Inl col) else if c = col then 1 else 0)) (aug mat pld)"
      by (simp add: s)
    have "\<exists>v. (\<exists>c < k. v c \<noteq> 0) \<and> annih n (coeff_sum k v) (aug mat pld)"
      by (rule exI, rule conjI [OF _ ker], rule exI [of _ col]) (simp add: col)
    moreover have "gauss_loop n k col (Suc todo) s = Inl (RankDeficientColumn col)" by (simp add: s None)
    ultimately show ?thesis using col by (simp add: s del: gauss_loop.simps)
  next
    case (Some p)
    from gauss_column [OF Suc.prems(1) [unfolded s] col Suc.prems(4) Some, of todo]
    obtain v s' where v: "v \<noteq> 0" "col \<le> p" "p < n" "GFMul (aug mat pld p (Inl col)) v = 1"
      and step: "gauss_loop n k col (Suc todo) (mat, pld) = gauss_loop n k (Suc col) todo s'"
      and ok: "gs_ok n k len s'"
      and eq: "aug_eq n k len (aug (fst s') (snd s')) (col_step col p v (aug mat pld))" by blast
    have "reduced n (Suc col) (col_step col p v (aug mat pld))"
      using reduced_col_step [of n col "aug mat pld" p v] v Suc.prems(2) by (simp add: s)
    then have red: "reduced n (Suc col) (aug (fst s') (snd s'))"
      using eq col by (auto simp: reduced_def aug_eq_def ix_def)
    have an: "annih n \<phi> (aug mat pld) = annih n \<phi> (aug (fst s') (snd s'))" if "gf_linear (ix k len) \<phi>" for \<phi>
      using annih_eq [OF that eq] annih_elim [OF that] annih_scale [OF that v(1)] annih_swap [of col n p] v(2,3)
      by (simp add: col_step_def)
    show ?thesis
      using Suc.IH [OF ok red _ Suc.prems(4)] Suc.prems(3) step an gf_linear_coeff_sum
      by (auto simp: s split: sum.splits)
  qed
qed

section \<open>Decoding\<close>

text \<open>The payload rows are the products of the coefficient rows with the segments.\<close>

definition encodes :: "GFMatrix \<Rightarrow> bytes list \<Rightarrow> bytes list \<Rightarrow> bool" where
  "encodes coeffs segs payloads \<longleftrightarrow>
     (\<forall>r < gm_Rows coeffs. \<forall>j < length (payloads ! 0).
        payloads ! r ! j = gf.F (\<lambda>c. GFMul (GF_Get coeffs r c) (segs ! c ! j)) {..<gm_Cols coeffs})"

text \<open>The columns are linearly dependent: a nonzero combination of them vanishes.\<close>

definition dependent :: "GFMatrix \<Rightarrow> bool" where
  "dependent coeffs \<longleftrightarrow> (\<exists>v. (\<exists>c < gm_Cols coeffs. v c \<noteq> 0) \<and>
     (\<forall>r < gm_Rows coeffs. gf.F (\<lambda>c. GFMul (GF_Get coeffs r c) (v c)) {..<gm_Cols coeffs} = 0))"

lemma GaussianEliminate_correct:
  assumes dim: "mat_ok n k coeffs" "0 < k" "k \<le> n" "length payloads = n" "\<And>r. r < n \<Longrightarrow> length (payloads ! r) = len"
  shows "dependent coeffs \<Longrightarrow> \<exists>c < k. GaussianEliminate coeffs payloads = Inl (RankDeficientColumn c)"
    and "\<not> dependent coeffs \<Longrightarrow> \<exists>out. GaussianEliminate coeffs payloads = Inr out"
    and "\<not> dependent coeffs \<Longrightarrow> length segs = k \<Longrightarrow> \<forall>s \<in> set segs. length s = len \<Longrightarrow>
      encodes coeffs segs payloads \<Longrightarrow> GaussianEliminate coeffs payloads = Inr segs"
proof -
  have nk: "gm_Rows coeffs = n" "gm_Cols coeffs = k" "length (gm_Data coeffs) = n * k"
    using dim(1) by (simp_all add: mat_ok_def)
  have len0: "length (payloads ! 0) = len" using dim by simp
  have nofind: "List.find (\<lambda>i. length (payloads ! i) \<noteq> length (payloads ! 0)) [1..<n] = None"
    using dim(5) len0 by (auto simp: find_None_iff)
  have mat: "(NewGFMatrix n k) \<lparr> gm_Data := go_copy (replicate (n * k) 0) (gm_Data coeffs) \<rparr> = coeffs"
    using nk by (simp add: NewGFMatrix_def)
  have pld: "map (go_copy (replicate (length (payloads ! 0)) 0)) payloads = payloads"
    using dim(4,5) len0 by (intro nth_equalityI) simp_all
  have run: "GaussianEliminate coeffs payloads = (case gauss_loop n k 0 k (coeffs, payloads) of
      Inl e \<Rightarrow> Inl e | Inr (mat', pld') \<Rightarrow> Inr (map (\<lambda>i. pld' ! i) [0..<k]))"
    unfolding GaussianEliminate_def Let_def nk nofind option.case mat pld using dim by simp
  let ?a = "aug coeffs payloads"
  have ok: "gs_ok n k len (coeffs, payloads)" using dim by (simp add: gs_ok_def)
  have ker: "annih n (coeff_sum k v) ?a \<longleftrightarrow>
      (\<forall>r < n. gf.F (\<lambda>c. GFMul (GF_Get coeffs r c) (v c)) {..<k} = 0)" for v
    by (simp add: annih_def coeff_sum_def aug_def)
  note main = gauss_loop_correct [OF ok _ _ dim(3), of 0 k]
  have indep: "\<not> dependent coeffs" if "gauss_loop n k 0 k (coeffs, payloads) = Inr s'" for s'
  proof
    assume "dependent coeffs"
    then obtain v c where v: "c < k" "v c \<noteq> 0" "annih n (coeff_sum k v) ?a"
      by (auto simp: dependent_def nk ker)
    have "annih n (coeff_sum k v) (aug (fst s') (snd s'))" "reduced n k (aug (fst s') (snd s'))"
      using main that v(3) gf_linear_coeff_sum [of k len v] by (auto simp: reduced_def)
    then have "v c = 0"
      using coeff_sum_unit [of c k "aug (fst s') (snd s') c" v] v(1) dim(3) by (auto simp: annih_def reduced_def)
    then show False using v(2) by simp
  qed
  show "\<exists>c < k. GaussianEliminate coeffs payloads = Inl (RankDeficientColumn c)" if "dependent coeffs"
    using main indep that by (auto simp: run reduced_def split: sum.splits)
  have solved: "\<exists>s'. gauss_loop n k 0 k (coeffs, payloads) = Inr s'" if "\<not> dependent coeffs"
    using main that ker unfolding dependent_def nk by (auto simp: reduced_def split: sum.splits)
  then show "\<exists>out. GaussianEliminate coeffs payloads = Inr out" if "\<not> dependent coeffs"
    using that by (fastforce simp: run)
  show "GaussianEliminate coeffs payloads = Inr segs"
    if "\<not> dependent coeffs" "length segs = k" "\<forall>s \<in> set segs. length s = len" "encodes coeffs segs payloads"
  proof -
    have "\<exists>mat' pld'. gauss_loop n k 0 k (coeffs, payloads) = Inr (mat', pld')"
      using solved [OF that(1)] by fastforce
    then obtain mat' pld' where s': "gauss_loop n k 0 k (coeffs, payloads) = Inr (mat', pld')" by blast
    have ok': "gs_ok n k len (mat', pld')" and red: "reduced n k (aug mat' pld')"
      and an: "\<And>\<phi>. gf_linear (ix k len) \<phi> \<Longrightarrow> annih n \<phi> ?a = annih n \<phi> (aug mat' pld')"
      using main s' by (auto simp: reduced_def)
    have byte: "pld' ! r ! j = segs ! r ! j" if r: "r < k" and j: "j < len" for r j
    proof -
      let ?\<phi> = "\<lambda>row. GFAdd (coeff_sum k (\<lambda>c. segs ! c ! j) row) (row (Inr j))"
      have "annih n ?\<phi> ?a"
        using \<open>encodes coeffs segs payloads\<close> j len0
        by (simp add: annih_def encodes_def nk coeff_sum_def aug_def)
      then have "annih n ?\<phi> (aug mat' pld')" using an [OF gf_linear_payload [OF j]] by blast
      then have "coeff_sum k (\<lambda>c. segs ! c ! j) (aug mat' pld' r) = aug mat' pld' r (Inr j)"
        using r dim(3) by (simp add: annih_def)
      moreover have "coeff_sum k (\<lambda>c. segs ! c ! j) (aug mat' pld' r) = segs ! r ! j"
        using coeff_sum_unit [OF r, of "aug mat' pld' r"] red r dim(3) by (simp add: reduced_def)
      ultimately show ?thesis by (simp add: aug_def)
    qed
    have "map (\<lambda>i. pld' ! i) [0..<k] = segs"
      using that(2,3) byte ok' dim(3) by (intro nth_equalityI) (auto intro!: nth_equalityI simp: gs_ok_def)
    then show ?thesis by (simp add: run s')
  qed
qed

section \<open>Coded packets and generations\<close>

definition RLNCVersion :: byte where "RLNCVersion = 0x01"
definition rlncHashLen :: nat where "rlncHashLen = 32"
definition rlncFixedHdrLen :: nat where "rlncFixedHdrLen = rlncHashLen + 1 + 2 + 1"
definition rlncMinPacketLen :: nat where "rlncMinPacketLen = rlncFixedHdrLen + 1 + 1"

lemmas rlnc_consts = RLNCVersion_def rlncHashLen_def rlncFixedHdrLen_def rlncMinPacketLen_def

record RLNCCodedPacket =
  rp_ResourceHash :: bytes
  rp_Version :: byte
  rp_GenerationID :: "16 word"
  rp_K :: byte
  rp_Coefficients :: bytes
  rp_Payload :: bytes

datatype packet_error = RLNCPacketTooShort nat | RLNCBadVersion byte | RLNCBadK

definition MarshalRLNCPacket :: "RLNCCodedPacket \<Rightarrow> bytes" where
  "MarshalRLNCPacket pkt =
     (let k = unat (rp_K pkt)
      in rp_ResourceHash pkt @ [rp_Version pkt] @ put_u16_le (rp_GenerationID pkt) @ [rp_K pkt] @
         take k (go_copy (replicate (k + length (rp_Payload pkt)) 0) (rp_Coefficients pkt)) @ rp_Payload pkt)"

definition UnmarshalRLNCPacket :: "bytes \<Rightarrow> packet_error + RLNCCodedPacket" where
  "UnmarshalRLNCPacket data =
     (if length data < rlncMinPacketLen then Inl (RLNCPacketTooShort (length data))
      else let version = data ! rlncHashLen in
      if version \<noteq> RLNCVersion then Inl (RLNCBadVersion version)
      else let kb = data ! (rlncHashLen + 3) in
      if kb = 0 then Inl RLNCBadK
      else let coeffEnd = rlncFixedHdrLen + unat kb in
      if length data < coeffEnd + 1 then Inl (RLNCPacketTooShort (length data))
      else Inr \<lparr> rp_ResourceHash = take rlncHashLen data, rp_Version = version,
                 rp_GenerationID = get_u16_le (slice (rlncHashLen + 1) (rlncHashLen + 3) data),
                 rp_K = kb, rp_Coefficients = slice rlncFixedHdrLen coeffEnd data,
                 rp_Payload = drop coeffEnd data \<rparr>)"

record RLNCGeneration =
  rg_ID :: "16 word"
  rg_K :: nat
  rg_PayloadSize :: nat
  rg_Received :: "RLNCCodedPacket list"
  rg_Decoded :: bool
  rg_DecodedData :: "bytes list"

definition NewRLNCGeneration :: "16 word \<Rightarrow> nat \<Rightarrow> nat \<Rightarrow> RLNCGeneration" where
  "NewRLNCGeneration gid k payloadSize =
     \<lparr> rg_ID = gid, rg_K = k, rg_PayloadSize = payloadSize, rg_Received = [], rg_Decoded = False, rg_DecodedData = [] \<rparr>"

definition AddPacket :: "RLNCCodedPacket \<Rightarrow> RLNCGeneration \<Rightarrow> bool \<times> RLNCGeneration" where
  "AddPacket pkt g =
     (if rg_Decoded g then (True, g)
      else let g' = g \<lparr> rg_Received := rg_Received g @ [pkt] \<rparr> in (length (rg_Received g') \<ge> rg_K g', g'))"

datatype decode_error = NotEnoughPackets nat nat | RLNCNotDecodable rlnc_error | CoefficientIndexPanic

definition coeff_row :: "nat \<Rightarrow> nat \<Rightarrow> bytes \<Rightarrow> GFMatrix \<Rightarrow> GFMatrix" where
  "coeff_row k i cs m = fold (\<lambda>j m. GF_Set i j (cs ! j) m) [0..<k] m"

definition coeff_matrix :: "nat \<Rightarrow> RLNCCodedPacket list \<Rightarrow> GFMatrix" where
  "coeff_matrix k pkts =
     fold (\<lambda>i m. coeff_row k i (rp_Coefficients (pkts ! i)) m) [0..<length pkts] (NewGFMatrix (length pkts) k)"

definition TryDecode :: "RLNCGeneration \<Rightarrow> (decode_error + bytes list) \<times> RLNCGeneration" where
  "TryDecode g =
     (if rg_Decoded g then (Inr (rg_DecodedData g), g)
      else if length (rg_Received g) < rg_K g
      then (Inl (NotEnoughPackets (length (rg_Received g)) (rg_K g)), g)
      else if \<exists>pkt \<in> set (rg_Received g). length (rp_Coefficients pkt) < rg_K g
      then (Inl CoefficientIndexPanic, g)
      else case GaussianEliminate (coeff_matrix (rg_K g) (rg_Received g)) (map rp_Payload (rg_Received g)) of
             Inl e \<Rightarrow> (Inl (RLNCNotDecodable e), g)
           | Inr decoded \<Rightarrow> (Inr decoded, g \<lparr> rg_Decoded := True, rg_DecodedData := decoded \<rparr>))"

definition rlnc_combine :: "bytes \<Rightarrow> nat \<Rightarrow> bytes list \<Rightarrow> bytes" where
  "rlnc_combine cs payloadSize padded =
     fold (\<lambda>j payload. if cs ! j = 0 then payload
             else map2 (\<lambda>p s. GFAdd p (GFMul (cs ! j) s)) payload (padded ! j))
       [0..<length padded] (replicate payloadSize 0)"

definition rlnc_padded :: "bytes list \<Rightarrow> bytes list" where
  "rlnc_padded segments =
     (let payloadSize = fold (\<lambda>seg m. if length seg > m then length seg else m) segments 0
      in map (go_copy (replicate payloadSize 0)) segments)"

text \<open>\<open>rnd i\<close> is what \<open>randBytes\<close> puts into the coefficients of packet \<open>i\<close>, and
  \<open>n0\<close> the value of \<open>int(float64(k)*redundancy + 0.999999)\<close>.\<close>

definition EncodeGeneration ::
  "(nat \<Rightarrow> bytes) \<Rightarrow> int \<Rightarrow> 16 word \<Rightarrow> bytes \<Rightarrow> bytes list \<Rightarrow> RLNCCodedPacket list" where
  "EncodeGeneration rnd n0 genID resourceHash segments =
     (let k = length segments
      in if k = 0 then []
         else let payloadSize = fold (\<lambda>seg m. if length seg > m then length seg else m) segments 0;
                  padded = rlnc_padded segments;
                  n = (if n0 < int k then k else nat n0)
              in map (\<lambda>i. let c0 = rnd i;
                             cs = (if \<forall>c \<in> set c0. c = 0 then c0[0 := 1] else c0)
                         in \<lparr> rp_ResourceHash = resourceHash, rp_Version = RLNCVersion, rp_GenerationID = genID,
                              rp_K = ClampU8 (int k), rp_Coefficients = cs,
                              rp_Payload = rlnc_combine cs payloadSize padded \<rparr>) [0..<n])"

lemma Unmarshal_MarshalRLNC:
  assumes "length (rp_ResourceHash pkt) = 32" "rp_Version pkt = RLNCVersion" "rp_K pkt \<noteq> 0"
    "length (rp_Coefficients pkt) = unat (rp_K pkt)" "rp_Payload pkt \<noteq> []"
  shows "UnmarshalRLNCPacket (MarshalRLNCPacket pkt) = Inr pkt"
proof -
  have k: "0 < unat (rp_K pkt)" using assms(3) by (simp add: unat_gt_0)
  have p: "0 < length (rp_Payload pkt)" using assms(5) by simp
  have cs: "take (unat (rp_K pkt)) (go_copy (replicate (unat (rp_K pkt) + length (rp_Payload pkt)) 0) (rp_Coefficients pkt)) =
      rp_Coefficients pkt"
    using assms(4) by (simp add: go_copy_def)
  have "\<not> unat (rp_K pkt) + length (rp_Payload pkt) < 2" using k p by linarith
  then show ?thesis
    unfolding UnmarshalRLNCPacket_def MarshalRLNCPacket_def Let_def cs
    using assms k
    by (simp add: rlnc_consts nth_append slice_append_skip slice_def drop_Cons')
qed

lemma Get_coeff_row:
  assumes "mat_ok n k m" "i < n"
  shows "mat_ok n k (coeff_row k i cs m)"
    "r < n \<Longrightarrow> c < k \<Longrightarrow> GF_Get (coeff_row k i cs m) r c = (if r = i then cs ! c else GF_Get m r c)"
  using Get_fold_Set [OF assms order_refl, where g = "\<lambda>c m. cs ! c"] by (auto simp: coeff_row_def)

lemma Get_coeff_matrix:
  "mat_ok (length pkts) k (coeff_matrix k pkts)"
  "r < length pkts \<Longrightarrow> c < k \<Longrightarrow> GF_Get (coeff_matrix k pkts) r c = rp_Coefficients (pkts ! r) ! c"
proof -
  let ?n = "length pkts"
  let ?f = "\<lambda>i m. coeff_row k i (rp_Coefficients (pkts ! i)) m"
  have "mat_ok ?n k (fold ?f [0..<j] (NewGFMatrix ?n k)) \<and>
     (\<forall>r < j. \<forall>c < k. GF_Get (fold ?f [0..<j] (NewGFMatrix ?n k)) r c = rp_Coefficients (pkts ! r) ! c)"
    if "j \<le> ?n" for j
    using that
  proof (induction j)
    case 0
    then show ?case by (simp add: mat_ok_def NewGFMatrix_def)
  next
    case (Suc j)
    let ?m = "fold ?f [0..<j] (NewGFMatrix ?n k)"
    have ok: "mat_ok ?n k ?m" and j: "j < ?n" using Suc by auto
    show ?case
      using Get_coeff_row [OF ok j] Suc j by (auto simp: less_Suc_eq)
  qed
  from this [of ?n] show "mat_ok (length pkts) k (coeff_matrix k pkts)"
    "r < length pkts \<Longrightarrow> c < k \<Longrightarrow> GF_Get (coeff_matrix k pkts) r c = rp_Coefficients (pkts ! r) ! c"
    by (auto simp: coeff_matrix_def)
qed

lemma rlnc_combine_sum:
  assumes "\<And>s. s \<in> set padded \<Longrightarrow> length s = len"
  shows "length (rlnc_combine cs len padded) = len \<and>
    (\<forall>b < len. rlnc_combine cs len padded ! b = gf.F (\<lambda>j. GFMul (cs ! j) (padded ! j ! b)) {..<length padded})"
proof -
  let ?f = "\<lambda>j payload. if cs ! j = 0 then payload else map2 (\<lambda>p s. GFAdd p (GFMul (cs ! j) s)) payload (padded ! j)"
  have "length (fold ?f [0..<m] (replicate len 0)) = len \<and>
     (\<forall>b < len. fold ?f [0..<m] (replicate len 0) ! b = gf.F (\<lambda>j. GFMul (cs ! j) (padded ! j ! b)) {..<m})"
    if "m \<le> length padded" for m
    using that
  proof (induction m)
    case (Suc m)
    have "length (padded ! m) = len" using assms Suc.prems by simp
    then show ?case using Suc by (auto simp: lessThan_Suc gf.commute)
  qed simp
  then show ?thesis by (simp add: rlnc_combine_def)
qed

lemma max_len_ge:
  "m \<le> fold (\<lambda>seg m. if length seg > m then length seg else m) xs m \<and>
   (\<forall>s \<in> set xs. length s \<le> fold (\<lambda>seg m. if length seg > m then length seg else m) xs m)"
proof (induction xs arbitrary: m)
  case (Cons x xs)
  from Cons.IH [of "if length x > m then length x else m"] show ?case
    by (auto split: if_splits intro: order_trans [OF less_imp_le] order_trans)
qed simp

lemma max_len_eq:
  assumes "xs \<noteq> []"
  shows "fold (\<lambda>seg m. if length seg > m then length seg else m) xs 0 = Max (length ` set xs)"
proof -
  let ?f = "\<lambda>seg m. if length seg > m then length seg else m"
  have mem: "fold ?f ys m \<in> insert m (length ` set ys)" for ys :: "'a list list" and m
  proof (induction ys arbitrary: m)
    case (Cons y ys)
    from Cons.IH [of "if length y > m then length y else m"] show ?case by auto
  qed simp
  have "fold ?f xs 0 \<in> length ` set xs"
    using mem [of xs 0] max_len_ge [where xs = xs and m = 0] assms by (cases xs) auto
  then show ?thesis
    using max_len_ge [where xs = xs and m = 0] by (intro Max_eqI [symmetric]) auto
qed

lemma rlnc_padded_props:
  fixes segments defines "len \<equiv> fold (\<lambda>seg m. if length seg > m then length seg else m) segments 0"
  shows "length (rlnc_padded segments) = length segments" "s \<in> set (rlnc_padded segments) \<Longrightarrow> length s = len"
    "rlnc_padded segments = map (\<lambda>seg. seg @ replicate (len - length seg) 0) segments"
proof -
  show "length (rlnc_padded segments) = length segments" "s \<in> set (rlnc_padded segments) \<Longrightarrow> length s = len"
    by (auto simp: rlnc_padded_def len_def)
  show "rlnc_padded segments = map (\<lambda>seg. seg @ replicate (len - length seg) 0) segments"
    using max_len_ge [where xs = segments and m = 0] by (auto simp: rlnc_padded_def go_copy_def len_def [symmetric])
qed

section \<open>Properties\<close>

text \<open>Gaussian elimination decides solvability and solves. For a coefficient matrix
  with at least as many rows as columns and payload rows of equal length:
  \<open>GaussianEliminate\<close> reports a rank deficiency exactly when the columns are linearly
  dependent, and otherwise, whenever the payloads are the products of the coefficients with
  some segments, returns exactly these segments. It never divides by zero.\<close>

theorem gauss_decodes:
  assumes "gm_Rows coeffs = n" "gm_Cols coeffs = k" "length (gm_Data coeffs) = n * k"
    "0 < k" "k \<le> n" "length payloads = n" "\<And>r. r < n \<Longrightarrow> length (payloads ! r) = len"
  shows "((\<exists>c. GaussianEliminate coeffs payloads = Inl (RankDeficientColumn c)) \<longleftrightarrow> dependent coeffs) \<and>
    (\<forall>e. GaussianEliminate coeffs payloads = Inl e \<longrightarrow> (\<exists>c < k. e = RankDeficientColumn c)) \<and>
    (\<forall>segs. length segs = k \<longrightarrow> (\<forall>s \<in> set segs. length s = len) \<longrightarrow> encodes coeffs segs payloads \<longrightarrow>
       \<not> dependent coeffs \<longrightarrow> GaussianEliminate coeffs payloads = Inr segs)"
proof -
  have ok: "mat_ok n k coeffs" using assms(1-3) by (simp add: mat_ok_def)
  note g = GaussianEliminate_correct [OF ok assms(4-7)]
  show ?thesis
  proof (cases "dependent coeffs")
    case True
    then show ?thesis using g(1) by fastforce
  next
    case False
    then show ?thesis using g(2,3) by fastforce
  qed
qed

lemma dependent_coeff_matrix:
  "dependent (coeff_matrix k pkts) \<longleftrightarrow> (\<exists>v. (\<exists>c < k. v c \<noteq> 0) \<and>
     (\<forall>pkt \<in> set pkts. gf.F (\<lambda>c. GFMul (rp_Coefficients pkt ! c) (v c)) {..<k} = 0))"
proof -
  have dims: "gm_Rows (coeff_matrix k pkts) = length pkts" "gm_Cols (coeff_matrix k pkts) = k"
    using Get_coeff_matrix(1) [of pkts k] by (simp_all add: mat_ok_def)
  have "gf.F (\<lambda>c. GFMul (GF_Get (coeff_matrix k pkts) r c) (v c)) {..<k} =
      gf.F (\<lambda>c. GFMul (rp_Coefficients (pkts ! r) ! c) (v c)) {..<k}" if "r < length pkts" for r v
    by (rule gf.cong) (simp_all add: Get_coeff_matrix(2) that)
  then show ?thesis unfolding dependent_def dims by (simp add: all_set_conv_all_nth)
qed

lemma EncodeGeneration_packet:
  assumes "pkt \<in> set (EncodeGeneration rnd n0 gid hash segments)" "\<And>i. length (rnd i) = length segments"
    "length hash = 32" "length segments \<le> 255" "rlnc_padded segments ! 0 \<noteq> []"
  shows "UnmarshalRLNCPacket (MarshalRLNCPacket pkt) = Inr pkt" "length (rp_Coefficients pkt) = length segments"
    "rp_Payload pkt = rlnc_combine (rp_Coefficients pkt) (length (rlnc_padded segments ! 0)) (rlnc_padded segments)"
    "rp_GenerationID pkt = gid"
proof -
  define len where "len = fold (\<lambda>seg m. if length seg > m then length seg else m) segments 0"
  have k: "0 < length segments" using assms(1) by (auto simp: EncodeGeneration_def Let_def split: if_splits)
  have "rlnc_padded segments ! 0 \<in> set (rlnc_padded segments)" using k rlnc_padded_props(1) by simp
  then have len: "length (rlnc_padded segments ! 0) = len" unfolding len_def by (rule rlnc_padded_props(2))
  obtain cs where pkt: "length cs = length segments"
      "pkt = \<lparr> rp_ResourceHash = hash, rp_Version = RLNCVersion, rp_GenerationID = gid,
        rp_K = ClampU8 (int (length segments)), rp_Coefficients = cs,
        rp_Payload = rlnc_combine cs len (rlnc_padded segments) \<rparr>"
    using assms(1,2) k by (auto simp: EncodeGeneration_def Let_def len_def)
  show "length (rp_Coefficients pkt) = length segments" "rp_GenerationID pkt = gid"
    "rp_Payload pkt = rlnc_combine (rp_Coefficients pkt) (length (rlnc_padded segments ! 0)) (rlnc_padded segments)"
    by (simp_all add: pkt len)
  have kb: "unat (rp_K pkt) = length segments" using assms(4) by (simp add: pkt unat_ClampU8)
  moreover have "length (rp_Payload pkt) = len"
    using rlnc_combine_sum [where padded = "rlnc_padded segments" and len = len and cs = cs] rlnc_padded_props(2) len_def
    by (simp add: pkt)
  moreover have "0 < len" using assms(5) len by (metis length_greater_0_conv)
  ultimately show "UnmarshalRLNCPacket (MarshalRLNCPacket pkt) = Inr pkt"
    using k assms(3) pkt(1) by (intro Unmarshal_MarshalRLNC) (auto simp: pkt(2))
qed

lemma AddPacket_all:
  "\<not> rg_Decoded g \<Longrightarrow> foldl (\<lambda>g pkt. snd (AddPacket pkt g)) g pkts = g \<lparr> rg_Received := rg_Received g @ pkts \<rparr>"
  by (induction pkts arbitrary: g) (simp_all add: AddPacket_def Let_def)

text \<open>Padding in terms of the longest segment, and packets that came over the wire.\<close>

lemma padded_segments:
  assumes "0 < length segments" "\<exists>s \<in> set segments. s \<noteq> []" "len = Max (length ` set segments)"
  shows "length (rlnc_padded segments) = length segments" "s \<in> set (rlnc_padded segments) \<Longrightarrow> length s = len"
    "rlnc_padded segments = map (\<lambda>seg. seg @ replicate (len - length seg) 0) segments"
    "length (rlnc_padded segments ! 0) = len" "rlnc_padded segments ! 0 \<noteq> []"
proof -
  have "segments \<noteq> []" using assms(1) by simp
  from max_len_eq [OF this] have len: "len = fold (\<lambda>seg m. if length seg > m then length seg else m) segments 0"
    unfolding assms(3) by (rule sym)
  show pad: "length (rlnc_padded segments) = length segments" "\<And>s. s \<in> set (rlnc_padded segments) \<Longrightarrow> length s = len"
    "rlnc_padded segments = map (\<lambda>seg. seg @ replicate (len - length seg) 0) segments"
    unfolding len by (fact rlnc_padded_props(1), erule rlnc_padded_props(2), fact rlnc_padded_props(3))
  show p0: "length (rlnc_padded segments ! 0) = len" by (rule pad(2)) (use pad(1) assms(1) in simp)
  obtain s where "s \<in> set segments" "s \<noteq> []" using assms(2) by blast
  then have "0 < length s" "length s \<le> Max (length ` set segments)" by (simp_all add: Max_ge)
  then show "rlnc_padded segments ! 0 \<noteq> []" using p0 assms(3) by auto
qed

lemma received_encoded:
  assumes "\<And>i. length (rnd i) = length segments" "length hash = 32" "length segments \<le> 255" "rlnc_padded segments ! 0 \<noteq> []"
    and "set wires \<subseteq> MarshalRLNCPacket ` set (EncodeGeneration rnd n0 gid hash segments)"
    and "map UnmarshalRLNCPacket wires = map Inr pkts" "pkt \<in> set pkts"
  shows "pkt \<in> set (EncodeGeneration rnd n0 gid hash segments)"
proof -
  have "Inr pkt \<in> set (map UnmarshalRLNCPacket wires)" using assms(6,7) by simp
  then obtain w where w: "w \<in> set wires" "UnmarshalRLNCPacket w = Inr pkt" by fastforce
  then obtain p where p: "p \<in> set (EncodeGeneration rnd n0 gid hash segments)" "w = MarshalRLNCPacket p"
    using assms(5) by blast
  then show ?thesis using EncodeGeneration_packet(1) [OF p(1) assms(1,2,3,4)] w(2) by simp
qed

text \<open>A decoding attempt on packets that combine the rows of \<open>padded\<close>.\<close>

lemma TryDecode_combined:
  assumes k: "0 < k" "length padded = k" and pad: "\<And>s. s \<in> set padded \<Longrightarrow> length s = len"
    and pk: "\<And>pkt. pkt \<in> set pkts \<Longrightarrow> length (rp_Coefficients pkt) = k \<and> rp_Payload pkt = rlnc_combine (rp_Coefficients pkt) len padded"
    and g: "g = (NewRLNCGeneration gid k sz) \<lparr> rg_Received := pkts \<rparr>"
  shows "length pkts < k \<or> dependent (coeff_matrix k pkts) \<Longrightarrow> \<exists>e. TryDecode g = (Inl e, g)"
    "\<not> length pkts < k \<Longrightarrow> \<not> dependent (coeff_matrix k pkts) \<Longrightarrow>
      TryDecode g = (Inr padded, g \<lparr> rg_Decoded := True, rg_DecodedData := padded \<rparr>)"
proof -
  let ?m = "coeff_matrix k pkts" and ?p = "map rp_Payload pkts"
  have pay: "length (rp_Payload pkt) = len"
    "b < len \<Longrightarrow> rp_Payload pkt ! b = gf.F (\<lambda>j. GFMul (rp_Coefficients pkt ! j) (padded ! j ! b)) {..<k}"
    if "pkt \<in> set pkts" for pkt b
    using rlnc_combine_sum [OF pad, where cs = "rp_Coefficients pkt"] pk [OF that] k(2) by simp_all
  have attempt: "TryDecode g = (case GaussianEliminate ?m ?p of Inl e \<Rightarrow> (Inl (RLNCNotDecodable e), g)
      | Inr d \<Rightarrow> (Inr d, g \<lparr> rg_Decoded := True, rg_DecodedData := d \<rparr>))" if "\<not> length pkts < k"
    using that pk by (auto simp: TryDecode_def g NewRLNCGeneration_def split: sum.splits)
  note ge = GaussianEliminate_correct [OF Get_coeff_matrix(1) [of pkts k] k(1), of ?p len]
  show "\<exists>e. TryDecode g = (Inl e, g)" if "length pkts < k \<or> dependent ?m"
    using that attempt ge(1) pay(1) by (cases "length pkts < k") (auto simp: TryDecode_def g NewRLNCGeneration_def)
  have eqs: "gf.F (\<lambda>c. GFMul (GF_Get ?m r c) (padded ! c ! j)) {..<k} =
      gf.F (\<lambda>c. GFMul (rp_Coefficients (pkts ! r) ! c) (padded ! c ! j)) {..<k}" if "r < length pkts" for r j
    by (rule gf.cong) (simp_all add: Get_coeff_matrix(2) that)
  have enc: "encodes ?m padded ?p" if "\<not> length pkts < k"
  proof -
    have "0 < length pkts" using that k(1) by linarith
    then have "length (map rp_Payload pkts ! 0) = len" using pay(1) by simp
    then show ?thesis using eqs Get_coeff_matrix(1) [of pkts k] pay(2) k(2) by (simp add: encodes_def mat_ok_def)
  qed
  have "GaussianEliminate ?m ?p = Inr padded" if "\<not> length pkts < k" "\<not> dependent ?m"
    using ge(3) [OF _ _ _ that(2) k(2) _ enc [OF that(1)]] that(1) pay(1) pad by simp
  then show "TryDecode g = (Inr padded, g \<lparr> rg_Decoded := True, rg_DecodedData := padded \<rparr>)"
    if "\<not> length pkts < k" "\<not> dependent ?m"
    unfolding attempt [OF that(1)] using that by simp
qed

text \<open>C13: Network coding end to end. Take at most 255 segments, not all empty, encode them,
  let any of the coded packets (a selection in any order, with repetitions) travel over the
  wire and be added to a fresh generation for these segments. \<open>TryDecode\<close> succeeds exactly
  when there are enough packets and their coefficient vectors are independent as columns;
  then it returns the segments, zero-padded to the longest of them, and keeps returning them
  whatever is added later. Otherwise it reports an error and leaves the generation as it is.\<close>

theorem rlnc_end_to_end:
  assumes "\<And>i. length (rnd i) = length segments" "length hash = 32" "0 < length segments" "length segments \<le> 255"
    and "\<exists>s \<in> set segments. s \<noteq> []"
    and "set wires \<subseteq> MarshalRLNCPacket ` set (EncodeGeneration rnd n0 gid hash segments)"
    and "map UnmarshalRLNCPacket wires = map Inr pkts"
    and "g = foldl (\<lambda>g pkt. snd (AddPacket pkt g)) (NewRLNCGeneration gid (length segments) sz) pkts"
    and "len = Max (length ` set segments)"
  shows "case TryDecode g of
      (Inr segs, g') \<Rightarrow> length segments \<le> length pkts \<and> \<not> dependent (coeff_matrix (length segments) pkts) \<and>
        segs = map (\<lambda>s. s @ replicate (len - length s) 0) segments \<and>
        (\<forall>pkt. TryDecode (snd (AddPacket pkt g')) = (Inr segs, g'))
    | (Inl _, g') \<Rightarrow> (length pkts < length segments \<or> dependent (coeff_matrix (length segments) pkts)) \<and> g' = g"
proof -
  let ?k = "length segments" and ?padded = "rlnc_padded segments"
  note pad = padded_segments [OF assms(3,5,9)]
  have pk: "length (rp_Coefficients pkt) = ?k \<and> rp_Payload pkt = rlnc_combine (rp_Coefficients pkt) len ?padded"
    if "pkt \<in> set pkts" for pkt
    using EncodeGeneration_packet(2,3) [OF received_encoded [OF assms(1,2,4) pad(5) assms(6,7) that] assms(1,2,4) pad(5)] pad(4) by simp
  have g: "g = (NewRLNCGeneration gid ?k sz) \<lparr> rg_Received := pkts \<rparr>"
    using AddPacket_all [of "NewRLNCGeneration gid ?k sz" pkts] assms(8) by (simp add: NewRLNCGeneration_def)
  note dec = TryDecode_combined [OF assms(3) pad(1,2) pk g]
  have again: "TryDecode (snd (AddPacket pkt (g \<lparr> rg_Decoded := True, rg_DecodedData := ?padded \<rparr>))) =
      (Inr ?padded, g \<lparr> rg_Decoded := True, rg_DecodedData := ?padded \<rparr>)" for pkt
    by (simp add: TryDecode_def AddPacket_def)
  show ?thesis
  proof (cases "length pkts < ?k \<or> dependent (coeff_matrix ?k pkts)")
    case True
    then show ?thesis using dec(1) by auto
  next
    case False
    then show ?thesis using dec(2) again pad(3) by auto
  qed
qed

theorem rlnc_end_to_end_witness:
  "let pkt = hd (EncodeGeneration (\<lambda>i. [1]) 1 9 (replicate 32 0) [[5, 6]])
   in fst (TryDecode (snd (AddPacket pkt (NewRLNCGeneration 9 1 2)))) = Inr [[5, 6]]"
proof -
  let ?e = "EncodeGeneration (\<lambda>i. [1]) 1 9 (replicate 32 0) [[5, 6]]"
  have e: "?e = [\<lparr> rp_ResourceHash = replicate 32 0, rp_Version = RLNCVersion, rp_GenerationID = 9, rp_K = 1,
      rp_Coefficients = [1], rp_Payload = [5, 6] \<rparr>]"
    by (simp add: EncodeGeneration_def Let_def rlnc_padded_def rlnc_combine_def ClampU8_def)
  let ?pkt = "hd ?e"
  have "UnmarshalRLNCPacket (MarshalRLNCPacket ?pkt) = Inr ?pkt"
    by (rule Unmarshal_MarshalRLNC) (simp_all add: e)
  moreover have "\<not> dependent (coeff_matrix 1 [?pkt])"
    by (simp add: dependent_coeff_matrix e lessThan_Suc)
  ultimately show ?thesis
    using rlnc_end_to_end [of "\<lambda>i. [1]" "[[5, 6]]" "replicate 32 0" "[MarshalRLNCPacket ?pkt]" 1 9 "[?pkt]" _ 2 2]
    by (simp add: e numeral_2_eq_2 split: prod.splits sum.splits)
qed

end
