(* ===== verification/Fec.thy ===== *)
theory Fec
  imports Prelude
begin

text \<open>
  Forward error correction, \<open>src/internal/protocol/fec.go\<close> and
  \<open>src/internal/protocol/fec_profiles.go\<close>: the self-describing payload (header, shards,
  byte interleaving), its encoder and its two decoders, and the choice of parameters per
  channel. The Reed-Solomon package is a record of functions, an argument of the
  definitions; \<open>rs_documented\<close> states what its documentation promises.
\<close>

section \<open>Interleaving\<close>

text \<open>The order in which the two nested loops visit the byte positions.\<close>

definition il_order :: "nat \<Rightarrow> nat \<Rightarrow> nat list" where
  "il_order n depth =
     (let stride = (n + depth - 1) div depth
      in concat (map (\<lambda>d. filter (\<lambda>i. i < n) (map (\<lambda>s. s * depth + d) [0..<stride])) [0..<depth]))"

definition FECInterleave :: "bytes \<Rightarrow> int \<Rightarrow> bytes" where
  "FECInterleave data depth =
     (if depth \<le> 1 \<or> data = [] then data
      else map (\<lambda>src. data ! src) (il_order (length data) (nat depth)))"

definition FECDeinterleave :: "bytes \<Rightarrow> int \<Rightarrow> bytes" where
  "FECDeinterleave data depth =
     (if depth \<le> 1 \<or> data = [] then data
      else fold (\<lambda>(dst, idx) out. out[dst := data ! idx])
             (zip (il_order (length data) (nat depth)) [0..<length data]) (replicate (length data) 0))"

section \<open>The Reed-Solomon package\<close>

text \<open>\<open>New\<close>, \<open>Encode\<close>, \<open>Verify\<close> and \<open>Reconstruct\<close> of the external package; \<open>None\<close> is
  an error and a missing shard.\<close>

record rs_lib =
  rs_New :: "nat \<Rightarrow> nat \<Rightarrow> bool"
  rs_Encode :: "nat \<Rightarrow> nat \<Rightarrow> bytes list \<Rightarrow> bytes list option"
  rs_Verify :: "nat \<Rightarrow> nat \<Rightarrow> bytes list \<Rightarrow> bool option"
  rs_Reconstruct :: "nat \<Rightarrow> nat \<Rightarrow> bytes option list \<Rightarrow> bytes list option"

section \<open>Encoder and decoders\<close>

definition FECVersion1 :: byte where "FECVersion1 = 0x01"
definition FECVersion2 :: byte where "FECVersion2 = 0x02"
definition fecHeaderLenV1 :: nat where "fecHeaderLenV1 = 5"
definition fecHeaderLenV2 :: nat where "fecHeaderLenV2 = 6"
definition fecOrigLenTrailer :: nat where "fecOrigLenTrailer = 4"
definition fecFlagInterleaved :: byte where "fecFlagInterleaved = 0x01"

lemmas fec_consts = FECVersion1_def FECVersion2_def fecHeaderLenV1_def fecHeaderLenV2_def
  fecOrigLenTrailer_def fecFlagInterleaved_def

record FECEncodeOpts =
  eo_Interleave :: bool
  eo_InterleaveDepth :: int

datatype fec_error =
    DataShardsRange int
  | ParityShardsRange int
  | TotalShardsRange
  | CreateCodec
  | PayloadTooBig nat
  | EncodeFailed
  | ShardTooBig nat
  | FecTooShort nat
  | FecBadVersion byte
  | BadShardCounts nat nat
  | BadShardSize nat
  | BadParams nat nat nat
  | PayloadTooShort nat nat
  | ReconstructFailed
  | NoLengthPrefix
  | BadLengthPrefix nat nat

definition fec_flags :: "FECEncodeOpts \<Rightarrow> byte" where
  "fec_flags opt =
     (if eo_Interleave opt \<and> eo_InterleaveDepth opt > 0
      then let d0 = eo_InterleaveDepth opt - 1;
               d1 = (if d0 < 0 then 0 else d0);
               d2 = (if d1 > 15 then 15 else d1)
           in fecFlagInterleaved OR (push_bit 1 (of_int d2) AND 0x1E)
      else 0)"

text \<open>Padding to a multiple of the number of shards, and the cut into shards.\<close>

definition fec_pad :: "nat \<Rightarrow> bytes \<Rightarrow> bytes" where
  "fec_pad k prefixed =
     (let rem = length prefixed mod k in if rem \<noteq> 0 then prefixed @ replicate (k - rem) 0 else prefixed)"

definition fec_shards :: "nat \<Rightarrow> nat \<Rightarrow> bytes \<Rightarrow> bytes list" where
  "fec_shards n shardSize d = map (\<lambda>i. slice (i * shardSize) ((i + 1) * shardSize) d) [0..<n]"

definition FECEncode :: "rs_lib \<Rightarrow> bytes \<Rightarrow> int \<Rightarrow> int \<Rightarrow> FECEncodeOpts option \<Rightarrow> fec_error + bytes" where
  "FECEncode lib data dataShards parityShards opts =
     (if dataShards < 1 \<or> dataShards > 255 then Inl (DataShardsRange dataShards)
      else if parityShards < 1 \<or> parityShards > 255 then Inl (ParityShardsRange parityShards)
      else if dataShards + parityShards > 256 then Inl TotalShardsRange
      else let opt = (case opts of Some o' \<Rightarrow> o' | None \<Rightarrow> \<lparr> eo_Interleave = False, eo_InterleaveDepth = 0 \<rparr>);
               k = nat dataShards; m = nat parityShards
      in if \<not> rs_New lib k m then Inl CreateCodec
      else if length data > 2 ^ 32 - 1 then Inl (PayloadTooBig (length data))
      else let padded = fec_pad k (put_u32_le (of_nat (length data)) @ data);
               shardSize = length padded div k
      in case rs_Encode lib k m (fec_shards k shardSize padded @ replicate m (replicate shardSize 0)) of
           None \<Rightarrow> Inl EncodeFailed
         | Some shards \<Rightarrow>
           if shardSize > 65535 then Inl (ShardTooBig shardSize)
           else let flags = fec_flags opt;
                    hdr = [FECVersion2, of_int dataShards, of_int parityShards] @
                          put_u16_le (of_nat shardSize) @ [flags];
                    body = concat shards
                in Inr (hdr @ (if flags AND fecFlagInterleaved \<noteq> 0
                               then FECInterleave body (eo_InterleaveDepth opt) else body)))"

text \<open>The version-specific part of the header: its length and the interleaving depth.\<close>

definition fec_v2_fields :: "byte \<Rightarrow> bytes \<Rightarrow> fec_error + nat \<times> bool \<times> int" where
  "fec_v2_fields version data =
     (if version = FECVersion2
      then if length data < fecHeaderLenV2 then Inl (FecTooShort (length data))
           else let flags = data ! 5;
                    interleaved = (flags AND fecFlagInterleaved \<noteq> 0)
                in Inr (fecHeaderLenV2, interleaved,
                        if interleaved then int (unat (drop_bit 1 flags AND 0x0F)) + 1 else 0)
      else Inr (fecHeaderLenV1, False, 0))"

text \<open>Strip the length prefix and the padding from the joined data shards.\<close>

definition fec_unprefix :: "bytes \<Rightarrow> fec_error + bytes" where
  "fec_unprefix result0 =
     (if length result0 < fecOrigLenTrailer then Inl NoLengthPrefix
      else let origLen = unat (get_u32_le (take fecOrigLenTrailer result0));
               result = drop fecOrigLenTrailer result0
           in if origLen > length result then Inl (BadLengthPrefix origLen (length result))
              else Inr (take origLen result))"

definition FECDecode :: "rs_lib \<Rightarrow> bytes \<Rightarrow> fec_error + bytes" where
  "FECDecode lib data =
     (if length data < fecHeaderLenV1 then Inl (FecTooShort (length data))
      else let version = data ! 0
      in if version \<noteq> FECVersion1 \<and> version \<noteq> FECVersion2 then Inl (FecBadVersion version)
      else let k = unat (data ! 1); m = unat (data ! 2); shardSize = unat (get_u16_le (slice 3 5 data))
      in if k < 1 \<or> m < 1 then Inl (BadShardCounts k m)
      else if shardSize < 1 then Inl (BadShardSize shardSize)
      else case fec_v2_fields version data of Inl e \<Rightarrow> Inl e
      | Inr (headerLen, interleaved, depth) \<Rightarrow>
        let total = k + m; expected = headerLen + total * shardSize
        in if length data < expected then Inl (PayloadTooShort expected (length data))
        else let sd0 = slice headerLen expected data;
                 sd = (if interleaved \<and> depth > 0 then FECDeinterleave sd0 depth else sd0)
        in if \<not> rs_New lib k m then Inl CreateCodec
        else let shards = fec_shards total shardSize sd
        in case (case rs_Verify lib k m shards of Some True \<Rightarrow> Some shards
                 | _ \<Rightarrow> rs_Reconstruct lib k m (map Some shards)) of
             None \<Rightarrow> Inl ReconstructFailed
           | Some shards' \<Rightarrow> fec_unprefix (concat (take k shards')))"

definition FECDecodeWithErasures :: "rs_lib \<Rightarrow> bytes \<Rightarrow> int list \<Rightarrow> fec_error + bytes \<times> nat" where
  "FECDecodeWithErasures lib data erasedIndices =
     (if length data < fecHeaderLenV1 then Inl (FecTooShort (length data))
      else let version = data ! 0
      in if version \<noteq> FECVersion1 \<and> version \<noteq> FECVersion2 then Inl (FecBadVersion version)
      else let k = unat (data ! 1); m = unat (data ! 2); shardSize = unat (get_u16_le (slice 3 5 data))
      in if k < 1 \<or> m < 1 \<or> shardSize < 1 then Inl (BadParams k m shardSize)
      else case fec_v2_fields version data of Inl e \<Rightarrow> Inl e
      | Inr (headerLen, interleaved, depth) \<Rightarrow>
        let total = k + m; expected = headerLen + total * shardSize
        in if length data < expected then Inl (PayloadTooShort expected (length data))
        else let sd0 = slice headerLen expected data;
                 sd = (if interleaved \<and> depth > 0 then FECDeinterleave sd0 depth else sd0)
        in if \<not> rs_New lib k m then Inl CreateCodec
        else let shards0 = map Some (fec_shards total shardSize sd);
                 shards = fold (\<lambda>idx ss. if idx \<ge> 0 \<and> idx < int total then ss[nat idx := None] else ss) erasedIndices shards0
        in case rs_Reconstruct lib k m shards of
             None \<Rightarrow> Inl ReconstructFailed
           | Some shards' \<Rightarrow>
             (case fec_unprefix (concat (take k shards')) of Inl e \<Rightarrow> Inl e
              | Inr r \<Rightarrow> Inr (r, length erasedIndices)))"

section \<open>Profiles\<close>

record FECProfile =
  fp_DataShards :: int
  fp_ParityShards :: int
  fp_Interleave :: bool
  fp_InterleaveDepth :: int

definition fec_profile :: "int \<Rightarrow> int \<Rightarrow> bool \<Rightarrow> int \<Rightarrow> FECProfile" where
  "fec_profile k m il d =
     \<lparr> fp_DataShards = k, fp_ParityShards = m, fp_Interleave = il, fp_InterleaveDepth = d \<rparr>"

definition fecProfiles :: "(string \<times> FECProfile) list" where
  "fecProfiles =
     [(''lora'', fec_profile 4 2 True 8), (''mesh'', fec_profile 4 2 True 8),
      (''sbd'', fec_profile 6 2 False 0), (''iridium'', fec_profile 6 2 False 0),
      (''imt'', fec_profile 8 2 False 0), (''iridium_imt'', fec_profile 8 2 False 0),
      (''ax25'', fec_profile 4 3 True 16), (''tcp'', fec_profile 0 0 False 0),
      (''mqtt'', fec_profile 0 0 False 0), (''webhook'', fec_profile 0 0 False 0),
      (''cellular'', fec_profile 6 2 False 0), (''sms'', fec_profile 4 2 False 0),
      (''zigbee'', fec_profile 4 2 True 4)]"

definition LookupFECProfile :: "string \<Rightarrow> FECProfile option" where
  "LookupFECProfile channelType = map_of fecProfiles channelType"

text \<open>The parameters of a transform; reading an absent key yields the empty string. The
  number is accumulated in a 64-bit \<open>int\<close>, skipping every character that is no digit.\<close>

type_synonym params = "(string, string) fmap"

definition param_get :: "params \<Rightarrow> string \<Rightarrow> string" where
  "param_get params key = (case fmlookup params key of Some s \<Rightarrow> s | None \<Rightarrow> [])"

definition digit_step :: "char \<Rightarrow> int \<Rightarrow> int" where
  "digit_step c v =
     (if 48 \<le> (of_char c :: int) \<and> (of_char c :: int) \<le> 57 then go_int64 (v * 10 + (of_char c - 48)) else v)"

definition ParseIntParam :: "params \<Rightarrow> string \<Rightarrow> int \<Rightarrow> int" where
  "ParseIntParam params key defVal =
     (case fmlookup params key of None \<Rightarrow> defVal
      | Some s \<Rightarrow> if s = [] then defVal
          else let v = fold digit_step s 0 in if v = 0 then defVal else v)"

definition ResolveFECParams :: "params \<Rightarrow> int \<times> int \<times> bool \<times> int" where
  "ResolveFECParams params =
     (let profile = param_get params ''profile'';
          name = (if profile = ''auto'' then Some (param_get params ''channel'')
                  else if profile \<noteq> [] then Some profile else None)
      in case Option.bind name (map_of fecProfiles) of
           Some p \<Rightarrow> if fp_DataShards p = 0 then (0, 0, False, 0)
                     else (fp_DataShards p, fp_ParityShards p, fp_Interleave p, fp_InterleaveDepth p)
         | None \<Rightarrow>
           let ds = ParseIntParam params ''data_shards'' 0;
               ps = ParseIntParam params ''parity_shards'' 0
           in if ds > 0 \<and> ps > 0
              then let il = (param_get params ''interleave'' = ''true'');
                       ild = ParseIntParam params ''interleave_depth'' 8
                   in (ds, ps, il, if \<not> il then 0 else ild)
              else (if ds = 0 then 4 else ds, if ps = 0 then 2 else ps, False, 0))"

definition AdaptFECProfile :: "FECProfile \<Rightarrow> int \<Rightarrow> FECProfile" where
  "AdaptFECProfile p healthScore =
     (if fp_DataShards p = 0 \<or> fp_ParityShards p = 0 then p
      else let adapted = (if healthScore > 80 then p
                 else if healthScore > 50 then p \<lparr> fp_ParityShards := fp_ParityShards p + 1 \<rparr>
                 else p \<lparr> fp_ParityShards := fp_ParityShards p + 2 \<rparr>)
           in if fp_DataShards adapted + fp_ParityShards adapted > 255
              then adapted \<lparr> fp_ParityShards := 255 - fp_DataShards adapted \<rparr> else adapted)"

section \<open>Interleaving is a permutation\<close>

lemma il_order_perm:
  assumes "0 < depth"
  shows "distinct (il_order n depth)" "set (il_order n depth) = {..<n}" "length (il_order n depth) = n"
proof -
  define row where "row d = filter (\<lambda>i. i < n) (map (\<lambda>s. s * depth + d) [0..<(n + depth - 1) div depth])" for d
  have order: "il_order n depth = concat (map row [0..<depth])" unfolding il_order_def Let_def row_def ..
  have row: "distinct (row d)" "i \<in> set (row d) \<Longrightarrow> d < depth \<Longrightarrow> i mod depth = d" for d i
  proof -
    have "inj_on (\<lambda>s. s * depth + d) A" for A using assms by (auto intro: inj_onI)
    then show "distinct (row d)" unfolding row_def by (intro distinct_filter) (simp add: distinct_map)
    show "i \<in> set (row d) \<Longrightarrow> d < depth \<Longrightarrow> i mod depth = d" by (auto simp: row_def)
  qed
  have "distinct (concat (map row [0..<m])) \<and> (\<forall>i \<in> set (concat (map row [0..<m])). i mod depth < m)"
    if "m \<le> depth" for m
    using that
  proof (induction m)
    case (Suc m)
    then show ?case using row [where d = m] by (fastforce simp: less_Suc_eq)
  qed simp
  then show dist: "distinct (il_order n depth)" by (simp add: order)
  have "i \<in> set (il_order n depth)" if "i < n" for i
  proof -
    have "i mod depth < depth" using assms by simp
    moreover have "i div depth < (n + depth - 1) div depth"
    proof -
      have "i + depth \<le> n + depth - 1" using that by simp
      then have "(i + depth) div depth \<le> (n + depth - 1) div depth" by (rule div_le_mono)
      then show ?thesis using assms by simp
    qed
    moreover have "i = i div depth * depth + i mod depth" by simp
    ultimately have "\<exists>d < depth. \<exists>s < (n + depth - 1) div depth. i = s * depth + d" by blast
    then obtain d s where "d < depth" "s < (n + depth - 1) div depth" "i = s * depth + d" by blast
    then have "i \<in> set (row d)" "d < depth" using that by (auto simp: row_def)
    then show ?thesis by (auto simp: order)
  qed
  then show set: "set (il_order n depth) = {..<n}" by (auto simp: order row_def)
  show "length (il_order n depth) = n" using distinct_card [OF dist] set by simp
qed

lemma fold_scatter:
  assumes "distinct ps" "length js = length ps" "\<And>p. p \<in> set ps \<Longrightarrow> p < length out"
  shows "length (fold (\<lambda>(p, j) out. out[p := g j]) (zip ps js) out) = length out"
    "q \<notin> set ps \<Longrightarrow> fold (\<lambda>(p, j) out. out[p := g j]) (zip ps js) out ! q = out ! q"
    "i < length ps \<Longrightarrow> fold (\<lambda>(p, j) out. out[p := g j]) (zip ps js) out ! (ps ! i) = g (js ! i)"
proof -
  have "length (fold (\<lambda>(p, j) out. out[p := g j]) (zip ps js) out) = length out \<and>
    (\<forall>q. q \<notin> set ps \<longrightarrow> fold (\<lambda>(p, j) out. out[p := g j]) (zip ps js) out ! q = out ! q) \<and>
    (\<forall>i < length ps. fold (\<lambda>(p, j) out. out[p := g j]) (zip ps js) out ! (ps ! i) = g (js ! i))"
    using assms
  proof (induction ps arbitrary: js out)
    case (Cons p ps)
    obtain j js' where js: "js = j # js'" using Cons.prems(2) by (cases js) auto
    have "length js' = length ps" "\<And>q. q \<in> set ps \<Longrightarrow> q < length (out[p := g j])" "distinct ps"
      using Cons.prems js by auto
    note IH = Cons.IH [OF this(3,1,2)]
    have "fold (\<lambda>(p, j) out. out[p := g j]) (zip ps js') (out[p := g j]) ! p = g j"
      using IH Cons.prems by auto
    then show ?case using IH Cons.prems(1) by (auto simp: js nth_Cons split: nat.splits)
  qed simp
  then show "length (fold (\<lambda>(p, j) out. out[p := g j]) (zip ps js) out) = length out"
    "q \<notin> set ps \<Longrightarrow> fold (\<lambda>(p, j) out. out[p := g j]) (zip ps js) out ! q = out ! q"
    "i < length ps \<Longrightarrow> fold (\<lambda>(p, j) out. out[p := g j]) (zip ps js) out ! (ps ! i) = g (js ! i)"
    by auto
qed

lemma length_FECInterleave [simp]: "length (FECInterleave data depth) = length data"
  using il_order_perm(3) [of "nat depth" "length data"] by (simp add: FECInterleave_def)

lemma Deinterleave_Interleave: "FECDeinterleave (FECInterleave data depth) depth = data"
proof (cases "depth \<le> 1 \<or> data = []")
  case False
  let ?n = "length data"
  let ?o = "il_order ?n (nat depth)"
  note o = il_order_perm [of "nat depth" ?n]
  have ne: "FECInterleave data depth = map (\<lambda>src. data ! src) ?o" "?o \<noteq> []"
    using False o(3) by (auto simp: FECInterleave_def)
  let ?out = "fold (\<lambda>(dst, idx) out. out[dst := map (\<lambda>src. data ! src) ?o ! idx]) (zip ?o [0..<?n]) (replicate ?n 0)"
  have eq: "FECDeinterleave (FECInterleave data depth) depth = ?out"
    using False o(3) ne by (simp add: FECDeinterleave_def)
  have "?out ! q = data ! q" if q: "q < ?n" for q
  proof -
    have "q \<in> set ?o" using o(2) False q by simp
    then obtain i where i: "i < length ?o" "?o ! i = q" by (metis in_set_conv_nth)
    then show ?thesis
      using fold_scatter(3) [of ?o "[0..<?n]" "replicate ?n 0" i "\<lambda>idx. map (\<lambda>src. data ! src) ?o ! idx"] o False
      by simp
  qed
  moreover have "length ?out = ?n"
    using fold_scatter(1) [of ?o "[0..<?n]" "replicate ?n 0" "\<lambda>idx. map (\<lambda>src. data ! src) ?o ! idx"] o False
    by simp
  ultimately show ?thesis unfolding eq by (intro nth_equalityI) simp_all
qed (auto simp: FECDeinterleave_def FECInterleave_def)

section \<open>Shards\<close>

text \<open>What the package documents for \<open>k\<close> data and \<open>m\<close> parity shards: encoding fills in
  the parity shards and keeps the data shards; an encoded set verifies; and with at most
  \<open>m\<close> shards missing, reconstruction restores the set.\<close>

definition erased_from :: "bytes list \<Rightarrow> nat \<Rightarrow> bytes option list \<Rightarrow> bool" where
  "erased_from shards m es \<longleftrightarrow> length es = length shards \<and>
     (\<forall>i < length es. es ! i = None \<or> es ! i = Some (shards ! i)) \<and>
     card {i. i < length es \<and> es ! i = None} \<le> m"

definition rs_documented :: "rs_lib \<Rightarrow> nat \<Rightarrow> nat \<Rightarrow> bool" where
  "rs_documented lib k m \<longleftrightarrow> rs_New lib k m \<and>
     (\<forall>sz data parity. 0 < sz \<longrightarrow> length data = k \<longrightarrow> length parity = m \<longrightarrow>
        (\<forall>s \<in> set (data @ parity). length s = sz) \<longrightarrow>
        (\<exists>par. rs_Encode lib k m (data @ parity) = Some (data @ par) \<and> length par = m \<and>
           (\<forall>s \<in> set par. length s = sz) \<and> rs_Verify lib k m (data @ par) = Some True \<and>
           (\<forall>es. erased_from (data @ par) m es \<longrightarrow> rs_Reconstruct lib k m es = Some (data @ par))))"

lemma rs_documentedD:
  assumes "rs_documented lib k m" "0 < sz" "length data = k" "length parity = m"
    "\<forall>s \<in> set (data @ parity). length s = sz"
  shows "\<exists>par. rs_Encode lib k m (data @ parity) = Some (data @ par) \<and> length par = m \<and>
     (\<forall>s \<in> set par. length s = sz) \<and> rs_Verify lib k m (data @ par) = Some True \<and>
     (\<forall>es. erased_from (data @ par) m es \<longrightarrow> rs_Reconstruct lib k m es = Some (data @ par))"
  using assms unfolding rs_documented_def by blast

lemma fec_pad_props:
  assumes "0 < k"
  shows "length (fec_pad k d) mod k = 0" "take (length d) (fec_pad k d) = d" "length d \<le> length (fec_pad k d)"
    "length (fec_pad k d) < length d + k"
proof -
  have "(length d + (k - length d mod k)) mod k = 0" if "length d mod k \<noteq> 0"
  proof -
    have "length d + (k - length d mod k) = length d div k * k + k"
      using mod_less_divisor [OF assms, of "length d"] div_mult_mod_eq [of "length d" k] by linarith
    then show ?thesis by simp
  qed
  then show "length (fec_pad k d) mod k = 0" by (auto simp: fec_pad_def Let_def)
  show "take (length d) (fec_pad k d) = d" "length d \<le> length (fec_pad k d)"
    "length (fec_pad k d) < length d + k"
    using assms mod_less_divisor [OF assms, of "length d"] by (auto simp: fec_pad_def Let_def)
qed

lemma fec_shards_props:
  assumes "length d = n * sz"
  shows "length (fec_shards n sz d) = n" "s \<in> set (fec_shards n sz d) \<Longrightarrow> length s = sz"
    "concat (fec_shards n sz d) = d"
proof -
  show "length (fec_shards n sz d) = n" by (simp add: fec_shards_def)
  show "length s = sz" if "s \<in> set (fec_shards n sz d)"
  proof -
    have "\<exists>i < n. s = slice (i * sz) ((i + 1) * sz) d" using that by (auto simp: fec_shards_def)
    then obtain i where i: "i < n" "s = slice (i * sz) ((i + 1) * sz) d" by blast
    have "(i + 1) * sz \<le> n * sz" using i(1) by (intro mult_le_mono1) simp
    then show ?thesis using assms i(2) by simp
  qed
  have "fec_shards n sz d = map (\<lambda>i. piece sz i d) [0..<n]"
    by (simp add: fec_shards_def piece_slice add.commute)
  then show "concat (fec_shards n sz d) = d" using assms by (simp add: concat_pieces)
qed

lemma fec_shards_concat:
  assumes "\<And>s. s \<in> set ss \<Longrightarrow> length s = sz" "length ss = n"
  shows "fec_shards n sz (concat ss) = ss"
proof -
  have "slice (i * sz) ((i + 1) * sz) (concat ss) = ss ! i" if "i < length ss" for i
    using assms(1) that
  proof (induction ss arbitrary: i)
    case (Cons s ss)
    show ?case
    proof (cases i)
      case 0
      then show ?thesis using Cons.prems(1) [of s] by simp
    next
      case (Suc j)
      have "slice (i * sz) ((i + 1) * sz) (concat (s # ss)) = slice (j * sz) ((j + 1) * sz) (concat ss)"
        using Cons.prems(1) [of s] by (simp add: Suc slice_append_skip)
      then show ?thesis using Cons.IH [of j] Cons.prems Suc by simp
    qed
  qed simp
  then show ?thesis using assms(2) by (intro nth_equalityI) (simp_all add: fec_shards_def)
qed

lemma length_concat_shards: "\<forall>s \<in> set ss. length s = sz \<Longrightarrow> length (concat ss) = length ss * sz"
  by (induction ss) auto

lemma fec_unprefix_pad:
  assumes "length data < 2 ^ 32" "0 < k"
  shows "fec_unprefix (fec_pad k (put_u32_le (of_nat (length data)) @ data)) = Inr data"
proof -
  let ?x = "put_u32_le (of_nat (length data)) @ data"
  have "\<exists>z. fec_pad k ?x = ?x @ z" unfolding fec_pad_def Let_def by (metis append_Nil2)
  then obtain z where z: "fec_pad k ?x = ?x @ z" by blast
  have "unat (of_nat (length data) :: 32 word) = length data" using assms(1) by (simp add: unat_of_nat)
  then show ?thesis
    by (simp add: z fec_unprefix_def fec_consts)
qed

section \<open>The header\<close>

lemma flag_field:
  assumes "d < 16"
  shows "(1 OR (push_bit 1 (of_nat d) AND 0x1E)) AND 1 \<noteq> (0 :: byte)"
    "unat (drop_bit 1 (1 OR (push_bit 1 (of_nat d) AND 0x1E :: byte)) AND 0x0F) = d"
proof -
  have "list_all (\<lambda>d. (1 OR (push_bit 1 (of_nat d) AND 0x1E)) AND 1 \<noteq> (0 :: byte) \<and>
      unat (drop_bit 1 (1 OR (push_bit 1 (of_nat d) AND 0x1E :: byte)) AND 0x0F) = d) [0..<16]"
    by code_simp
  then show "(1 OR (push_bit 1 (of_nat d) AND 0x1E)) AND 1 \<noteq> (0 :: byte)"
    "unat (drop_bit 1 (1 OR (push_bit 1 (of_nat d) AND 0x1E :: byte)) AND 0x0F) = d"
    using assms by (simp_all only: list_all_iff) (metis atLeastLessThan_iff set_upt zero_le)+
qed

lemma fec_flags_depth:
  "fec_flags opt AND fecFlagInterleaved \<noteq> 0 \<longleftrightarrow> eo_Interleave opt \<and> eo_InterleaveDepth opt > 0"
  "eo_Interleave opt \<Longrightarrow> 0 < eo_InterleaveDepth opt \<Longrightarrow>
     int (unat (drop_bit 1 (fec_flags opt) AND 0x0F)) + 1 = min 16 (eo_InterleaveDepth opt)"
proof -
  define d where "d = nat (min 15 (eo_InterleaveDepth opt - 1))"
  have d: "d < 16" by (simp add: d_def)
  have fl: "fec_flags opt = 1 OR (push_bit 1 (of_nat d) AND 0x1E)" if "eo_Interleave opt" "0 < eo_InterleaveDepth opt"
  proof -
    have "(if eo_InterleaveDepth opt - 1 > 15 then 15 else eo_InterleaveDepth opt - 1) = int d"
      using that by (simp add: d_def)
    moreover have "\<not> eo_InterleaveDepth opt - 1 < 0" using that by simp
    ultimately have "fec_flags opt = fecFlagInterleaved OR (push_bit 1 (of_int (int d)) AND 0x1E)"
      using that unfolding fec_flags_def Let_def by (simp only: if_True if_False simp_thms)
    then show ?thesis by (simp only: fecFlagInterleaved_def of_int_of_nat_eq)
  qed
  show "fec_flags opt AND fecFlagInterleaved \<noteq> 0 \<longleftrightarrow> eo_Interleave opt \<and> eo_InterleaveDepth opt > 0"
  proof (cases "eo_Interleave opt \<and> eo_InterleaveDepth opt > 0")
    case True
    then show ?thesis using fl flag_field(1) [OF d] by (simp add: fecFlagInterleaved_def)
  qed (auto simp: fec_flags_def)
  show "int (unat (drop_bit 1 (fec_flags opt) AND 0x0F)) + 1 = min 16 (eo_InterleaveDepth opt)"
    if "eo_Interleave opt" "0 < eo_InterleaveDepth opt"
    unfolding fl [OF that] flag_field(2) [OF d] using that by (simp add: d_def)
qed

section \<open>Round trips\<close>

definition fec_encoded :: "nat \<Rightarrow> nat \<Rightarrow> nat \<Rightarrow> byte \<Rightarrow> bytes \<Rightarrow> bytes" where
  "fec_encoded k m sz flags body =
     [FECVersion2, of_nat k, of_nat m] @ put_u16_le (of_nat sz) @ [flags] @ body"

text \<open>An encoded payload is a header and the (interleaved) concatenation of a set of shards
  that verifies and can be reconstructed, whose data shards hold the padded payload.\<close>

lemma FECEncode_InrD:
  assumes enc: "FECEncode lib data dataShards parityShards opts = Inr out"
    and lib: "rs_documented lib (nat dataShards) (nat parityShards)"
    and opt: "opt = (case opts of Some o' \<Rightarrow> o' | None \<Rightarrow> \<lparr> eo_Interleave = False, eo_InterleaveDepth = 0 \<rparr>)"
    and km: "k = nat dataShards" "m = nat parityShards"
  obtains sz shards where "0 < sz" "sz < 65536" "1 \<le> k" "k < 256" "1 \<le> m" "m < 256" "rs_New lib k m"
    "length shards = k + m" "\<forall>s \<in> set shards. length s = sz" "rs_Verify lib k m shards = Some True"
    "\<And>es. erased_from shards m es \<Longrightarrow> rs_Reconstruct lib k m es = Some shards"
    "fec_unprefix (concat (take k shards)) = Inr data"
    "out = fec_encoded k m sz (fec_flags opt)
       (if eo_Interleave opt \<and> eo_InterleaveDepth opt > 0
        then FECInterleave (concat shards) (eo_InterleaveDepth opt) else concat shards)"
proof -
  have r: "1 \<le> dataShards" "dataShards \<le> 255" "1 \<le> parityShards" "parityShards \<le> 255"
    "dataShards + parityShards \<le> 256" "length data < 2 ^ 32"
    using enc by (auto simp: FECEncode_def Let_def split: if_splits option.splits)
  define padded where "padded = fec_pad k (put_u32_le (of_nat (length data)) @ data)"
  define sz where "sz = length padded div k"
  have k: "1 \<le> k" "k < 256" "1 \<le> m" "m < 256" and ints: "dataShards = int k" "parityShards = int m"
    using r by (simp_all add: km)
  have pad: "length padded = k * sz" "4 \<le> length padded"
    using fec_pad_props(1,3) [of k "put_u32_le (of_nat (length data)) @ data"] k(1)
    by (auto simp: padded_def sz_def mult.commute)
  have sz: "0 < sz" using pad k(1) by (cases sz) auto
  note sh = fec_shards_props [OF pad(1)]
  have "\<forall>s \<in> set (fec_shards k sz padded @ replicate m (replicate sz 0)). length s = sz"
    by (auto dest: sh(2))
  from rs_documentedD [OF lib [folded km] sz sh(1) length_replicate this] obtain par where par:
    "rs_Encode lib k m (fec_shards k sz padded @ replicate m (replicate sz 0)) = Some (fec_shards k sz padded @ par)"
    "length par = m" "\<forall>s \<in> set par. length s = sz" "rs_Verify lib k m (fec_shards k sz padded @ par) = Some True"
    "\<And>es. erased_from (fec_shards k sz padded @ par) m es \<Longrightarrow> rs_Reconstruct lib k m es = Some (fec_shards k sz padded @ par)"
    by blast
  have new: "rs_New lib k m" using lib by (simp add: rs_documented_def km)
  let ?shards = "fec_shards k sz padded @ par"
  have small: "sz < 65536"
    and out: "out = fec_encoded k m sz (fec_flags opt)
       (if eo_Interleave opt \<and> eo_InterleaveDepth opt > 0
        then FECInterleave (concat ?shards) (eo_InterleaveDepth opt) else concat ?shards)"
    using enc k r new par(1)
    unfolding FECEncode_def Let_def opt [symmetric] km [symmetric] padded_def [symmetric] sz_def [symmetric]
      fec_flags_depth(1)
    by (auto simp: fec_encoded_def ints split: if_splits)
  have "fec_unprefix (concat (take k ?shards)) = Inr data"
    using fec_unprefix_pad [OF r(6), of k] k(1) sh(1,3) by (simp add: padded_def)
  then show thesis
    using that [of sz ?shards] sz small k new sh(1,2) par(2-5) out by auto
qed

lemma fec_encoded_fields:
  assumes "k < 256" "m < 256" "sz < 65536"
  shows "fec_encoded k m sz f body ! 0 = FECVersion2" "unat (fec_encoded k m sz f body ! 1) = k"
    "unat (fec_encoded k m sz f body ! 2) = m"
    "unat (get_u16_le (slice 3 5 (fec_encoded k m sz f body))) = sz"
    "fec_encoded k m sz f body ! 5 = f" "length (fec_encoded k m sz f body) = 6 + length body"
    "slice 6 (6 + length body) (fec_encoded k m sz f body) = body"
  using assms
  by (simp_all add: fec_encoded_def nth_append slice_append_skip slice_def unat_of_nat)

text \<open>Both decoders see the shards that were encoded.\<close>

definition fec_decode_shards :: "rs_lib \<Rightarrow> nat \<Rightarrow> nat \<Rightarrow> bytes option list \<Rightarrow> fec_error + bytes" where
  "fec_decode_shards lib k m es =
     (case rs_Reconstruct lib k m es of None \<Rightarrow> Inl ReconstructFailed
      | Some shards \<Rightarrow> fec_unprefix (concat (take k shards)))"

definition fec_erase :: "nat \<Rightarrow> int list \<Rightarrow> bytes option list \<Rightarrow> bytes option list" where
  "fec_erase n idxs ss = fold (\<lambda>idx ss. if idx \<ge> 0 \<and> idx < int n then ss[nat idx := None] else ss) idxs ss"

lemma decoders_see_shards:
  assumes dims: "0 < sz" "sz < 65536" "1 \<le> k" "k < 256" "1 \<le> m" "m < 256" "rs_New lib k m"
    and sh: "length shards = k + m" "\<forall>s \<in> set shards. length s = sz"
    and depth: "eo_Interleave opt \<Longrightarrow> eo_InterleaveDepth opt \<le> 16"
    and out: "out = fec_encoded k m sz (fec_flags opt)
       (if eo_Interleave opt \<and> eo_InterleaveDepth opt > 0
        then FECInterleave (concat shards) (eo_InterleaveDepth opt) else concat shards)"
  shows "FECDecode lib out =
      (case rs_Verify lib k m shards of Some True \<Rightarrow> fec_unprefix (concat (take k shards))
       | _ \<Rightarrow> fec_decode_shards lib k m (map Some shards))"
    "FECDecodeWithErasures lib out idxs =
      (case fec_decode_shards lib k m (fec_erase (k + m) idxs (map Some shards)) of
         Inl e \<Rightarrow> Inl e | Inr r \<Rightarrow> Inr (r, length idxs))"
proof -
  define il where "il \<longleftrightarrow> eo_Interleave opt \<and> eo_InterleaveDepth opt > 0"
  define body where "body = (if il then FECInterleave (concat shards) (eo_InterleaveDepth opt) else concat shards)"
  have outb: "out = fec_encoded k m sz (fec_flags opt) body" unfolding out body_def il_def ..
  note f = fec_encoded_fields [OF dims(4,6,2), where f = "fec_flags opt" and body = body, folded outb]
  have lenb: "length body = (k + m) * sz"
    using length_concat_shards [OF sh(2)] sh(1) by (simp add: body_def)
  have v2: "fec_v2_fields (out ! 0) out = Inr (6, il, if il then eo_InterleaveDepth opt else 0)"
  proof -
    have "(fec_flags opt AND fecFlagInterleaved \<noteq> 0) = il" using fec_flags_depth(1) [of opt] by (simp add: il_def)
    moreover have "il \<Longrightarrow> int (unat (drop_bit 1 (fec_flags opt) AND 0x0F)) + 1 = eo_InterleaveDepth opt"
      using fec_flags_depth(2) [of opt] depth by (simp add: il_def)
    ultimately show ?thesis unfolding fec_v2_fields_def f(1,5,6) Let_def by (simp add: fecHeaderLenV2_def)
  qed
  have sd: "(if il \<and> (if il then eo_InterleaveDepth opt else 0) > 0 then FECDeinterleave (slice 6 (6 + (k + m) * sz) out)
      (if il then eo_InterleaveDepth opt else 0) else slice 6 (6 + (k + m) * sz) out) = concat shards"
    unfolding f(7) [unfolded lenb] by (auto simp: body_def il_def Deinterleave_Interleave)
  have shards: "fec_shards (k + m) sz (concat shards) = shards"
    by (rule fec_shards_concat) (use sh in auto)
  have len: "length out = 6 + (k + m) * sz" using f(6) lenb by simp
  have ok: "\<not> length out < fecHeaderLenV1" "\<not> (out ! 0 \<noteq> FECVersion1 \<and> out ! 0 \<noteq> FECVersion2)"
    using f(1) len by (simp_all add: fec_consts)
  have c: "(k < 1) = False" "(m < 1) = False" "(sz < 1) = False" "(length out < 6 + (k + m) * sz) = False"
    "rs_New lib k m = True"
    using dims len by simp_all
  show "FECDecode lib out =
      (case rs_Verify lib k m shards of Some True \<Rightarrow> fec_unprefix (concat (take k shards))
       | _ \<Rightarrow> fec_decode_shards lib k m (map Some shards))"
    unfolding FECDecode_def Let_def f(2-4) v2
    by (simp only: ok c simp_thms if_False sum.case prod.case sd shards) (simp add: fec_decode_shards_def split: option.splits bool.splits)
  show "FECDecodeWithErasures lib out idxs =
      (case fec_decode_shards lib k m (fec_erase (k + m) idxs (map Some shards)) of
         Inl e \<Rightarrow> Inl e | Inr r \<Rightarrow> Inr (r, length idxs))"
    unfolding FECDecodeWithErasures_def Let_def f(2-4) v2
    by (simp only: ok c simp_thms if_False sum.case prod.case sd shards) (simp add: fec_decode_shards_def fec_erase_def split: option.splits)
qed

lemma fec_erase_props:
  assumes "length ss = n"
  shows "length (fec_erase n idxs ss) = n"
    "i < n \<Longrightarrow> fec_erase n idxs ss ! i = (if int i \<in> set idxs then None else ss ! i)"
proof -
  have "length (fec_erase n idxs ss) = n \<and>
      (\<forall>i < n. fec_erase n idxs ss ! i = (if int i \<in> set idxs then None else ss ! i))"
    using assms
  proof (induction idxs arbitrary: ss)
    case (Cons x xs)
    let ?ss = "if x \<ge> 0 \<and> x < int n then ss[nat x := None] else ss"
    have "length ?ss = n" using Cons.prems by simp
    from Cons.IH [OF this] show ?case
      using Cons.prems by (auto simp: fec_erase_def nth_list_update)
  qed (simp add: fec_erase_def)
  then show "length (fec_erase n idxs ss) = n"
    "i < n \<Longrightarrow> fec_erase n idxs ss ! i = (if int i \<in> set idxs then None else ss ! i)" by auto
qed

lemma erased_from_erase:
  assumes "length shards = n" "card {i. i < n \<and> int i \<in> set idxs} \<le> m"
  shows "erased_from shards m (fec_erase n idxs (map Some shards))"
proof -
  note e = fec_erase_props [where ss = "map Some shards" and n = n and idxs = idxs]
  have "{i. i < n \<and> fec_erase n idxs (map Some shards) ! i = None} = {i. i < n \<and> int i \<in> set idxs}"
    using e(2) assms(1) by (auto split: if_splits)
  then show ?thesis using e assms by (auto simp: erased_from_def)
qed

section \<open>Properties\<close>

text \<open>C30: Forward error correction loses nothing. Whatever \<open>FECEncode\<close> accepts, with an
  interleaving depth of at most 16 if interleaving is on, \<open>FECDecode\<close> turns back into the
  data; and \<open>FECDecodeWithErasures\<close> does so even if any of the shards, at most as many as
  there are parity shards, are erased. Assumed of the Reed-Solomon package: its documented
  behaviour for these shard counts.\<close>

theorem fec_roundtrip:
  assumes "rs_documented lib (nat dataShards) (nat parityShards)"
    and "FECEncode lib data dataShards parityShards opts = Inr out"
    and "\<And>o'. opts = Some o' \<Longrightarrow> eo_Interleave o' \<Longrightarrow> eo_InterleaveDepth o' \<le> 16"
  shows "FECDecode lib out = Inr data \<and>
    (\<forall>idxs. card {i. i < nat (dataShards + parityShards) \<and> int i \<in> set idxs} \<le> nat parityShards \<longrightarrow>
       FECDecodeWithErasures lib out idxs = Inr (data, length idxs))"
proof -
  define opt where "opt = (case opts of Some o' \<Rightarrow> o' | None \<Rightarrow> \<lparr> eo_Interleave = False, eo_InterleaveDepth = 0 \<rparr>)"
  define k where "k = nat dataShards"
  define m where "m = nat parityShards"
  have depth: "eo_Interleave opt \<Longrightarrow> eo_InterleaveDepth opt \<le> 16"
    using assms(3) by (auto simp: opt_def split: option.splits)
  obtain sz shards where s: "0 < sz" "sz < 65536" "1 \<le> k" "k < 256" "1 \<le> m" "m < 256" "rs_New lib k m"
    "length shards = k + m" "\<forall>s \<in> set shards. length s = sz" "rs_Verify lib k m shards = Some True"
    "\<And>es. erased_from shards m es \<Longrightarrow> rs_Reconstruct lib k m es = Some shards"
    "fec_unprefix (concat (take k shards)) = Inr data"
    "out = fec_encoded k m sz (fec_flags opt)
       (if eo_Interleave opt \<and> eo_InterleaveDepth opt > 0
        then FECInterleave (concat shards) (eo_InterleaveDepth opt) else concat shards)"
    using FECEncode_InrD [OF assms(2,1) opt_def k_def m_def] by blast
  have "nat (dataShards + parityShards) = k + m" using s(3,5) by (simp add: k_def m_def)
  then show ?thesis
    using decoders_see_shards [OF s(1-9) depth s(13)] erased_from_erase [OF s(8), of _ m] s(10,11,12)
    by (simp add: fec_decode_shards_def m_def [symmetric])
qed

text \<open>A repetition code as a Reed-Solomon package with one data shard.\<close>

definition rs_repetition :: rs_lib where
  "rs_repetition = \<lparr> rs_New = (\<lambda>k m. k = 1),
     rs_Encode = (\<lambda>k m shards. Some (replicate (length shards) (hd shards))),
     rs_Verify = (\<lambda>k m shards. Some (\<forall>s \<in> set shards. s = hd shards)),
     rs_Reconstruct = (\<lambda>k m es. map_option (\<lambda>e. replicate (length es) (the e)) (List.find (\<lambda>e. e \<noteq> None) es)) \<rparr>"

lemma rs_repetition_documented: "rs_documented rs_repetition 1 m"
proof -
  have rec: "rs_Reconstruct rs_repetition 1 m es = Some ([s] @ replicate m s)"
    if es: "erased_from ([s] @ replicate m s) m es" for s es
  proof -
    have "([s] @ replicate m s) ! i = s" if "i < Suc m" for i using that by (cases i) simp_all
    then have all: "\<forall>i < Suc m. es ! i = None \<or> es ! i = Some s" and len: "length es = Suc m"
      using es unfolding erased_from_def by auto
    have "\<exists>i < Suc m. es ! i \<noteq> None"
    proof (rule ccontr)
      assume "\<not> ?thesis"
      then have "{i. i < length es \<and> es ! i = None} = {..<Suc m}" using len by auto
      then show False using es by (simp add: erased_from_def)
    qed
    then obtain e where "List.find (\<lambda>e. e \<noteq> None) es = Some e"
      using len by (cases "List.find (\<lambda>e. e \<noteq> None) es") (auto simp: find_None_iff, metis nth_mem option.discI)
    moreover from this have "e = Some s" using all len by (auto simp: find_Some_iff)
    ultimately show ?thesis using len by (simp add: rs_repetition_def)
  qed
  show ?thesis
    unfolding rs_documented_def
  proof (intro conjI allI impI)
    show "rs_New rs_repetition 1 m" by (simp add: rs_repetition_def)
    fix sz and data parity :: "bytes list"
    assume d: "0 < sz" "length data = 1" "length parity = m" "\<forall>s \<in> set (data @ parity). length s = sz"
    then obtain s where s: "data = [s]" by (auto simp: length_Suc_conv)
    show "\<exists>par. rs_Encode rs_repetition 1 m (data @ parity) = Some (data @ par) \<and> length par = m \<and>
           (\<forall>s \<in> set par. length s = sz) \<and> rs_Verify rs_repetition 1 m (data @ par) = Some True \<and>
           (\<forall>es. erased_from (data @ par) m es \<longrightarrow> rs_Reconstruct rs_repetition 1 m es = Some (data @ par))"
      using d rec by (intro exI [of _ "replicate m s"]) (auto simp: s rs_repetition_def)
  qed
qed

theorem fec_roundtrip_witness:
  "\<exists>out. FECEncode rs_repetition [7, 8, 9] 1 2 (Some \<lparr> eo_Interleave = True, eo_InterleaveDepth = 4 \<rparr>) = Inr out \<and>
     FECDecode rs_repetition out = Inr [7, 8, 9] \<and>
     FECDecodeWithErasures rs_repetition out [0, 2] = Inr ([7, 8, 9], 2)"
proof -
  let ?o = "Some \<lparr> eo_Interleave = True, eo_InterleaveDepth = 4 \<rparr>"
  obtain out where out: "FECEncode rs_repetition [7, 8, 9] 1 2 ?o = Inr out"
    by (simp add: FECEncode_def Let_def rs_repetition_def fec_pad_def)
  have "{i. i < nat (1 + 2) \<and> int i \<in> set [0, 2]} = {0, 2}" by auto
  moreover have "card {0, 2 :: nat} \<le> 2" by simp
  ultimately have "card {i. i < nat (1 + 2) \<and> int i \<in> set [0, 2]} \<le> nat 2" by simp
  moreover have "rs_documented rs_repetition (nat 1) (nat 2)" using rs_repetition_documented by simp
  ultimately have "FECDecode rs_repetition out = Inr [7, 8, 9] \<and>
      FECDecodeWithErasures rs_repetition out [0, 2] = Inr ([7, 8, 9], length [0, 2 :: int])"
    using fec_roundtrip [OF _ out] by auto
  then show ?thesis using out by (intro exI [of _ out]) simp
qed

lemma fecProfiles_bounds:
  assumes "LookupFECProfile name = Some p"
  shows "fp_DataShards p = 0 \<and> fp_ParityShards p = 0 \<or>
    4 \<le> fp_DataShards p \<and> fp_DataShards p \<le> 8 \<and> 2 \<le> fp_ParityShards p \<and> fp_ParityShards p \<le> 3 \<and>
    fp_InterleaveDepth p \<le> 16 \<and> (fp_Interleave p \<longleftrightarrow> 0 < fp_InterleaveDepth p)"
proof -
  have "(name, p) \<in> set fecProfiles" using assms by (auto simp: LookupFECProfile_def dest: map_of_SomeD)
  then show ?thesis by (auto simp: fecProfiles_def fec_profile_def)
qed

text \<open>The parameters of a known channel. If the \<open>profile\<close> parameter names a profile,
  or says \<open>auto\<close> and the \<open>channel\<close> parameter names one, \<open>ResolveFECParams\<close> returns that
  profile's parameters, whatever explicit shard counts the parameters contain. A profile
  that asks for error correction, adapted to any health score, keeps its data shards and
  gains at most two parity shards, none when healthy; \<open>FECEncode\<close> accepts its shard counts,
  and its interleaving depth is one that the header can carry.\<close>

theorem fec_profile_parameters:
  assumes "LookupFECProfile name = Some p"
  shows "(param_get params ''profile'' = name \<and> name \<noteq> ''auto'' \<and> name \<noteq> [] \<or>
      param_get params ''profile'' = ''auto'' \<and> param_get params ''channel'' = name \<longrightarrow>
        ResolveFECParams params = (if fp_DataShards p = 0 then (0, 0, False, 0)
          else (fp_DataShards p, fp_ParityShards p, fp_Interleave p, fp_InterleaveDepth p))) \<and>
    (let q = AdaptFECProfile p health
     in fp_DataShards q = fp_DataShards p \<and> fp_ParityShards p \<le> fp_ParityShards q \<and>
        fp_ParityShards q \<le> fp_ParityShards p + 2 \<and> (80 < health \<longrightarrow> q = p) \<and>
        fp_InterleaveDepth q \<le> 16 \<and>
        (fp_DataShards p \<noteq> 0 \<longrightarrow>
           FECEncode lib data (fp_DataShards q) (fp_ParityShards q) opts \<notin>
             {Inl TotalShardsRange} \<union> range (Inl \<circ> DataShardsRange) \<union> range (Inl \<circ> ParityShardsRange)))"
proof -
  note b = fecProfiles_bounds [OF assms]
  define q where "q = AdaptFECProfile p health"
  have q: "fp_DataShards q = fp_DataShards p" "fp_ParityShards p \<le> fp_ParityShards q"
    "fp_ParityShards q \<le> fp_ParityShards p + 2" "80 < health \<longrightarrow> q = p" "fp_InterleaveDepth q = fp_InterleaveDepth p"
    using b by (auto simp: q_def AdaptFECProfile_def Let_def)
  have "fp_InterleaveDepth p \<le> 16"
  proof -
    have "(name, p) \<in> set fecProfiles" using assms by (auto simp: LookupFECProfile_def dest: map_of_SomeD)
    then show ?thesis by (auto simp: fecProfiles_def fec_profile_def)
  qed
  moreover have "FECEncode lib data (fp_DataShards q) (fp_ParityShards q) opts \<notin>
      {Inl TotalShardsRange} \<union> range (Inl \<circ> DataShardsRange) \<union> range (Inl \<circ> ParityShardsRange)"
    if "fp_DataShards p \<noteq> 0"
  proof -
    have "1 \<le> fp_DataShards q" "fp_DataShards q \<le> 255" "1 \<le> fp_ParityShards q" "fp_ParityShards q \<le> 255"
      "fp_DataShards q + fp_ParityShards q \<le> 256" using b q that by auto
    then show ?thesis by (auto simp: FECEncode_def Let_def split: option.splits if_splits)
  qed
  ultimately show ?thesis
    using q assms by (auto simp: q_def [symmetric] Let_def ResolveFECParams_def LookupFECProfile_def)
qed

text \<open>A depth above 16 is not carried by the header (it announces 16), while the encoder
  interleaves with the full depth; undoing 16 does not undo 17.\<close>

lemma fec_depth_17_lost:
  "int (unat (drop_bit 1 (fec_flags \<lparr> eo_Interleave = True, eo_InterleaveDepth = 17 \<rparr>) AND 0x0F)) + 1 = 16"
  "FECDeinterleave (FECInterleave (map of_nat [0..<34]) 17) 16 \<noteq> map of_nat [0..<34]"
  using fec_flags_depth(2) [of "\<lparr> eo_Interleave = True, eo_InterleaveDepth = 17 \<rparr>"]
  by (simp, code_simp)

end
