(* ===== verification/Dedup.thy ===== *)
theory Dedup
  imports Runs
begin

text \<open>
  Idempotent message processing, \<open>src/internal/dedup\<close>: the in-memory tracker with its
  pruner (\<open>dedup.go\<close>) and the Redis tracker (\<open>redis.go\<close>). The clock is an argument. The
  pruner goroutine is an event that may happen at any time. Redis is an argument: the
  function that performs one \<open>SET key 1 NX PX ttl\<close> on the server.
\<close>

record MemoryDedup =
  md_seen :: "(string, instant) fmap"
  md_ttl :: int

definition NewMemoryDedup :: "int \<Rightarrow> MemoryDedup" where
  "NewMemoryDedup ttl = \<lparr> md_seen = fmempty, md_ttl = ttl \<rparr>"

definition md_IsNew :: "instant \<Rightarrow> string \<Rightarrow> MemoryDedup \<Rightarrow> bool \<times> MemoryDedup" where
  "md_IsNew now key d =
     (case fmlookup (md_seen d) key of
        Some e \<Rightarrow> if now < e then (False, d)
                  else (True, d \<lparr> md_seen := fmupd key (now + md_ttl d) (md_seen d) \<rparr>)
      | None \<Rightarrow> (True, d \<lparr> md_seen := fmupd key (now + md_ttl d) (md_seen d) \<rparr>))"

definition md_prune :: "instant \<Rightarrow> MemoryDedup \<Rightarrow> MemoryDedup" where
  "md_prune now d = d \<lparr> md_seen := fmdrop_vals (\<lambda>e. now > e) (md_seen d) \<rparr>"

text \<open>Redis answers \<open>OK\<close>, a null reply, some other value, or an error.\<close>

datatype redis_reply = ReplyOK | ReplyNil | ReplyOther | ReplyError

record RedisDedup =
  rd_ttl :: int
  rd_prefix :: string

definition NewRedisDedup :: "int \<Rightarrow> string \<Rightarrow> RedisDedup" where
  "NewRedisDedup ttl prefix = \<lparr> rd_ttl = ttl, rd_prefix = (if prefix = [] then ''dedup:'' else prefix) \<rparr>"

text \<open>\<open>setnx now key ms\<close> is the server's step; a duration is in nanoseconds and
  \<open>Milliseconds\<close> truncates.\<close>

definition rd_IsNew :: "(instant \<Rightarrow> string \<Rightarrow> int \<Rightarrow> 'r \<Rightarrow> redis_reply \<times> 'r) \<Rightarrow> RedisDedup \<Rightarrow>
    instant \<Rightarrow> string \<Rightarrow> 'r \<Rightarrow> bool \<times> 'r" where
  "rd_IsNew setnx d now key r =
     (let (reply, r') = setnx now (rd_prefix d @ key) (rd_ttl d div 1000000) r
      in (case reply of ReplyNil \<Rightarrow> False | ReplyError \<Rightarrow> True | ReplyOK \<Rightarrow> True | ReplyOther \<Rightarrow> False, r'))"

section \<open>The contract\<close>

text \<open>A key is new when no call that was told "new" happened less than the time to live
  before. The state remembers the last such call per key.\<close>

type_synonym dedup_spec = "string \<Rightarrow> instant option"

definition spec_IsNew :: "int \<Rightarrow> instant \<Rightarrow> string \<Rightarrow> dedup_spec \<Rightarrow> bool \<times> dedup_spec" where
  "spec_IsNew ttl now key f =
     (case f key of Some t \<Rightarrow> if now < t + ttl then (False, f) else (True, f(key \<mapsto> now))
      | None \<Rightarrow> (True, f(key \<mapsto> now)))"

datatype dedup_event = Check instant string | Prune instant

fun dedup_time :: "dedup_event \<Rightarrow> instant" where
  "dedup_time (Check now key) = now"
| "dedup_time (Prune now) = now"

fun md_step :: "dedup_event \<Rightarrow> MemoryDedup \<Rightarrow> bool option \<times> MemoryDedup" where
  "md_step (Check now key) d = (let (b, d') = md_IsNew now key d in (Some b, d'))"
| "md_step (Prune now) d = (None, md_prune now d)"

fun spec_step :: "int \<Rightarrow> dedup_event \<Rightarrow> dedup_spec \<Rightarrow> bool option \<times> dedup_spec" where
  "spec_step ttl (Check now key) f = (let (b, f') = spec_IsNew ttl now key f in (Some b, f'))"
| "spec_step ttl (Prune now) f = (None, f)"

text \<open>From time \<open>now\<close> on, an entry blocks its key exactly as long as the specification does.\<close>

definition md_rel :: "int \<Rightarrow> instant \<Rightarrow> MemoryDedup \<Rightarrow> dedup_spec \<Rightarrow> bool" where
  "md_rel ttl now d f \<longleftrightarrow> md_ttl d = ttl \<and>
     (\<forall>k t. now \<le> t \<longrightarrow> (\<exists>e. fmlookup (md_seen d) k = Some e \<and> t < e) = (\<exists>u. f k = Some u \<and> t < u + ttl))"

lemma md_rel_new: "md_rel ttl now (NewMemoryDedup ttl) (\<lambda>_. None)"
  by (simp add: md_rel_def NewMemoryDedup_def)

lemma md_rel_IsNew:
  assumes "md_rel ttl now d f" "now \<le> t"
  shows "fst (md_IsNew t k d) = fst (spec_IsNew ttl t k f)"
    "md_rel ttl t (snd (md_IsNew t k d)) (snd (spec_IsNew ttl t k f))"
proof -
  have blocked: "(\<exists>e. fmlookup (md_seen d) k = Some e \<and> t < e) = (\<exists>u. f k = Some u \<and> t < u + ttl)"
    using assms unfolding md_rel_def by blast
  then show "fst (md_IsNew t k d) = fst (spec_IsNew ttl t k f)"
    by (auto simp: md_IsNew_def spec_IsNew_def split: option.splits)
  have new: "md_rel ttl t (d \<lparr> md_seen := fmupd k (t + md_ttl d) (md_seen d) \<rparr>) (f(k \<mapsto> t))"
    using assms by (auto simp: md_rel_def)
  have old: "md_rel ttl t d f" using assms by (auto simp: md_rel_def)
  show "md_rel ttl t (snd (md_IsNew t k d)) (snd (spec_IsNew ttl t k f))"
    using new old blocked by (auto simp: md_IsNew_def spec_IsNew_def split: option.splits)
qed

lemma md_rel_prune:
  assumes "md_rel ttl now d f" "now \<le> t"
  shows "md_rel ttl t (md_prune t d) f"
proof -
  have "(\<exists>e. fmlookup (md_seen (md_prune t d)) k = Some e \<and> u < e) = (\<exists>e. fmlookup (md_seen d) k = Some e \<and> u < e)"
    if "t \<le> u" for k u
    using that by (cases "fmlookup (md_seen d) k") (auto simp: md_prune_def fmlookup_drop_vals)
  then show ?thesis using assms by (simp add: md_rel_def md_prune_def)
qed

interpretation md: timed_simulation md_step "spec_step ttl" dedup_time "md_rel ttl" for ttl
proof unfold_locales
  fix now s t e assume r: "md_rel ttl now s t" "now \<le> dedup_time e"
  show "fst (md_step e s) = fst (spec_step ttl e t)"
    using r md_rel_IsNew(1) by (cases e) (auto simp: case_prod_beta)
  show "md_rel ttl (dedup_time e) (snd (md_step e s)) (snd (spec_step ttl e t))"
    using r md_rel_IsNew(2) md_rel_prune by (cases e) (auto simp: case_prod_beta)
qed

section \<open>Redis\<close>

text \<open>What Redis documents for \<open>SET key value NX PX ms\<close>: with \<open>live r t k\<close> for "key \<open>k\<close>
  exists at time \<open>t\<close>", the command sets an absent key, answers \<open>OK\<close> and lets it exist for
  the given time; it answers null and changes nothing where the key exists.\<close>

definition setnx_documented ::
  "(instant \<Rightarrow> string \<Rightarrow> int \<Rightarrow> 'r \<Rightarrow> redis_reply \<times> 'r) \<Rightarrow> ('r \<Rightarrow> instant \<Rightarrow> string \<Rightarrow> bool) \<Rightarrow> bool" where
  "setnx_documented setnx live \<longleftrightarrow>
     (\<forall>now k ms r. 0 < ms \<longrightarrow>
        (if live r now k then fst (setnx now k ms r) = ReplyNil \<and> live (snd (setnx now k ms r)) = live r
         else fst (setnx now k ms r) = ReplyOK \<and>
           (\<forall>t \<ge> now. \<forall>k'. live (snd (setnx now k ms r)) t k' =
              (if k' = k then t < now + ms * 1000000 else live r t k'))))"

fun rd_step :: "(instant \<Rightarrow> string \<Rightarrow> int \<Rightarrow> 'r \<Rightarrow> redis_reply \<times> 'r) \<Rightarrow> RedisDedup \<Rightarrow>
    dedup_event \<Rightarrow> 'r \<Rightarrow> bool option \<times> 'r" where
  "rd_step setnx d (Check now key) r = (let (b, r') = rd_IsNew setnx d now key r in (Some b, r'))"
| "rd_step setnx d (Prune now) r = (None, r)"

definition rd_rel :: "('r \<Rightarrow> instant \<Rightarrow> string \<Rightarrow> bool) \<Rightarrow> RedisDedup \<Rightarrow> instant \<Rightarrow> 'r \<Rightarrow> dedup_spec \<Rightarrow> bool" where
  "rd_rel live d now r f \<longleftrightarrow>
     (\<forall>k t. now \<le> t \<longrightarrow> live r t (rd_prefix d @ k) = (\<exists>u. f k = Some u \<and> t < u + rd_ttl d))"

lemma rd_simulates:
  assumes doc: "setnx_documented setnx live" and ttl: "rd_ttl d = ms * 1000000" "0 < ms"
  shows "timed_simulation (rd_step setnx d) (spec_step (rd_ttl d)) dedup_time (rd_rel live d)"
proof unfold_locales
  fix now r f e assume rel: "rd_rel live d now r f" and le: "now \<le> dedup_time e"
  have ms: "rd_ttl d div 1000000 = ms" using ttl(1) by simp
  have later: "rd_rel live d t r f" if "now \<le> t" for t using rel that by (auto simp: rd_rel_def)
  have "fst (rd_step setnx d e r) = fst (spec_step (rd_ttl d) e f) \<and>
    rd_rel live d (dedup_time e) (snd (rd_step setnx d e r)) (snd (spec_step (rd_ttl d) e f))"
  proof (cases e)
    case (Check t k)
    let ?k = "rd_prefix d @ k"
    have live: "live r t ?k = (\<exists>u. f k = Some u \<and> t < u + rd_ttl d)"
      using rel le Check by (simp add: rd_rel_def)
    show ?thesis
    proof (cases "live r t ?k")
      case True
      with doc ttl(2) have "fst (setnx t ?k ms r) = ReplyNil" "live (snd (setnx t ?k ms r)) = live r"
        unfolding setnx_documented_def by metis+
      moreover have "spec_IsNew (rd_ttl d) t k f = (False, f)" using True live by (auto simp: spec_IsNew_def)
      ultimately show ?thesis
        using later le Check by (simp add: rd_IsNew_def ms case_prod_beta rd_rel_def)
    next
      case False
      with doc ttl(2) have "fst (setnx t ?k ms r) = ReplyOK"
        "\<And>u k'. t \<le> u \<Longrightarrow> live (snd (setnx t ?k ms r)) u k' = (if k' = ?k then u < t + ms * 1000000 else live r u k')"
        unfolding setnx_documented_def by metis+
      moreover have "spec_IsNew (rd_ttl d) t k f = (True, f(k \<mapsto> t))"
        using False live by (auto simp: spec_IsNew_def split: option.splits)
      ultimately show ?thesis
        using rel le Check ttl(1) by (simp add: rd_IsNew_def ms case_prod_beta rd_rel_def)
    qed
  next
    case (Prune t)
    then show ?thesis using later le by simp
  qed
  then show "fst (rd_step setnx d e r) = fst (spec_step (rd_ttl d) e f)"
    "rd_rel live d (dedup_time e) (snd (rd_step setnx d e r)) (snd (spec_step (rd_ttl d) e f))" by auto
qed

section \<open>Properties\<close>

text \<open>C16: Over any sequence of calls in time order, with the pruner running whenever it
  likes, the in-memory deduplicator answers exactly as the specification: a key is new
  unless a call for it was told "new" less than the time to live before.\<close>

theorem dedup_refines_spec:
  assumes "sorted (map dedup_time es)"
  shows "fst (run md_step es (NewMemoryDedup ttl)) = fst (run (spec_step ttl) es (\<lambda>_. None))"
proof (cases es)
  case (Cons e es')
  then have "\<And>x. x \<in> set es \<Longrightarrow> dedup_time e \<le> dedup_time x" using assms by auto
  from md.run_sim [OF md_rel_new assms this] show ?thesis by blast
qed simp

theorem dedup_refines_spec_witness:
  "fst (run md_step [Check 0 ''a'', Check 5 ''a'', Prune 10, Check 10 ''a'', Check 12 ''b''] (NewMemoryDedup 10)) =
     [Some True, Some False, None, Some True, Some True]"
proof -
  let ?es = "[Check 0 ''a'', Check 5 ''a'', Prune 10, Check 10 ''a'', Check 12 ''b'']"
  have "fst (run md_step ?es (NewMemoryDedup 10)) = fst (run (spec_step 10) ?es (\<lambda>_. None))"
    by (rule dedup_refines_spec) simp
  then show ?thesis by (simp add: spec_IsNew_def)
qed

text \<open>C31: The two implementations are interchangeable. With a time to live of whole
  milliseconds and a Redis server that behaves as documented and has none of the keys, the
  Redis deduplicator gives, on every sequence of calls in time order, the answers of the
  in-memory one; if Redis fails, it lets the message through.\<close>

theorem dedup_redis_equivalent:
  assumes "setnx_documented setnx live" "0 < ms" "\<And>t k. \<not> live r t k" "sorted (map dedup_time es)"
    and "d = NewRedisDedup (ms * 1000000) prefix"
  shows "fst (run (rd_step setnx d) es r) = fst (run md_step es (NewMemoryDedup (ms * 1000000))) \<and>
    (\<forall>setnx' now key. fst (setnx' now (rd_prefix d @ key) ms r) = ReplyError \<longrightarrow> fst (rd_IsNew setnx' d now key r))"
proof -
  have ttl: "rd_ttl d = ms * 1000000" by (simp add: assms(5) NewRedisDedup_def)
  have rel: "rd_rel live d t r (\<lambda>_. None)" for t using assms(3) by (simp add: rd_rel_def)
  have "fst (run (rd_step setnx d) es r) = fst (run md_step es (NewMemoryDedup (ms * 1000000)))"
  proof (cases es)
    case (Cons e es')
    then have first: "\<And>x. x \<in> set es \<Longrightarrow> dedup_time e \<le> dedup_time x" using assms(4) by auto
    have "fst (run (rd_step setnx d) es r) = fst (run (spec_step (rd_ttl d)) es (\<lambda>_. None))"
      by (rule conjunct1, rule timed_simulation.run_sim [OF rd_simulates [OF assms(1) ttl assms(2)]],
          rule rel [of "dedup_time e"]) (fact assms(4), fact first)
    then show ?thesis
      using md.run_sim [OF md_rel_new assms(4) first] by (simp add: ttl)
  qed simp
  then show ?thesis by (simp add: rd_IsNew_def ttl case_prod_beta)
qed

text \<open>A Redis server reduced to this command.\<close>

definition toy_redis :: "instant \<Rightarrow> string \<Rightarrow> int \<Rightarrow> (string \<times> instant) list \<Rightarrow> redis_reply \<times> (string \<times> instant) list" where
  "toy_redis now k ms r =
     (case map_of r k of Some e \<Rightarrow> if now < e then (ReplyNil, r) else (ReplyOK, (k, now + ms * 1000000) # r)
      | None \<Rightarrow> (ReplyOK, (k, now + ms * 1000000) # r))"

definition toy_live :: "(string \<times> instant) list \<Rightarrow> instant \<Rightarrow> string \<Rightarrow> bool" where
  "toy_live r t k = (case map_of r k of Some e \<Rightarrow> t < e | None \<Rightarrow> False)"

lemma toy_redis_documented: "setnx_documented toy_redis toy_live"
  by (auto simp: setnx_documented_def toy_redis_def toy_live_def split: option.splits)

theorem dedup_redis_equivalent_witness:
  "fst (run (rd_step toy_redis (NewRedisDedup 5000000 [])) [Check 0 ''a'', Check 1 ''a''] []) =
   fst (run md_step [Check 0 ''a'', Check 1 ''a''] (NewMemoryDedup 5000000))"
  using dedup_redis_equivalent [OF toy_redis_documented, of 5 "[]" "[Check 0 ''a'', Check 1 ''a'']" "NewRedisDedup 5000000 []" "[]"]
  by (simp add: toy_live_def)

end
