(* ===== verification/Strings.thy ===== *)
theory Strings
  imports Prelude
begin

text \<open>
  What the components use of Go's \<open>strings\<close> package. A Go string is its list of bytes.
  Case mapping is the ASCII one: a component whose behaviour depends on the case mapping of
  other letters takes the mapping as an argument. \<open>TrimSpace\<close> knows every Unicode space.
\<close>

definition code :: "char \<Rightarrow> nat" where
  "code c = of_char c"

definition in_range :: "char \<Rightarrow> char \<Rightarrow> char \<Rightarrow> bool" where
  "in_range lo hi c \<longleftrightarrow> code lo \<le> code c \<and> code c \<le> code hi"

definition upper_char :: "char \<Rightarrow> char" where
  "upper_char c = (if in_range CHR ''a'' CHR ''z'' c then char_of (code c - 32) else c)"

definition lower_char :: "char \<Rightarrow> char" where
  "lower_char c = (if in_range CHR ''A'' CHR ''Z'' c then char_of (code c + 32) else c)"

definition ToUpper :: "string \<Rightarrow> string" where
  "ToUpper s = map upper_char s"

definition ToLower :: "string \<Rightarrow> string" where
  "ToLower s = map lower_char s"

lemma length_case [simp]: "length (ToUpper s) = length s" "length (ToLower s) = length s"
  by (simp_all add: ToUpper_def ToLower_def)

text \<open>The UTF-8 forms of the characters that \<open>unicode.IsSpace\<close> accepts.\<close>

definition space_runes :: "string list" where
  "space_runes =
     map (\<lambda>n. [char_of (n :: nat)]) [9, 10, 11, 12, 13, 32] @
     map (map char_of) ([[0xC2, 0x85], [0xC2, 0xA0], [0xE1, 0x9A, 0x80]] @
       map (\<lambda>n. [0xE2, 0x80, n]) [0x80, 0x81, 0x82, 0x83, 0x84, 0x85, 0x86, 0x87, 0x88, 0x89, 0x8A, 0xA8, 0xA9, 0xAF] @
       [[0xE2, 0x81, 0x9F], [0xE3, 0x80, 0x80 :: nat]])"

definition take_prefix :: "string \<Rightarrow> string list \<Rightarrow> nat option" where
  "take_prefix s ps = map_option length (List.find (\<lambda>p. take (length p) s = p) ps)"

function trim_left :: "string list \<Rightarrow> string \<Rightarrow> string" where
  "trim_left ps s = (case take_prefix s ps of Some n \<Rightarrow> if 0 < n \<and> n \<le> length s then trim_left ps (drop n s) else s | None \<Rightarrow> s)"
  by pat_completeness auto
termination
  by (relation "measure (\<lambda>(ps, s). length s)") auto

declare trim_left.simps [simp del]

definition TrimSpace :: "string \<Rightarrow> string" where
  "TrimSpace s = rev (trim_left (map rev space_runes) (rev (trim_left space_runes s)))"

text \<open>The first position of a substring.\<close>

fun index_of :: "string \<Rightarrow> string \<Rightarrow> nat option" where
  "index_of sub [] = (if sub = [] then Some 0 else None)"
| "index_of sub (c # s) =
     (if take (length sub) (c # s) = sub then Some 0 else map_option Suc (index_of sub s))"

lemma index_of_Some_iff:
  "index_of sub s = Some i \<longleftrightarrow>
     i \<le> length s \<and> take (length sub) (drop i s) = sub \<and> (\<forall>j < i. take (length sub) (drop j s) \<noteq> sub)"
proof (induction s arbitrary: i)
  case (Cons c s)
  show ?case
  proof (cases i)
    case 0
    then show ?thesis by (auto split: option.splits)
  next
    case (Suc k)
    have "(\<forall>j < Suc k. take (length sub) (drop j (c # s)) \<noteq> sub) \<longleftrightarrow>
        take (length sub) (c # s) \<noteq> sub \<and> (\<forall>j < k. take (length sub) (drop j s) \<noteq> sub)"
      by (auto simp: less_Suc_eq_0_disj)
    then show ?thesis using Cons.IH [of k] Suc by auto
  qed
qed auto

lemma index_of_None_iff:
  "index_of sub s = None \<longleftrightarrow> (\<forall>j \<le> length s. take (length sub) (drop j s) \<noteq> sub)"
proof (induction s)
  case (Cons c s)
  have "(\<forall>j \<le> length (c # s). take (length sub) (drop j (c # s)) \<noteq> sub) \<longleftrightarrow>
      take (length sub) (c # s) \<noteq> sub \<and> (\<forall>j \<le> length s. take (length sub) (drop j s) \<noteq> sub)"
    by (simp only: list.size(4) add_Suc_right add_0_right less_Suc_eq_le [symmetric] All_less_Suc2 drop_0 drop_Suc_Cons)
  then show ?case using Cons by auto
qed simp

text \<open>Text without leading or trailing spaces is its own trimming.\<close>

lemma trim_left_id: "take_prefix s ps = None \<Longrightarrow> trim_left ps s = s"
  by (subst trim_left.simps) simp

section \<open>Split and join\<close>

text \<open>\<open>strings.Split\<close> and \<open>strings.Join\<close> with a separator of one byte: splitting never
  yields an empty list.\<close>

fun Split :: "char \<Rightarrow> string \<Rightarrow> string list" where
  "Split sep [] = [[]]"
| "Split sep (c # s) =
     (if c = sep then [] # Split sep s else (c # hd (Split sep s)) # tl (Split sep s))"

fun Join :: "string list \<Rightarrow> char \<Rightarrow> string" where
  "Join [] sep = []"
| "Join [w] sep = w"
| "Join (w # v # ws) sep = w @ sep # Join (v # ws) sep"

lemma Split_neq_Nil [simp]: "Split sep s \<noteq> []"
  by (induction s) auto

lemma Join_Cons: "ws \<noteq> [] \<Longrightarrow> Join (w # ws) sep = w @ sep # Join ws sep"
  by (cases ws) auto

lemma Split_append_sep: "sep \<notin> set w \<Longrightarrow> Split sep (w @ sep # s) = w # Split sep s"
  by (induction w) auto

lemma Split_word: "sep \<notin> set w \<Longrightarrow> Split sep w = [w]"
  by (induction w) auto

lemma Split_parts: "w \<in> set (Split sep s) \<Longrightarrow> sep \<notin> set w"
proof (induction s arbitrary: w)
  case (Cons c s)
  have "sep \<notin> set (hd (Split sep s))" using Cons.IH by simp
  moreover have "set (tl (Split sep s)) \<subseteq> set (Split sep s)" by (meson list.set_sel(2) Split_neq_Nil subsetI)
  ultimately show ?case using Cons by (auto split: if_splits)
qed simp

lemma Join_Split: "Join (Split sep s) sep = s"
proof (induction s)
  case (Cons c s)
  then show ?case
    by (cases "Split sep s") (auto simp: Join_Cons, metis Join.simps(2) Join_Cons append_Cons)
qed simp

lemma Split_Join: "ws \<noteq> [] \<Longrightarrow> \<forall>w \<in> set ws. sep \<notin> set w \<Longrightarrow> Split sep (Join ws sep) = ws"
  by (induction ws sep rule: Join.induct) (auto simp: Split_word Split_append_sep)

section \<open>Strings as bytes\<close>

definition str_bytes :: "string \<Rightarrow> bytes" where
  "str_bytes s = map (\<lambda>c. of_nat (code c)) s"

lemma str_bytes_simps [simp]:
  "str_bytes [] = []" "str_bytes (s @ t) = str_bytes s @ str_bytes t" "length (str_bytes s) = length s"
  by (simp_all add: str_bytes_def)

lemma str_bytes_inject [simp]: "str_bytes s = str_bytes t \<longleftrightarrow> s = t"
proof -
  have "unat (of_nat (code c) :: byte) = code c" for c
    by (simp add: code_def unat_of_nat take_bit_nat_def)
  then have "inj (\<lambda>c. of_nat (code c) :: byte)" by (metis code_def injI of_char_eq_iff)
  then show ?thesis by (simp add: str_bytes_def inj_map_eq_map)
qed

end
