(* ===== verification/Crypto.thy ===== *)
theory Crypto
  imports Strings
begin

text \<open>
  The message encryption of \<open>internal/crypto\<close>: AES-GCM with a nonce in front, hexadecimal
  text, and the store of versioned device keys. AES-GCM and SHA-256 are parameters; the
  random bytes an operation draws and the clock are arguments.
\<close>

section \<open>AES-GCM\<close>

text \<open>Sealing and opening under a key and a nonce, with additional data. The result of sealing
  is the ciphertext followed by the tag of 16 bytes.\<close>

record aead =
  gcm_Seal :: "bytes \<Rightarrow> bytes \<Rightarrow> bytes \<Rightarrow> bytes \<Rightarrow> bytes"
  gcm_Open :: "bytes \<Rightarrow> bytes \<Rightarrow> bytes \<Rightarrow> bytes \<Rightarrow> bytes option"

definition aead_documented :: "aead \<Rightarrow> bool" where
  "aead_documented A \<longleftrightarrow> (\<forall>key nonce p aad. length (gcm_Seal A key nonce p aad) = length p + 16) \<and>
     (\<forall>key nonce c p aad. gcm_Open A key nonce c aad = Some p \<longleftrightarrow> c = gcm_Seal A key nonce p aad)"

text \<open>An instance with the documented behaviour, for concrete evaluations.\<close>

definition toy_gcm :: aead where
  "toy_gcm = \<lparr>gcm_Seal = (\<lambda>key nonce p aad. p @ replicate 16 7),
     gcm_Open = (\<lambda>key nonce c aad. if 16 \<le> length c \<and> drop (length c - 16) c = replicate 16 7
        then Some (take (length c - 16) c) else None)\<rparr>"

lemma toy_gcm_documented: "aead_documented toy_gcm"
  unfolding aead_documented_def
proof (intro conjI allI)
  fix key nonce c p aad
  show "gcm_Open toy_gcm key nonce c aad = Some p \<longleftrightarrow> c = gcm_Seal toy_gcm key nonce p aad"
    by (auto simp: toy_gcm_def) (metis append_take_drop_id)
qed (simp add: toy_gcm_def)

section \<open>Encrypted messages\<close>

datatype crypto_err = BadCipherKey | RandomFailed | TooShort | DecryptFailed | KeyLength | NoKey | NoVersion
  | PassthroughMode | NoMaterial | BadHex

text \<open>\<open>aes.NewCipher\<close> takes keys of 16, 24 and 32 bytes.\<close>

definition aes_key :: "bytes \<Rightarrow> bool" where
  "aes_key key \<longleftrightarrow> length key \<in> {16, 24, 32}"

text \<open>The random nonce is an argument: \<open>None\<close> when the system has no random bytes.\<close>

definition Encrypt :: "aead \<Rightarrow> bytes option \<Rightarrow> bytes \<Rightarrow> bytes \<Rightarrow> crypto_err + bytes" where
  "Encrypt A rnd key plaintext =
     (if \<not> aes_key key then Inl BadCipherKey
      else case rnd of None \<Rightarrow> Inl RandomFailed | Some nonce \<Rightarrow> Inr (nonce @ gcm_Seal A key nonce plaintext []))"

definition Decrypt :: "aead \<Rightarrow> bytes \<Rightarrow> bytes \<Rightarrow> crypto_err + bytes" where
  "Decrypt A key ciphertext =
     (if length ciphertext < 28 then Inl TooShort
      else if \<not> aes_key key then Inl BadCipherKey
      else case gcm_Open A key (take 12 ciphertext) (drop 12 ciphertext) [] of
             None \<Rightarrow> Inl DecryptFailed
           | Some plaintext \<Rightarrow> Inr plaintext)"

lemma Decrypt_Encrypt:
  assumes "aead_documented A" "Encrypt A (Some nonce) key plaintext = Inr c" "length nonce = 12"
  shows "Decrypt A key c = Inr plaintext"
proof -
  have "gcm_Open A key nonce (gcm_Seal A key nonce plaintext []) [] = Some plaintext"
    using assms(1) by (simp add: aead_documented_def)
  moreover have "length (gcm_Seal A key nonce plaintext []) = length plaintext + 16"
    using assms(1) by (simp add: aead_documented_def)
  ultimately show ?thesis
    using assms(2,3) by (auto simp: Encrypt_def Decrypt_def split: if_splits)
qed

section \<open>Hexadecimal text\<close>

definition hex_digits :: string where "hex_digits = ''0123456789abcdef''"

definition hex_byte :: "byte \<Rightarrow> string" where
  "hex_byte b = [hex_digits ! (unat b div 16), hex_digits ! (unat b mod 16)]"

definition hex_EncodeToString :: "bytes \<Rightarrow> string" where
  "hex_EncodeToString bs = concat (map hex_byte bs)"

definition hex_val :: "char \<Rightarrow> nat option" where
  "hex_val c =
     (if in_range CHR ''0'' CHR ''9'' c then Some (code c - 48)
      else if in_range CHR ''a'' CHR ''f'' c then Some (code c - 87)
      else if in_range CHR ''A'' CHR ''F'' c then Some (code c - 55) else None)"

fun hex_DecodeString :: "string \<Rightarrow> bytes option" where
  "hex_DecodeString [] = Some []"
| "hex_DecodeString [c] = None"
| "hex_DecodeString (c # d # s) =
     (case (hex_val c, hex_val d) of
        (Some h, Some l) \<Rightarrow> map_option ((#) (of_nat (16 * h + l))) (hex_DecodeString s)
      | _ \<Rightarrow> None)"

lemma hex_val_digit: "\<forall>d < 16. hex_val (hex_digits ! d) = Some d"
  by code_simp

lemma hex_Decode_byte: "hex_DecodeString (hex_byte b @ s) = map_option ((#) b) (hex_DecodeString s)"
proof -
  have "unat b < 256" by simp
  then have "unat b div 16 < 16" by (simp only: less_mult_imp_div_less)
  then have "hex_val (hex_digits ! (unat b div 16)) = Some (unat b div 16)"
    "hex_val (hex_digits ! (unat b mod 16)) = Some (unat b mod 16)"
    using hex_val_digit by auto
  then show ?thesis
    by (simp add: hex_byte_def del: of_nat_add of_nat_mult)
qed

lemma hex_Decode_Encode: "hex_DecodeString (hex_EncodeToString bs) = Some bs"
  by (induction bs) (simp_all add: hex_EncodeToString_def hex_Decode_byte)

lemma hex_Encode_Nil [simp]: "hex_EncodeToString bs = [] \<longleftrightarrow> bs = []"
  by (cases bs) (simp_all add: hex_EncodeToString_def hex_byte_def)

section \<open>Device keys\<close>

record KeyEntry =
  k_DeviceIMEI :: string
  k_Version :: nat
  k_KeyHex :: string
  k_KeyHashHex :: string
  k_Mode :: string
  k_CreatedAt :: instant

type_synonym KeyStore = "(string, KeyEntry list) fmap"

definition NewKeyStore :: KeyStore where "NewKeyStore = fmempty"

definition KeyHash :: "(bytes \<Rightarrow> bytes) \<Rightarrow> bytes \<Rightarrow> string" where
  "KeyHash sha256 key = hex_EncodeToString (sha256 key)"

definition versions :: "KeyStore \<Rightarrow> string \<Rightarrow> KeyEntry list" where
  "versions ks imei = (case fmlookup ks imei of None \<Rightarrow> [] | Some vs \<Rightarrow> vs)"

definition new_entry :: "(bytes \<Rightarrow> bytes) \<Rightarrow> instant \<Rightarrow> KeyStore \<Rightarrow> string \<Rightarrow> bytes \<Rightarrow> string \<Rightarrow> KeyEntry" where
  "new_entry sha256 now ks imei key mode =
     \<lparr>k_DeviceIMEI = imei, k_Version = length (versions ks imei) + 1,
      k_KeyHex = (if mode = ''decrypt'' then hex_EncodeToString key else []),
      k_KeyHashHex = KeyHash sha256 key, k_Mode = mode, k_CreatedAt = now\<rparr>"

definition StoreKey :: "(bytes \<Rightarrow> bytes) \<Rightarrow> instant \<Rightarrow> string \<Rightarrow> bytes \<Rightarrow> string \<Rightarrow> KeyStore \<Rightarrow> (crypto_err + KeyEntry) \<times> KeyStore" where
  "StoreKey sha256 now imei key mode ks =
     (if length key \<noteq> 32 then (Inl KeyLength, ks)
      else let entry = new_entry sha256 now ks imei key mode
           in (Inr entry, fmupd imei (versions ks imei @ [entry]) ks))"

text \<open>\<open>GenerateKey\<close> draws 32 random bytes.\<close>

definition GenerateAndStore :: "(bytes \<Rightarrow> bytes) \<Rightarrow> instant \<Rightarrow> bytes option \<Rightarrow> string \<Rightarrow> string \<Rightarrow> KeyStore
    \<Rightarrow> (crypto_err + KeyEntry \<times> bytes) \<times> KeyStore" where
  "GenerateAndStore sha256 now rnd imei mode ks =
     (case rnd of
        None \<Rightarrow> (Inl RandomFailed, ks)
      | Some key \<Rightarrow>
          let entry = new_entry sha256 now ks imei key mode
          in (Inr (entry, key), fmupd imei (versions ks imei @ [entry]) ks))"

definition GetLatest :: "string \<Rightarrow> KeyStore \<Rightarrow> crypto_err + KeyEntry" where
  "GetLatest imei ks = (let vs = versions ks imei in if vs = [] then Inl NoKey else Inr (vs ! (length vs - 1)))"

definition GetVersion :: "string \<Rightarrow> int \<Rightarrow> KeyStore \<Rightarrow> crypto_err + KeyEntry" where
  "GetVersion imei version ks =
     (let vs = versions ks imei
      in if version < 1 \<or> version > int (length vs) then Inl NoVersion else Inr (vs ! (nat version - 1)))"

definition ListVersions :: "string \<Rightarrow> KeyStore \<Rightarrow> KeyEntry list" where
  "ListVersions imei ks = map (\<lambda>v. v\<lparr>k_KeyHex := []\<rparr>) (versions ks imei)"

definition DecryptMessage :: "aead \<Rightarrow> string \<Rightarrow> bytes \<Rightarrow> KeyStore \<Rightarrow> crypto_err + bytes" where
  "DecryptMessage A imei ciphertext ks =
     (case GetLatest imei ks of
        Inl e \<Rightarrow> Inl e
      | Inr entry \<Rightarrow>
          if k_Mode entry \<noteq> ''decrypt'' then Inl PassthroughMode
          else if k_KeyHex entry = [] then Inl NoMaterial
          else case hex_DecodeString (k_KeyHex entry) of None \<Rightarrow> Inl BadHex | Some key \<Rightarrow> Decrypt A key ciphertext)"

definition EncryptMessage :: "aead \<Rightarrow> bytes option \<Rightarrow> string \<Rightarrow> bytes \<Rightarrow> KeyStore \<Rightarrow> crypto_err + bytes" where
  "EncryptMessage A rnd imei plaintext ks =
     (case GetLatest imei ks of
        Inl e \<Rightarrow> Inl e
      | Inr entry \<Rightarrow>
          if k_KeyHex entry = [] then Inl NoMaterial
          else case hex_DecodeString (k_KeyHex entry) of None \<Rightarrow> Inl BadHex | Some key \<Rightarrow> Encrypt A rnd key plaintext)"

definition DeviceCount :: "KeyStore \<Rightarrow> nat" where "DeviceCount ks = fcard (fmdom ks)"

section \<open>Runs of the key store\<close>

datatype ks_event = Store_key instant string bytes string | Generate instant "bytes option" string string

fun ks_step :: "(bytes \<Rightarrow> bytes) \<Rightarrow> KeyStore \<Rightarrow> ks_event \<Rightarrow> KeyStore" where
  "ks_step sha256 ks (Store_key now imei key mode) = snd (StoreKey sha256 now imei key mode ks)"
| "ks_step sha256 ks (Generate now rnd imei mode) = snd (GenerateAndStore sha256 now rnd imei mode ks)"

text \<open>The keys an event adds for a device, in order, with their modes.\<close>

fun key_of :: "string \<Rightarrow> ks_event \<Rightarrow> (bytes \<times> string) list" where
  "key_of d (Store_key now imei key mode) = (if imei = d \<and> length key = 32 then [(key, mode)] else [])"
| "key_of d (Generate now rnd imei mode) = (if imei = d then (case rnd of None \<Rightarrow> [] | Some key \<Rightarrow> [(key, mode)]) else [])"

definition entry_for :: "(bytes \<Rightarrow> bytes) \<Rightarrow> string \<Rightarrow> nat \<Rightarrow> bytes \<times> string \<Rightarrow> KeyEntry \<Rightarrow> bool" where
  "entry_for sha256 imei n km e \<longleftrightarrow> k_DeviceIMEI e = imei \<and> k_Version e = n \<and> k_Mode e = snd km \<and>
     k_KeyHashHex e = KeyHash sha256 (fst km) \<and>
     k_KeyHex e = (if snd km = ''decrypt'' then hex_EncodeToString (fst km) else [])"

text \<open>The entries of a device describe the keys added for it, numbered from 1.\<close>

definition describes :: "(bytes \<Rightarrow> bytes) \<Rightarrow> string \<Rightarrow> (bytes \<times> string) list \<Rightarrow> KeyEntry list \<Rightarrow> bool" where
  "describes sha256 imei kms vs \<longleftrightarrow> length vs = length kms \<and>
     (\<forall>i < length kms. entry_for sha256 imei (i + 1) (kms ! i) (vs ! i))"

lemma describes_snoc:
  "describes sha256 imei kms vs \<Longrightarrow> entry_for sha256 imei (length kms + 1) km e \<Longrightarrow>
     describes sha256 imei (kms @ [km]) (vs @ [e])"
  by (auto simp: describes_def nth_append less_Suc_eq)

lemma versions_fmupd: "versions (fmupd i vs ks) d = (if d = i then vs else versions ks d)"
  by (simp add: versions_def)

lemma ks_step_describes:
  assumes "describes sha256 d kms (versions ks d)"
  shows "describes sha256 d (kms @ key_of d ev) (versions (ks_step sha256 ks ev) d)"
proof -
  have len: "length (versions ks d) = length kms" using assms by (simp add: describes_def)
  have "entry_for sha256 d (length kms + 1) (key, mode) (new_entry sha256 now ks d key mode)" for key mode now
    by (simp add: entry_for_def new_entry_def len)
  then show ?thesis
    using assms describes_snoc
    by (cases ev) (auto simp: StoreKey_def GenerateAndStore_def Let_def versions_fmupd split: option.splits)
qed

lemma ks_run_describes:
  "describes sha256 d kms (versions ks d) \<Longrightarrow>
   describes sha256 d (kms @ concat (map (key_of d) evs)) (versions (foldl (ks_step sha256) ks evs) d)"
proof (induction evs arbitrary: kms ks)
  case (Cons ev evs)
  then show ?case using Cons.IH [OF ks_step_describes [OF Cons.prems]] by simp
qed simp

text \<open>C26: After any sequence of key additions, the store holds for every device exactly the keys
  added for it, numbered from 1 in order, with their SHA-256 fingerprints; key material is kept
  only in decrypt mode. When the newest key of a device is in decrypt mode, a message encrypted
  for the device is decrypted to itself; in any other mode decryption is refused.\<close>

theorem keystore_correct:
  assumes "aead_documented A" "length nonce = 12" "concat (map (key_of d) evs) = kms @ [(key, mode)]"
    "length key = 32" "ks = foldl (ks_step sha256) NewKeyStore evs"
  shows "describes sha256 d (kms @ [(key, mode)]) (versions ks d) \<and>
    (if mode = ''decrypt''
     then (\<exists>c. EncryptMessage A (Some nonce) d msg ks = Inr c \<and> DecryptMessage A d c ks = Inr msg)
     else DecryptMessage A d msg ks = Inl PassthroughMode \<and> EncryptMessage A (Some nonce) d msg ks = Inl NoMaterial)"
proof -
  have desc: "describes sha256 d (kms @ [(key, mode)]) (versions ks d)"
    using ks_run_describes [of sha256 d "[]" NewKeyStore evs] assms(3,5)
    by (simp add: describes_def NewKeyStore_def versions_def)
  then have len: "length (versions ks d) = length kms + 1"
    and last: "entry_for sha256 d (length kms + 1) (key, mode) (versions ks d ! length kms)"
    unfolding describes_def by auto
  have latest: "GetLatest d ks = Inr (versions ks d ! length kms)"
    using len by (auto simp: GetLatest_def Let_def)
  obtain c where c: "Encrypt A (Some nonce) key msg = Inr c"
    using assms(4) by (simp add: Encrypt_def aes_key_def)
  have "key \<noteq> []" using assms(4) by auto
  then show ?thesis
    using desc last latest c Decrypt_Encrypt [OF assms(1) c assms(2)]
    by (simp add: EncryptMessage_def DecryptMessage_def entry_for_def hex_Decode_Encode)
qed

theorem keystore_correct_witness:
  "\<exists>c. EncryptMessage toy_gcm (Some (replicate 12 3)) ''300'' [1, 2]
      (foldl (ks_step (\<lambda>_. [9])) NewKeyStore [Store_key 0 ''300'' (replicate 32 5) ''decrypt'']) = Inr c \<and>
    DecryptMessage toy_gcm ''300'' c
      (foldl (ks_step (\<lambda>_. [9])) NewKeyStore [Store_key 0 ''300'' (replicate 32 5) ''decrypt'']) = Inr [1, 2]"
  using keystore_correct [OF toy_gcm_documented, of "replicate 12 3" "''300''"
      "[Store_key 0 ''300'' (replicate 32 5) ''decrypt'']" "[]" "replicate 32 5" "''decrypt''" _ "\<lambda>_. [9]" "[1, 2]"]
  by simp

end
