(* ===== verification/OobFrame.thy ===== *)
theory OobFrame
  imports Crypto
begin

text \<open>
  The wire and text forms of the out-of-band management frames
  (\<open>internal/oob/frame.go\<close>). AES-GCM is a parameter with the hypothesis
  \<open>aead_documented\<close> of \<open>Crypto\<close>. The Unicode upper-case
  mapping is a parameter of the scan for frames in text.
\<close>

section \<open>Constants and records\<close>

definition Magic :: byte where "Magic = 0x4F"
definition Version :: byte where "Version = 1"
definition FlagEnc :: byte where "FlagEnc = 0x01"
definition FlagReply :: byte where "FlagReply = 0x02"
definition FlagNoReply :: byte where "FlagNoReply = 0x04"
definition FlagExpiry :: byte where "FlagExpiry = 0x08"

abbreviation (input) "ExpiryLen \<equiv> 4 :: nat"
abbreviation (input) "HeaderLen \<equiv> 9 :: nat"
abbreviation (input) "TagLen \<equiv> 16 :: nat"
abbreviation (input) "MinFrameLen \<equiv> HeaderLen + TagLen"
abbreviation (input) "MaxArgs \<equiv> 73 :: nat"
abbreviation (input) "MaxFrameLen \<equiv> HeaderLen + MaxArgs + TagLen"
abbreviation (input) "KeyLen \<equiv> 32 :: nat"
abbreviation (input) "NonceLen \<equiv> 12 :: nat"
abbreviation (input) "MinTextLen \<equiv> 40 :: nat"
abbreviation (input) "MaxTextLen \<equiv> 157 :: nat"

definition Sentinel :: string where "Sentinel = ''MS:''"

datatype Direction = DirRequest | DirReply
datatype Role = RoleIssuer | RoleImporter

fun dir_byte :: "Direction \<Rightarrow> byte" where
  "dir_byte DirRequest = 0"
| "dir_byte DirReply = 1"

fun role_byte :: "Role \<Rightarrow> byte" where
  "role_byte RoleIssuer = 0"
| "role_byte RoleImporter = 1"

definition Role_Other :: "Role \<Rightarrow> Role" where
  "Role_Other r = (if r = RoleIssuer then RoleImporter else RoleIssuer)"

record Frame =
  f_Enc :: bool
  f_Reply :: bool
  f_NoReply :: bool
  f_PeerID :: "16 word"
  f_Counter :: "32 word"
  f_Cmd :: byte
  f_Args :: bytes
  f_ExpiresAt :: "32 word"

record Header =
  h_Flags :: byte
  h_PeerID :: "16 word"
  h_Counter :: "32 word"
  h_Cmd :: byte
  h_BodyLen :: nat

definition Header_Enc :: "Header \<Rightarrow> bool" where "Header_Enc h \<longleftrightarrow> h_Flags h AND FlagEnc \<noteq> 0"
definition Header_Reply :: "Header \<Rightarrow> bool" where "Header_Reply h \<longleftrightarrow> h_Flags h AND FlagReply \<noteq> 0"
definition Header_NoReply :: "Header \<Rightarrow> bool" where "Header_NoReply h \<longleftrightarrow> h_Flags h AND FlagNoReply \<noteq> 0"
definition Header_HasExpiry :: "Header \<Rightarrow> bool" where "Header_HasExpiry h \<longleftrightarrow> h_Flags h AND FlagExpiry \<noteq> 0"
definition VersionNibble :: "Header \<Rightarrow> byte" where "VersionNibble h = drop_bit 4 (h_Flags h)"

datatype oob_err = ErrTooShort | ErrTooLong | ErrBadMagic | ErrBadVersion | ErrBadKey | ErrBadPeer
  | ErrBadCounter | ErrArgsLen | ErrAuth | ErrBadText | ErrBadExpiry

section \<open>Operations\<close>

definition ParseHeader :: "bytes \<Rightarrow> oob_err + Header" where
  "ParseHeader wire =
     (if length wire < MinFrameLen then Inl ErrTooShort
      else if length wire > MaxFrameLen then Inl ErrTooLong
      else if wire ! 0 \<noteq> Magic then Inl ErrBadMagic
      else let h = \<lparr>h_Flags = wire ! 1, h_PeerID = get_u16_be (slice 2 4 wire),
                    h_Counter = get_u32_be (slice 4 8 wire), h_Cmd = wire ! 8,
                    h_BodyLen = length wire - HeaderLen - TagLen\<rparr>
           in if VersionNibble h \<noteq> Version then Inl ErrBadVersion else Inr h)"

definition Nonce :: "16 word \<Rightarrow> Role \<Rightarrow> Direction \<Rightarrow> 32 word \<Rightarrow> bytes" where
  "Nonce peerID senderRole dir counter =
     put_u16_be peerID @ [push_bit 1 (role_byte senderRole) OR dir_byte dir] @ put_u32_be counter @
     replicate (NonceLen - 7) 0"

text \<open>\<open>newGCM\<close> fails on the key length only.\<close>

definition newGCM :: "bytes \<Rightarrow> oob_err + bytes" where
  "newGCM key = (if length key \<noteq> KeyLen then Inl ErrBadKey else Inr key)"

definition frame_flags :: "Frame \<Rightarrow> byte" where
  "frame_flags f = push_bit 4 Version OR (if f_Enc f then FlagEnc else 0) OR (if f_Reply f then FlagReply else 0)
     OR (if f_NoReply f then FlagNoReply else 0) OR (if f_ExpiresAt f \<noteq> 0 then FlagExpiry else 0)"

definition Seal :: "aead \<Rightarrow> Frame \<Rightarrow> bytes \<Rightarrow> Role \<Rightarrow> oob_err + bytes" where
  "Seal A f key senderRole =
     (if f_PeerID f = 0 then Inl ErrBadPeer
      else if f_Counter f = 0 then Inl ErrBadCounter
      else let body = (if f_ExpiresAt f \<noteq> 0 then put_u32_be (f_ExpiresAt f) @ f_Args f else f_Args f)
      in if length body > MaxArgs then Inl ErrArgsLen
      else case newGCM key of
        Inl e \<Rightarrow> Inl e
      | Inr gcm \<Rightarrow>
          let dir = (if f_Reply f then DirReply else DirRequest);
              hdr = [Magic, frame_flags f] @ put_u16_be (f_PeerID f) @ put_u32_be (f_Counter f) @ [f_Cmd f];
              nonce = Nonce (f_PeerID f) senderRole dir (f_Counter f)
          in if f_Enc f then Inr (hdr @ gcm_Seal A gcm nonce body hdr)
             else Inr (hdr @ body @ gcm_Seal A gcm nonce [] (hdr @ body)))"

definition frame_body :: "aead \<Rightarrow> bytes \<Rightarrow> bytes \<Rightarrow> bool \<Rightarrow> bytes \<Rightarrow> bytes option" where
  "frame_body A gcm nonce enc wire =
     (let hdr = take HeaderLen wire
      in if enc then gcm_Open A gcm nonce (drop HeaderLen wire) hdr
         else let clear = slice HeaderLen (length wire - TagLen) wire;
                  tag = drop (length wire - TagLen) wire
              in if gcm_Open A gcm nonce tag (hdr @ clear) = None then None else Some clear)"

definition Open :: "aead \<Rightarrow> bytes \<Rightarrow> bytes \<Rightarrow> Role \<Rightarrow> oob_err + Frame" where
  "Open A wire key senderRole =
     (case ParseHeader wire of
        Inl e \<Rightarrow> Inl e
      | Inr h \<Rightarrow>
          if h_PeerID h = 0 then Inl ErrBadPeer
          else if h_Counter h = 0 then Inl ErrBadCounter
          else case newGCM key of
            Inl e \<Rightarrow> Inl e
          | Inr gcm \<Rightarrow>
              let dir = (if Header_Reply h then DirReply else DirRequest);
                  nonce = Nonce (h_PeerID h) senderRole dir (h_Counter h);
                  f = \<lparr>f_Enc = Header_Enc h, f_Reply = Header_Reply h, f_NoReply = Header_NoReply h,
                       f_PeerID = h_PeerID h, f_Counter = h_Counter h, f_Cmd = h_Cmd h,
                       f_Args = [], f_ExpiresAt = 0\<rparr>
              in case frame_body A gcm nonce (Header_Enc h) wire of
                   None \<Rightarrow> Inl ErrAuth
                 | Some body \<Rightarrow>
                     if Header_HasExpiry h then
                       (if length body < ExpiryLen then Inl ErrBadExpiry
                        else let exp = get_u32_be (take ExpiryLen body)
                             in if exp = 0 then Inl ErrBadExpiry
                                else Inr (f\<lparr>f_ExpiresAt := exp, f_Args := drop ExpiryLen body\<rparr>))
                     else Inr (f\<lparr>f_Args := body\<rparr>))"

definition PeerIDFromKey :: "(bytes \<Rightarrow> bytes) \<Rightarrow> bytes \<Rightarrow> 16 word" where
  "PeerIDFromKey sha256 key =
     (let sum = sha256 (map (of_nat \<circ> code) ''meshsat-oob-peer-id'' @ key);
          pid = get_u16_be (take 2 sum)
      in if pid = 0 then 1 else pid)"

section \<open>Header bits\<close>

lemma flag_bits:
  "(w AND FlagEnc \<noteq> 0) = bit w 0" "(w AND FlagReply \<noteq> 0) = bit w 1"
  "(w AND FlagNoReply \<noteq> 0) = bit w 2" "(w AND FlagExpiry \<noteq> 0) = bit w 3"
  using and_exp_eq_0_iff_not_bit [of w 0] and_exp_eq_0_iff_not_bit [of w 1]
    and_exp_eq_0_iff_not_bit [of w 2] and_exp_eq_0_iff_not_bit [of w 3]
  by (simp_all add: FlagEnc_def FlagReply_def FlagNoReply_def FlagExpiry_def)

lemmas header_flag_defs = Header_Enc_def Header_Reply_def Header_NoReply_def Header_HasExpiry_def flag_bits

lemma frame_flags_bits:
  "bit (frame_flags f) 0 = f_Enc f" "bit (frame_flags f) 1 = f_Reply f"
  "bit (frame_flags f) 2 = f_NoReply f" "bit (frame_flags f) 3 = (f_ExpiresAt f \<noteq> 0)"
  "drop_bit 4 (frame_flags f) = Version"
  by (simp_all add: frame_flags_def Version_def FlagEnc_def FlagReply_def FlagNoReply_def FlagExpiry_def)

lemma byte_bits_eqI:
  assumes "drop_bit 4 v = drop_bit 4 (w :: byte)" "bit v 0 = bit w 0" "bit v 1 = bit w 1"
    "bit v 2 = bit w 2" "bit v 3 = bit w 3"
  shows "v = w"
proof (rule bit_word_eqI)
  fix k :: nat
  consider "k = 0" | "k = 1" | "k = 2" | "k = 3" | "k \<ge> 4" by linarith
  then show "bit v k = bit w k"
  proof cases
    case 5
    then obtain j where "k = 4 + j" using le_Suc_ex by blast
    then show ?thesis using arg_cong [OF assms(1), of "\<lambda>x. bit x j"] by (simp add: bit_drop_bit_eq)
  qed (use assms in auto)
qed

definition header_bytes :: "byte \<Rightarrow> 16 word \<Rightarrow> 32 word \<Rightarrow> byte \<Rightarrow> bytes" where
  "header_bytes flags peer ctr cmd = [Magic, flags] @ put_u16_be peer @ put_u32_be ctr @ [cmd]"

lemma length_header_bytes [simp]: "length (header_bytes flags peer ctr cmd) = 9"
  by (simp add: header_bytes_def)

lemma header_bytes_fields:
  "(header_bytes flags peer ctr cmd @ rest) ! 0 = Magic" "(header_bytes flags peer ctr cmd @ rest) ! 1 = flags"
  "slice 2 4 (header_bytes flags peer ctr cmd @ rest) = put_u16_be peer"
  "slice 4 8 (header_bytes flags peer ctr cmd @ rest) = put_u32_be ctr"
  "(header_bytes flags peer ctr cmd @ rest) ! 8 = cmd"
  by (simp_all add: header_bytes_def slice_def nth_append numeral_eq_Suc)

lemma header_bytes_cut:
  assumes "9 \<le> length wire" "wire ! 0 = Magic"
  shows "wire = header_bytes (wire ! 1) (get_u16_be (slice 2 4 wire)) (get_u32_be (slice 4 8 wire)) (wire ! 8) @ drop 9 wire"
proof -
  have 1: "wire = take 2 wire @ slice 2 4 wire @ slice 4 8 wire @ slice 8 9 wire @ drop 9 wire"
    by (metis append_take_drop_id drop_eq_slice eq_numeral_simps(2) numeral_le_iff semiring_norm(68,69,71,72,78))
  moreover have "take 2 wire = [wire ! 0, wire ! 1]" "slice 8 9 wire = [wire ! 8]"
    using assms(1) by (auto intro!: nth_equalityI simp: less_2_cases_iff nth_slice)
  ultimately show ?thesis using assms by (simp add: header_bytes_def)
qed

lemma ParseHeader_iff:
  "ParseHeader wire = Inr h \<longleftrightarrow>
    (\<exists>rest. wire = header_bytes (h_Flags h) (h_PeerID h) (h_Counter h) (h_Cmd h) @ rest \<and>
       16 \<le> length rest \<and> length rest \<le> 89 \<and> VersionNibble h = Version \<and> h_BodyLen h = length rest - 16)"
  (is "?L \<longleftrightarrow> ?R")
proof
  assume L: ?L
  then have len: "25 \<le> length wire" "length wire \<le> 98" and m: "wire ! 0 = Magic" and v: "VersionNibble h = Version"
    and h: "h = \<lparr>h_Flags = wire ! 1, h_PeerID = get_u16_be (slice 2 4 wire),
        h_Counter = get_u32_be (slice 4 8 wire), h_Cmd = wire ! 8, h_BodyLen = length wire - 25\<rparr>"
    by (auto simp: ParseHeader_def Let_def split: if_splits)
  have "16 \<le> length (drop 9 wire)" "length (drop 9 wire) \<le> 89" "length wire - 25 = length (drop 9 wire) - 16"
    using len by simp_all
  moreover have "wire = header_bytes (h_Flags h) (h_PeerID h) (h_Counter h) (h_Cmd h) @ drop 9 wire"
    unfolding h Header.select_convs by (rule header_bytes_cut) (use len m in simp_all)
  ultimately show ?R
    using v by (intro exI [of _ "drop 9 wire"]) (simp add: h)
next
  assume ?R
  then show ?L
    by (cases h) (auto simp: ParseHeader_def Let_def header_bytes_fields simp del: One_nat_def)
qed

section \<open>Sealing and opening are inverse\<close>

definition seal_tail :: "aead \<Rightarrow> bytes \<Rightarrow> bytes \<Rightarrow> bool \<Rightarrow> bytes \<Rightarrow> bytes \<Rightarrow> bytes" where
  "seal_tail A gcm nonce enc hdr body =
     (if enc then gcm_Seal A gcm nonce body hdr else body @ gcm_Seal A gcm nonce [] (hdr @ body))"

lemma length_seal_tail:
  "aead_documented A \<Longrightarrow> length (seal_tail A gcm nonce enc hdr body) = length body + 16"
  by (simp add: seal_tail_def aead_documented_def)

lemma frame_body_iff:
  assumes A: "aead_documented A" and hdr: "length hdr = 9" and rest: "16 \<le> length rest"
  shows "frame_body A gcm nonce enc (hdr @ rest) = Some body \<longleftrightarrow> rest = seal_tail A gcm nonce enc hdr body"
proof (cases enc)
  case True
  then show ?thesis
    using A hdr by (simp add: frame_body_def Let_def seal_tail_def aead_documented_def)
next
  case False
  define clear tag where "clear = take (length rest - 16) rest" and "tag = drop (length rest - 16) rest"
  have cut: "rest = clear @ tag" "length tag = 16" using rest by (simp_all add: clear_def tag_def)
  have open_tag: "(\<exists>p. gcm_Open A gcm nonce tag aad = Some p) \<longleftrightarrow> tag = gcm_Seal A gcm nonce [] aad" for aad
    using A cut(2) unfolding aead_documented_def by (metis add_cancel_left_left length_0_conv)
  have "slice 9 (length (hdr @ rest) - 16) (hdr @ rest) = clear" "drop (length (hdr @ rest) - 16) (hdr @ rest) = tag"
    using hdr cut by simp_all
  then have "frame_body A gcm nonce enc (hdr @ rest) = Some body \<longleftrightarrow>
      clear = body \<and> tag = gcm_Seal A gcm nonce [] (hdr @ clear)"
    using False hdr open_tag [of "hdr @ clear"] by (auto simp: frame_body_def Let_def)
  also have "\<dots> \<longleftrightarrow> rest = seal_tail A gcm nonce enc hdr body"
    using False cut A by (auto simp: seal_tail_def aead_documented_def)
  finally show ?thesis .
qed

definition frame_payload :: "Frame \<Rightarrow> bytes" where
  "frame_payload f = (if f_ExpiresAt f \<noteq> 0 then put_u32_be (f_ExpiresAt f) @ f_Args f else f_Args f)"

definition frame_nonce :: "Frame \<Rightarrow> Role \<Rightarrow> bytes" where
  "frame_nonce f r = Nonce (f_PeerID f) r (if f_Reply f then DirReply else DirRequest) (f_Counter f)"

definition frame_header :: "Frame \<Rightarrow> bytes" where
  "frame_header f = header_bytes (frame_flags f) (f_PeerID f) (f_Counter f) (f_Cmd f)"

lemma Seal_iff:
  "Seal A f key r = Inr wire \<longleftrightarrow>
     f_PeerID f \<noteq> 0 \<and> f_Counter f \<noteq> 0 \<and> length (frame_payload f) \<le> 73 \<and> length key = 32 \<and>
     wire = frame_header f @ seal_tail A key (frame_nonce f r) (f_Enc f) (frame_header f) (frame_payload f)"
  by (auto simp: Seal_def newGCM_def frame_payload_def frame_nonce_def frame_header_def header_bytes_def
      seal_tail_def Let_def split: if_splits)

text \<open>Reading the fields of a frame from the header and the body, as \<open>Open\<close> does.\<close>

definition read_frame :: "Header \<Rightarrow> bytes \<Rightarrow> Frame option" where
  "read_frame h body =
     (let f = \<lparr>f_Enc = Header_Enc h, f_Reply = Header_Reply h, f_NoReply = Header_NoReply h,
               f_PeerID = h_PeerID h, f_Counter = h_Counter h, f_Cmd = h_Cmd h, f_Args = [], f_ExpiresAt = 0\<rparr>
      in if Header_HasExpiry h then
           (if length body < 4 then None
            else let exp = get_u32_be (take 4 body)
                 in if exp = 0 then None else Some (f\<lparr>f_ExpiresAt := exp, f_Args := drop 4 body\<rparr>))
         else Some (f\<lparr>f_Args := body\<rparr>))"

lemma read_frame_iff:
  assumes "VersionNibble h = Version"
  shows "read_frame h body = Some f \<longleftrightarrow>
    h_Flags h = frame_flags f \<and> h_PeerID h = f_PeerID f \<and> h_Counter h = f_Counter f \<and>
    h_Cmd h = f_Cmd f \<and> body = frame_payload f"
    (is "?L \<longleftrightarrow> ?R")
proof
  assume L: ?L
  have flags: "f_Enc f = bit (h_Flags h) 0" "f_Reply f = bit (h_Flags h) 1" "f_NoReply f = bit (h_Flags h) 2"
    "(f_ExpiresAt f \<noteq> 0) = bit (h_Flags h) 3"
    using L by (auto simp: read_frame_def header_flag_defs Let_def split: if_splits)
  have "h_Flags h = frame_flags f"
    by (rule byte_bits_eqI) (use assms flags in \<open>simp_all only: frame_flags_bits VersionNibble_def\<close>)
  then show ?R
    using L by (auto simp: read_frame_def frame_payload_def Let_def split: if_splits)
next
  assume R: ?R
  then have flags: "Header_Enc h = f_Enc f" "Header_Reply h = f_Reply f" "Header_NoReply h = f_NoReply f"
    "Header_HasExpiry h = (f_ExpiresAt f \<noteq> 0)"
    by (simp_all only: header_flag_defs frame_flags_bits)
  show ?L
    using R by (cases f) (auto simp: read_frame_def flags frame_payload_def Let_def)
qed

lemma Open_read:
  "Open A wire key r = Inr f \<longleftrightarrow>
     (\<exists>h. ParseHeader wire = Inr h \<and> h_PeerID h \<noteq> 0 \<and> h_Counter h \<noteq> 0 \<and> length key = 32 \<and>
        (\<exists>body. frame_body A key (Nonce (h_PeerID h) r (if Header_Reply h then DirReply else DirRequest) (h_Counter h))
           (Header_Enc h) wire = Some body \<and> read_frame h body = Some f))"
proof (cases "ParseHeader wire")
  case (Inr h)
  let ?b = "frame_body A key (Nonce (h_PeerID h) r (if Header_Reply h then DirReply else DirRequest) (h_Counter h))
           (Header_Enc h) wire"
  show ?thesis
  proof (cases "h_PeerID h = 0 \<or> h_Counter h = 0 \<or> length key \<noteq> 32 \<or> ?b = None")
    case False
    then obtain body where "?b = Some body" by auto
    then show ?thesis
      using Inr False by (simp add: Open_def newGCM_def Let_def) (simp add: read_frame_def Let_def)
  qed (use Inr in \<open>auto simp: Open_def newGCM_def Let_def\<close>)
qed (simp add: Open_def)

lemma Open_Seal_iff:
  assumes A: "aead_documented A"
  shows "Open A wire key r = Inr f \<longleftrightarrow> Seal A f key r = Inr wire" (is "?L \<longleftrightarrow> ?R")
proof
  assume ?L
  then obtain h body where h: "ParseHeader wire = Inr h" "h_PeerID h \<noteq> 0" "h_Counter h \<noteq> 0" "length key = 32"
    and b: "frame_body A key (Nonce (h_PeerID h) r (if Header_Reply h then DirReply else DirRequest) (h_Counter h))
           (Header_Enc h) wire = Some body" and f: "read_frame h body = Some f"
    unfolding Open_read by blast
  obtain rest where rest: "wire = header_bytes (h_Flags h) (h_PeerID h) (h_Counter h) (h_Cmd h) @ rest"
    "16 \<le> length rest" "length rest \<le> 89" and v: "VersionNibble h = Version"
    using h(1) unfolding ParseHeader_iff by blast
  have fields: "h_Flags h = frame_flags f" "h_PeerID h = f_PeerID f" "h_Counter h = f_Counter f"
    "h_Cmd h = f_Cmd f" "body = frame_payload f"
    using f unfolding read_frame_iff [OF v] by auto
  have fl: "Header_Enc h = f_Enc f" "Header_Reply h = f_Reply f"
    by (simp_all only: header_flag_defs frame_flags_bits fields)
  have wire: "wire = frame_header f @ rest" using rest fields by (simp add: frame_header_def)
  have tail: "rest = seal_tail A key (frame_nonce f r) (f_Enc f) (frame_header f) (frame_payload f)"
    using b frame_body_iff [OF A, of "frame_header f" rest] rest(2)
    unfolding wire fields fl frame_nonce_def by (simp add: frame_header_def)
  then have "length (frame_payload f) \<le> 73" using rest(3) length_seal_tail [OF A] by simp
  then show ?R unfolding Seal_iff using h fields wire tail by simp
next
  assume R: ?R
  define rest where "rest = seal_tail A key (frame_nonce f r) (f_Enc f) (frame_header f) (frame_payload f)"
  define h where "h = \<lparr>h_Flags = frame_flags f, h_PeerID = f_PeerID f, h_Counter = f_Counter f,
    h_Cmd = f_Cmd f, h_BodyLen = length rest - 16\<rparr>"
  have s: "f_PeerID f \<noteq> 0" "f_Counter f \<noteq> 0" "length (frame_payload f) \<le> 73" "length key = 32"
    "wire = frame_header f @ rest"
    using R unfolding Seal_iff rest_def by auto
  have len: "length rest = length (frame_payload f) + 16" by (simp add: rest_def length_seal_tail [OF A])
  have v: "VersionNibble h = Version" by (simp add: VersionNibble_def h_def frame_flags_bits)
  have ph: "ParseHeader wire = Inr h"
    unfolding ParseHeader_iff using s len v by (auto simp: h_def frame_header_def)
  have fl: "Header_Enc h = f_Enc f" "Header_Reply h = f_Reply f"
    by (simp_all add: header_flag_defs frame_flags_bits h_def del: One_nat_def)
  have "frame_body A key (frame_nonce f r) (f_Enc f) wire = Some (frame_payload f)"
    using frame_body_iff [OF A, of "frame_header f" rest] s len by (simp add: frame_header_def rest_def)
  moreover have "read_frame h (frame_payload f) = Some f"
    unfolding read_frame_iff [OF v] by (simp add: h_def)
  ultimately show ?L
    unfolding Open_read using ph s fl by (auto simp: h_def frame_nonce_def)
qed

lemma Seal_length:
  assumes "aead_documented A" "Seal A f key r = Inr wire"
  shows "25 \<le> length wire \<and> length wire \<le> 98"
  using assms(2) length_seal_tail [OF assms(1)] unfolding Seal_iff by (auto simp: frame_header_def)

lemma Nonce_inject: "Nonce p r d c = Nonce p' r' d' c' \<longleftrightarrow> p = p' \<and> r = r' \<and> d = d' \<and> c = c'"
proof -
  have b: "push_bit 1 (role_byte r) OR dir_byte d = push_bit 1 (role_byte r') OR dir_byte d' \<longleftrightarrow> r = r' \<and> d = d'"
    by (cases r; cases r'; cases d; cases d') simp_all
  have "put_u16_be p = put_u16_be p' \<longleftrightarrow> p = p'" "put_u32_be c = put_u32_be c' \<longleftrightarrow> c = c'"
    by (metis get_put_be(1), metis get_put_be(2))
  then show ?thesis using b by (simp add: Nonce_def del: push_bit_of_1 push_bit_Suc One_nat_def)
qed

section \<open>Text form\<close>

text \<open>\<open>encoding/base32\<close> without padding: blocks of five bytes become eight digits of five
  bits; a last block of 1, 2, 3 or 4 bytes becomes 2, 4, 5 or 7 digits. The decoder writes
  nothing for a last block of 1, 3 or 6 digits and reports a character outside the alphabet.\<close>

definition alphabet :: string where
  "alphabet = ''0123456789ABCDEFGHJKMNPQRSTVWXYZ''"

fun digits32 :: "nat \<Rightarrow> nat \<Rightarrow> nat list" where
  "digits32 0 v = []"
| "digits32 (Suc n) v = digits32 n (v div 32) @ [v mod 32]"

definition val32 :: "nat list \<Rightarrow> nat" where
  "val32 ds = foldl (\<lambda>v d. v * 32 + d) 0 ds"

definition enc_block :: "bytes \<Rightarrow> nat list" where
  "enc_block bs = (let m = length bs; d = (8 * m + 4) div 5 in digits32 d (be_val bs * 2 ^ (5 * d - 8 * m)))"

definition dec_block :: "nat list \<Rightarrow> bytes" where
  "dec_block ds = (let d = length ds; m = 5 * d div 8
     in if d \<in> {2, 4, 5, 7, 8} then be_bytes m (val32 ds div 2 ^ (5 * d - 8 * m)) else [])"

fun enc_blocks :: "bytes \<Rightarrow> nat list" where
  "enc_blocks [] = []"
| "enc_blocks (b # bs) = enc_block (take 5 (b # bs)) @ enc_blocks (drop 5 (b # bs))"

fun dec_blocks :: "nat list \<Rightarrow> bytes" where
  "dec_blocks [] = []"
| "dec_blocks (d # ds) = dec_block (take 8 (d # ds)) @ dec_blocks (drop 8 (d # ds))"

definition EncodeToString :: "bytes \<Rightarrow> string" where
  "EncodeToString wire = map (\<lambda>d. alphabet ! d) (enc_blocks wire)"

definition digit_of :: "char \<Rightarrow> nat option" where
  "digit_of c = List.find (\<lambda>d. alphabet ! d = c) [0..<32]"

definition DecodeString :: "string \<Rightarrow> bytes option" where
  "DecodeString s = map_option dec_blocks (those (map digit_of s))"

definition Encode :: "bytes \<Rightarrow> string" where
  "Encode wire = Sentinel @ EncodeToString wire"

definition norm_char :: "char \<Rightarrow> char option" where
  "norm_char c =
     (let r = upper_char c;
          r = (if r = CHR ''I'' \<or> r = CHR ''L'' then CHR ''1'' else if r = CHR ''O'' then CHR ''0'' else r)
      in if r = CHR ''U'' then None
         else if in_range CHR ''0'' CHR ''9'' r \<or> in_range CHR ''A'' CHR ''Z'' r then Some r else None)"

fun normalize :: "string \<Rightarrow> oob_err + string" where
  "normalize [] = Inr []"
| "normalize (c # s) =
     (if c = CHR ''-'' then normalize s
      else case norm_char c of None \<Rightarrow> Inl ErrBadText | Some r \<Rightarrow> map_sum id ((#) r) (normalize s))"

definition Decode :: "string \<Rightarrow> oob_err + bytes" where
  "Decode text =
     (let text = TrimSpace text;
          text = (if 3 \<le> length text \<and> ToUpper (take 3 text) = Sentinel then drop 3 text else text)
      in case normalize text of
           Inl e \<Rightarrow> Inl e
         | Inr norm \<Rightarrow>
             if length norm < MinTextLen \<or> length norm > MaxTextLen then Inl ErrBadText
             else case DecodeString norm of None \<Rightarrow> Inl ErrBadText | Some wire \<Rightarrow> Inr wire)"

section \<open>The text form round-trips\<close>

lemma length_digits32 [simp]: "length (digits32 n v) = n"
  by (induction n arbitrary: v) auto

lemma digits32_range: "d \<in> set (digits32 n v) \<Longrightarrow> d < 32"
  by (induction n arbitrary: v) auto

lemma val32_snoc: "val32 (ds @ [d]) = val32 ds * 32 + d"
  by (simp add: val32_def)

lemma val32_digits32: "val32 (digits32 n v) = v mod 32 ^ n"
proof (induction n arbitrary: v)
  case 0
  then show ?case by (simp add: val32_def)
next
  case (Suc n)
  then show ?case by (simp add: val32_snoc mod_mult2_eq mult.commute)
qed

lemma block_sizes:
  assumes "1 \<le> m" "m \<le> (5 :: nat)"
  shows "(8 * m + 4) div 5 \<in> {2, 4, 5, 7, 8}" "5 * ((8 * m + 4) div 5) div 8 = m" "8 * m \<le> 5 * ((8 * m + 4) div 5)"
proof -
  have "m \<in> {1, 2, 3, 4, 5}" using assms by auto
  then show "(8 * m + 4) div 5 \<in> {2, 4, 5, 7, 8}" "5 * ((8 * m + 4) div 5) div 8 = m"
    "8 * m \<le> 5 * ((8 * m + 4) div 5)" by auto
qed

lemma length_enc_block [simp]: "length (enc_block bs) = (8 * length bs + 4) div 5"
  by (simp add: enc_block_def Let_def)

lemma dec_enc_block:
  assumes "1 \<le> length bs" "length bs \<le> 5"
  shows "dec_block (enc_block bs) = bs"
proof -
  define m d where "m = length bs" and "d = (8 * m + 4) div 5"
  have sz: "d \<in> {2, 4, 5, 7, 8}" "5 * d div 8 = m" "8 * m \<le> 5 * d"
    using block_sizes [of m] assms by (auto simp: m_def d_def)
  have "be_val bs * 2 ^ (5 * d - 8 * m) < 2 ^ (8 * m) * 2 ^ (5 * d - 8 * m)"
    using be_val_bound [of bs] by (simp add: m_def power_mult)
  also have "\<dots> = 2 ^ (5 * d)" using sz(3) by (simp only: power_add [symmetric] le_add_diff_inverse)
  also have "\<dots> = 32 ^ d" by (simp add: power_mult)
  finally have "val32 (enc_block bs) = be_val bs * 2 ^ (5 * d - 8 * m)"
    by (simp add: enc_block_def Let_def m_def [symmetric] d_def [symmetric] val32_digits32)
  then have "dec_block (enc_block bs) = be_bytes m (be_val bs)"
    using sz(1,2) by (simp add: dec_block_def Let_def m_def [symmetric] d_def [symmetric])
  then show ?thesis by (simp add: m_def)
qed

lemma enc_block_range: "d \<in> set (enc_block bs) \<Longrightarrow> d < 32"
  by (auto simp: enc_block_def Let_def dest: digits32_range)

lemma enc_blocks_range: "d \<in> set (enc_blocks bs) \<Longrightarrow> d < 32"
  by (induction bs rule: enc_blocks.induct) (auto dest: enc_block_range)

lemma dec_blocks_append: "length ds = 8 \<Longrightarrow> dec_blocks (ds @ es) = dec_block ds @ dec_blocks es"
  by (cases ds) simp_all



lemma dec_enc_blocks: "dec_blocks (enc_blocks bs) = bs"
proof (induction bs rule: enc_blocks.induct)
  case (2 b bs)
  define blk where "blk = take 5 (b # bs)"
  have blk: "1 \<le> length blk" "length blk \<le> 5" by (simp_all add: blk_def)
  show ?case
  proof (cases "5 \<le> length (b # bs)")
    case True
    then have "length (enc_block blk) = 8" by (simp add: blk_def)
    then have "dec_blocks (enc_blocks (b # bs)) = blk @ drop 5 (b # bs)"
      using dec_enc_block [OF blk] "2.IH" dec_blocks_append by (simp add: blk_def del: drop_Suc_Cons)
    then show ?thesis unfolding blk_def by (simp only: append_take_drop_id)
  next
    case False
    then have all: "blk = b # bs" "drop 5 (b # bs) = []" by (simp_all add: blk_def)
    obtain d ds where e: "enc_block blk = d # ds"
      using blk by (cases "enc_block blk") (auto simp flip: length_0_conv)
    have "length (enc_block blk) \<le> 8" using blk by simp
    then have "dec_blocks (enc_block blk) = dec_block (enc_block blk)" unfolding e by simp
    then show ?thesis
      using dec_enc_block [OF blk] all by (simp add: blk_def [symmetric])
  qed
qed simp

lemma length_enc_blocks: "length (enc_blocks bs) = (8 * length bs + 4) div 5"
proof (induction bs rule: enc_blocks.induct)
  case (2 b bs)
  show ?case
  proof (cases "5 \<le> length (b # bs)")
    case True
    then have "8 * length (b # bs) + 4 = 8 * 5 + (8 * length (drop 5 (b # bs)) + 4)" by simp
    with True "2.IH" show ?thesis by simp
  next
    case False
    with "2.IH" show ?thesis by (simp add: min_def)
  qed
qed simp

lemma alphabet_digits: "\<forall>d < 32. digit_of (alphabet ! d) = Some d"
  by code_simp

lemma alphabet_normal: "\<forall>d < 32. alphabet ! d \<noteq> CHR ''-'' \<and> norm_char (alphabet ! d) = Some (alphabet ! d)"
  by code_simp

lemma those_map_Some: "(\<And>x. x \<in> set xs \<Longrightarrow> f x = Some (g x)) \<Longrightarrow> those (map f xs) = Some (map g xs)"
  by (induction xs) auto

lemma DecodeString_EncodeToString: "DecodeString (EncodeToString wire) = Some wire"
proof -
  have "those (map (digit_of \<circ> (!) alphabet) (enc_blocks wire)) = Some (map id (enc_blocks wire))"
    by (rule those_map_Some) (use alphabet_digits enc_blocks_range in auto)
  then show ?thesis by (simp add: DecodeString_def EncodeToString_def dec_enc_blocks)
qed

lemma normalize_normal:
  "(\<And>c. c \<in> set s \<Longrightarrow> c \<noteq> CHR ''-'' \<and> norm_char c = Some c) \<Longrightarrow> normalize s = Inr s"
  by (induction s) auto

lemma normalize_EncodeToString: "normalize (EncodeToString wire) = Inr (EncodeToString wire)"
  by (rule normalize_normal) (use alphabet_normal enc_blocks_range in \<open>auto simp: EncodeToString_def\<close>)

lemma length_EncodeToString: "length (EncodeToString wire) = (8 * length wire + 4) div 5"
  by (simp add: EncodeToString_def length_enc_blocks)

text \<open>Text between characters that are no spaces is not trimmed.\<close>

definition solid :: "char \<Rightarrow> bool" where
  "solid c \<longleftrightarrow> in_range CHR ''!'' CHR ''~'' c"

lemma space_runes_not_solid: "list_all (\<lambda>p. p \<noteq> [] \<and> \<not> solid (hd p) \<and> \<not> solid (last p)) space_runes"
  by (simp add: space_runes_def solid_def in_range_def code_def)

lemma take_prefix_solid:
  assumes "list_all (\<lambda>p. p \<noteq> [] \<and> \<not> solid (hd p)) ps" "solid c"
  shows "take_prefix (c # s) ps = None"
proof -
  have "take (length p) (c # s) \<noteq> p" if "p \<in> set ps" for p
    using assms that by (cases p) (auto simp: list_all_iff)
  then show ?thesis by (simp add: take_prefix_def find_None_iff)
qed

lemma TrimSpace_solid:
  assumes "s \<noteq> []" "solid (hd s)" "solid (last s)"
  shows "TrimSpace s = s"
proof -
  have "trim_left space_runes s = s"
    using assms(1,2) space_runes_not_solid
    by (cases s) (auto intro!: trim_left_id take_prefix_solid simp: list_all_iff)
  moreover have "trim_left (map rev space_runes) (rev s) = rev s"
    using assms(1,3) space_runes_not_solid
    by (cases s rule: rev_cases) (auto intro!: trim_left_id take_prefix_solid simp: list_all_iff hd_rev)
  ultimately show ?thesis by (simp add: TrimSpace_def)
qed

lemma alphabet_solid: "list_all solid alphabet"
  by (simp add: alphabet_def solid_def in_range_def code_def)

lemma EncodeToString_solid: "c \<in> set (EncodeToString wire) \<Longrightarrow> solid c"
proof -
  have "length alphabet = 32" by (simp add: alphabet_def)
  then show "c \<in> set (EncodeToString wire) \<Longrightarrow> solid c"
    using alphabet_solid enc_blocks_range by (fastforce simp: EncodeToString_def list_all_length)
qed

lemma text_length_bounds:
  "25 \<le> n \<Longrightarrow> n \<le> 98 \<Longrightarrow> 40 \<le> (8 * n + 4) div 5 \<and> (8 * n + 4) div 5 \<le> (157 :: nat)"
  by linarith

lemma Decode_Encode:
  assumes "25 \<le> length wire" "length wire \<le> 98"
  shows "Decode (Encode wire) = Inr wire"
proof -
  have len: "40 \<le> length (EncodeToString wire)" "length (EncodeToString wire) \<le> 157"
    using text_length_bounds [OF assms] by (simp_all add: length_EncodeToString)
  then have ne: "EncodeToString wire \<noteq> []" by auto
  have "TrimSpace (Encode wire) = Encode wire"
    by (rule TrimSpace_solid)
      (use ne EncodeToString_solid [of "last (EncodeToString wire)" wire] in
        \<open>simp_all add: Encode_def Sentinel_def solid_def in_range_def code_def\<close>)
  moreover have "ToUpper (take 3 (Encode wire)) = Sentinel"
    by (simp add: Encode_def Sentinel_def ToUpper_def upper_char_def in_range_def code_def)
  ultimately show ?thesis
    using len by (simp add: Decode_def Encode_def Sentinel_def normalize_EncodeToString DecodeString_EncodeToString)
qed

text \<open>A run of base32 characters without the sentinel decodes the same way.\<close>

lemma Decode_run:
  assumes "25 \<le> length wire" "length wire \<le> 98"
  shows "Decode (EncodeToString wire) = Inr wire"
proof -
  have len: "40 \<le> length (EncodeToString wire)" "length (EncodeToString wire) \<le> 157"
    using text_length_bounds [OF assms] by (simp_all add: length_EncodeToString)
  then have ne: "EncodeToString wire \<noteq> []" by auto
  have trim: "TrimSpace (EncodeToString wire) = EncodeToString wire"
    using ne EncodeToString_solid [OF hd_in_set] EncodeToString_solid [OF last_in_set]
    by (intro TrimSpace_solid) simp_all
  have "alphabet ! d \<noteq> CHR '':''" if "d < 32" for d
    using that alphabet_normal by (auto simp: norm_char_def upper_char_def in_range_def code_def Let_def)
  then have "CHR '':'' \<notin> set (EncodeToString wire)"
    using enc_blocks_range by (simp add: EncodeToString_def image_iff) metis
  moreover have "upper_char c = CHR '':'' \<Longrightarrow> c = CHR '':''" for c
    by (rule ccontr) (auto simp: upper_char_def in_range_def code_def split: if_splits
        dest!: arg_cong [where f = "of_char :: char \<Rightarrow> nat"])
  ultimately have "CHR '':'' \<notin> set (ToUpper (take 3 (EncodeToString wire)))"
    by (simp add: ToUpper_def image_iff) (metis in_set_takeD)
  then have "ToUpper (take 3 (EncodeToString wire)) \<noteq> Sentinel"
    by (auto simp: Sentinel_def)
  then show ?thesis
    using len by (simp add: Decode_def trim normalize_EncodeToString DecodeString_EncodeToString)
qed

section \<open>Frames in text\<close>

definition isRunChar :: "char \<Rightarrow> bool" where
  "isRunChar r \<longleftrightarrow> in_range CHR ''0'' CHR ''9'' r \<or> in_range CHR ''A'' CHR ''Z'' r \<or>
     in_range CHR ''a'' CHR ''z'' r \<or> r = CHR ''-''"

text \<open>An index past the end of the text panics in Go; \<open>None\<close> is that panic.\<close>

definition boundaryBefore :: "string \<Rightarrow> nat \<Rightarrow> bool option" where
  "boundaryBefore text i =
     (if i = 0 then Some True
      else if i - 1 \<ge> length text then None
      else Some (text ! (i - 1) \<in> {CHR '' '', CHR 0x09, CHR 0x0A, CHR 0x0D, CHR '']'', CHR ''>'', CHR '':''}))"

definition indexFold :: "(string \<Rightarrow> string) \<Rightarrow> string \<Rightarrow> string \<Rightarrow> nat \<Rightarrow> nat option" where
  "indexFold upper s sub from =
     (if length s \<le> from then None
      else map_option ((+) from) (index_of (upper sub) (upper (drop from s))))"

lemma indexFold_Some: "indexFold upper s sub from = Some idx \<Longrightarrow> from \<le> idx \<and> from < length s"
  by (auto simp: indexFold_def split: if_splits)

datatype extracted = Extracted bytes | NoFrame | ExtractPanic

text \<open>The body of the loop after the boundary test: the frame whose base32 run starts at
  \<open>start\<close>.\<close>

definition frame_at :: "string \<Rightarrow> nat \<Rightarrow> bytes option" where
  "frame_at text start =
     (let run = takeWhile isRunChar (drop start text)
      in if length run < MinTextLen \<or> length run > MaxTextLen + length run div 2 then None
         else case Decode run of
           Inl e \<Rightarrow> None
         | Inr wire \<Rightarrow> (case ParseHeader wire of Inl e \<Rightarrow> None | Inr h \<Rightarrow> Some wire))"

function extract_from :: "(string \<Rightarrow> string) \<Rightarrow> string \<Rightarrow> nat \<Rightarrow> extracted" where
  "extract_from upper text from =
     (case indexFold upper text Sentinel from of
        None \<Rightarrow> NoFrame
      | Some idx \<Rightarrow>
          (case boundaryBefore text idx of
             None \<Rightarrow> ExtractPanic
           | Some False \<Rightarrow> extract_from upper text (idx + 1)
           | Some True \<Rightarrow>
               if length text < idx + 3 then ExtractPanic
               else (case frame_at text (idx + 3) of
                       None \<Rightarrow> extract_from upper text (idx + 1)
                     | Some wire \<Rightarrow> Extracted wire)))"
  by pat_completeness auto

termination
  by (relation "measure (\<lambda>(upper, text, from). length text - from)") (auto dest!: indexFold_Some)

declare extract_from.simps [simp del]

definition ExtractFrame :: "(string \<Rightarrow> string) \<Rightarrow> string \<Rightarrow> extracted" where
  "ExtractFrame upper text = extract_from upper text 0"

text \<open>What the scan looks for: a position where the sentinel stands, in any case, at the start
  of the text or after a separator, followed by a run that decodes to a frame.\<close>

definition frame_here :: "string \<Rightarrow> nat \<Rightarrow> bytes option" where
  "frame_here text i =
     (if ToUpper (slice i (i + 3) text) = Sentinel \<and> boundaryBefore text i = Some True
      then frame_at text (i + 3) else None)"

definition first_frame :: "string \<Rightarrow> nat list \<Rightarrow> extracted" where
  "first_frame text js = (case List.find (\<lambda>i. frame_here text i \<noteq> None) js of
     None \<Rightarrow> NoFrame | Some i \<Rightarrow> Extracted (the (frame_here text i)))"

lemma first_frame_skip:
  "(\<And>i. i \<in> set ks \<Longrightarrow> frame_here text i = None) \<Longrightarrow> first_frame text (ks @ js) = first_frame text js"
  by (induction ks) (auto simp: first_frame_def)

lemma first_frame_Cons:
  "first_frame text (i # js) = (case frame_here text i of None \<Rightarrow> first_frame text js | Some w \<Rightarrow> Extracted w)"
  by (simp add: first_frame_def split: option.split)

lemma ToUpper_Sentinel [simp]: "ToUpper Sentinel = Sentinel"
  by (simp add: Sentinel_def ToUpper_def upper_char_def in_range_def code_def)

lemma length_Sentinel [simp]: "length Sentinel = 3"
  by (simp add: Sentinel_def)

lemma take_drop_upper: "take 3 (drop j (ToUpper (drop from text))) = ToUpper (slice (from + j) (from + j + 3) text)"
  by (simp add: ToUpper_def slice_def take_map drop_map add.commute)

lemma indexFold_upper_None:
  assumes "indexFold ToUpper text Sentinel from = None" "from \<le> i" "i < length text"
  shows "ToUpper (slice i (i + 3) text) \<noteq> Sentinel"
proof -
  have "\<forall>j \<le> length text - from. ToUpper (slice (from + j) (from + j + 3) text) \<noteq> Sentinel"
    using assms by (simp add: indexFold_def index_of_None_iff take_drop_upper)
  then show ?thesis using assms(2,3) by (metis diff_le_mono le_add_diff_inverse less_imp_le)
qed

lemma indexFold_upper_Some:
  assumes "indexFold ToUpper text Sentinel from = Some idx"
  shows "ToUpper (slice idx (idx + 3) text) = Sentinel" "from \<le> idx" "idx + 3 \<le> length text"
    and "\<And>i. from \<le> i \<Longrightarrow> i < idx \<Longrightarrow> ToUpper (slice i (i + 3) text) \<noteq> Sentinel"
proof -
  obtain j where j: "idx = from + j" "from < length text" "index_of Sentinel (ToUpper (drop from text)) = Some j"
    using assms by (auto simp: indexFold_def split: if_splits)
  then have f: "ToUpper (slice idx (idx + 3) text) = Sentinel"
      "\<forall>k < j. ToUpper (slice (from + k) (from + k + 3) text) \<noteq> Sentinel"
    by (simp_all add: index_of_Some_iff take_drop_upper)
  show "ToUpper (slice idx (idx + 3) text) = Sentinel" "from \<le> idx" using f(1) j(1) by simp_all
  show "idx + 3 \<le> length text" using arg_cong [OF f(1), of length] by simp
  show "ToUpper (slice i (i + 3) text) \<noteq> Sentinel" if "from \<le> i" "i < idx" for i
    using f(2) j(1) that by (metis le_add_diff_inverse nat_add_left_cancel_less)
qed

lemma extract_from_first:
  "extract_from ToUpper text n = first_frame text [n..<length text]"
proof (induction "length text - n" arbitrary: n rule: less_induct)
  case less
  show ?case
  proof (cases "indexFold ToUpper text Sentinel n")
    case None
    then have "frame_here text i = None" if "i \<in> set [n..<length text]" for i
      using that indexFold_upper_None by (simp add: frame_here_def)
    then show ?thesis
      using None first_frame_skip [where ks = "[n..<length text]" and js = "[]"]
      by (subst extract_from.simps) (simp add: first_frame_def)
  next
    case (Some idx)
    note pos = indexFold_upper_Some [OF Some]
    have cut: "[n..<length text] = [n..<idx] @ idx # [idx + 1..<length text]"
      using pos(2,3) upt_add_eq_append [of n idx "length text - idx"] by (simp add: upt_conv_Cons)
    have "first_frame text [n..<length text] = first_frame text (idx # [idx + 1..<length text])"
      unfolding cut by (rule first_frame_skip) (use pos(4) in \<open>auto simp: frame_here_def\<close>)
    moreover have "extract_from ToUpper text (idx + 1) = first_frame text [idx + 1..<length text]"
      using less pos(2,3) by simp
    moreover obtain ok where ok: "boundaryBefore text idx = Some ok"
      using pos(3) by (cases "idx = 0"; cases "length text \<le> idx - 1") (simp_all add: boundaryBefore_def)
    moreover have "frame_here text idx = (if ok then frame_at text (idx + 3) else None)"
      using pos(1) ok by (simp add: frame_here_def)
    ultimately show ?thesis
      using pos(3) unfolding extract_from.simps [of ToUpper "text" n] Some
      by (cases ok; cases "frame_at text (idx + 3)"; simp add: first_frame_Cons)
  qed
qed

text \<open>The Unicode mapping is not length preserving: the letter U+0250 has two bytes, its upper
  case U+2C6F three. With it the position found in the mapped text is not one of the text, and
  the scan of a short text indexes past its end.\<close>

fun upper_turned_a :: "string \<Rightarrow> string" where
  "upper_turned_a [] = []"
| "upper_turned_a [c] = [upper_char c]"
| "upper_turned_a (c # d # s) =
     (if c = CHR 0xC9 \<and> d = CHR 0x90 then [CHR 0xE2, CHR 0xB1, CHR 0xAF] @ upper_turned_a s
      else upper_char c # upper_turned_a (d # s))"

lemma extract_index_panic:
  "ExtractFrame upper_turned_a (concat (replicate 4 [CHR 0xC9, CHR 0x90]) @ ''MS:'') = ExtractPanic"
  by code_simp

lemma frame_at_Encode:
  assumes "ParseHeader wire = Inr h" "post = [] \<or> \<not> isRunChar (hd post)"
  shows "frame_at (pre @ Encode wire @ post) (length pre + 3) = Some wire"
proof -
  have len: "25 \<le> length wire" "length wire \<le> 98"
    using assms(1) by (auto simp: ParseHeader_def split: if_splits)
  have "\<forall>d < 32. isRunChar (alphabet ! d)" by code_simp
  then have "\<forall>c \<in> set (EncodeToString wire). isRunChar c"
    using enc_blocks_range by (auto simp: EncodeToString_def)
  then have run: "takeWhile isRunChar (EncodeToString wire @ post) = EncodeToString wire"
    using assms(2) by (cases post) (simp_all add: takeWhile_append2)
  have "40 \<le> length (EncodeToString wire)" "length (EncodeToString wire) \<le> 157"
    using text_length_bounds [OF len] by (simp_all add: length_EncodeToString)
  then show ?thesis
    by (simp add: frame_at_def Encode_def run Decode_run [OF len] assms(1))
qed

lemma frame_here_Encode:
  assumes "ParseHeader wire = Inr h" "post = [] \<or> \<not> isRunChar (hd post)"
    and "pre = [] \<or> last pre \<in> {CHR '' '', CHR 0x09, CHR 0x0A, CHR 0x0D, CHR '']'', CHR ''>'', CHR '':''}"
  shows "frame_here (pre @ Encode wire @ post) (length pre) = Some wire"
proof -
  have "boundaryBefore (pre @ Encode wire @ post) (length pre) = Some True"
    using assms(3) by (cases pre rule: rev_cases) (auto simp: boundaryBefore_def nth_append)
  moreover have "slice (length pre) (length pre + 3) (pre @ Encode wire @ post) = Sentinel"
    by (simp add: Encode_def)
  ultimately show ?thesis
    by (simp add: frame_here_def frame_at_Encode [OF assms(1,2)])
qed

lemma first_frame_found:
  assumes "i < n" "frame_here text i = Some wire"
  shows "\<exists>j \<le> i. \<exists>w. frame_here text j = Some w \<and> first_frame text [0..<n] = Extracted w"
proof (cases "List.find (\<lambda>i. frame_here text i \<noteq> None) [0..<n]")
  case None
  then show ?thesis using assms by (auto simp: find_None_iff)
next
  case (Some j)
  then have j: "j < n" "frame_here text j \<noteq> None" "\<forall>k < j. frame_here text k = None"
    by (auto simp: find_Some_iff)
  then have "j \<le> i" using assms(2) by (metis not_le option.distinct(1))
  then show ?thesis using Some j by (auto simp: first_frame_def)
qed

section \<open>Properties\<close>

text \<open>C32: Sealing and opening a management frame are inverse to each other: a byte string opens
  to a frame under a key and a sender role exactly when sealing that frame gives that byte
  string. So every frame that can be sealed is recovered with its flags, counter, expiry and
  arguments, and nothing opens that sealing would not have produced. Sealed frames have 25 to
  98 bytes, and two frames share a nonce only when peer, role, direction and counter agree.\<close>

theorem oob_frame_bijection:
  assumes "aead_documented A"
  shows "(Open A wire key r = Inr f \<longleftrightarrow> Seal A f key r = Inr wire) \<and>
    (Seal A f key r = Inr wire \<longrightarrow> 25 \<le> length wire \<and> length wire \<le> 98) \<and>
    (Nonce p s d c = Nonce p' s' d' c' \<longleftrightarrow> (p, s, d, c) = (p', s', d', c'))"
  using Open_Seal_iff [OF assms] Seal_length [OF assms] Nonce_inject by auto

definition ping_frame :: Frame where
  "ping_frame = \<lparr>f_Enc = True, f_Reply = False, f_NoReply = False, f_PeerID = 18, f_Counter = 7,
     f_Cmd = 1, f_Args = [5, 6], f_ExpiresAt = 60\<rparr>"

definition ping_wire :: bytes where
  "ping_wire = [0x4F, 0x19, 0, 18, 0, 0, 0, 7, 1, 0, 0, 0, 60, 5, 6] @ replicate 16 7"

theorem oob_frame_bijection_witness:
  "Seal toy_gcm ping_frame (replicate 32 9) RoleIssuer = Inr ping_wire \<and>
   Open toy_gcm ping_wire (replicate 32 9) RoleIssuer = Inr ping_frame \<and>
   25 \<le> length ping_wire \<and> length ping_wire \<le> 98 \<and>
   Nonce 1 RoleIssuer DirRequest 2 \<noteq> Nonce 1 RoleIssuer DirReply 2"
proof -
  have "Seal toy_gcm ping_frame (replicate 32 9) RoleIssuer = Inr ping_wire"
    by code_simp
  then show ?thesis
    using oob_frame_bijection [OF toy_gcm_documented, of ping_wire "replicate 32 9" RoleIssuer ping_frame
        1 RoleIssuer DirRequest 2 1 RoleIssuer DirReply 2] by simp
qed

text \<open>C33: The scan of a text for a management frame returns the leftmost one and, with the
  length-preserving upper-case mapping of ASCII text, never indexes outside the text. A frame
  in its text form that stands at the start of the text or after a separator, and is not
  followed by another base32 character, is found, unless an earlier one is.\<close>

theorem extract_leftmost_frame:
  "ExtractFrame ToUpper text = first_frame text [0..<length text] \<and>
   (text = pre @ Encode wire @ post \<and> ParseHeader wire = Inr h \<and> (post = [] \<or> \<not> isRunChar (hd post)) \<and>
    (pre = [] \<or> last pre \<in> {CHR '' '', CHR 0x09, CHR 0x0A, CHR 0x0D, CHR '']'', CHR ''>'', CHR '':''}) \<longrightarrow>
    (\<exists>j \<le> length pre. \<exists>w. frame_here text j = Some w \<and> ExtractFrame ToUpper text = Extracted w \<and>
       (j = length pre \<longrightarrow> w = wire)))"
proof (intro conjI impI)
  show scan: "ExtractFrame ToUpper text = first_frame text [0..<length text]"
    by (simp add: ExtractFrame_def extract_from_first)
  assume "text = pre @ Encode wire @ post \<and> ParseHeader wire = Inr h \<and> (post = [] \<or> \<not> isRunChar (hd post)) \<and>
    (pre = [] \<or> last pre \<in> {CHR '' '', CHR 0x09, CHR 0x0A, CHR 0x0D, CHR '']'', CHR ''>'', CHR '':''})"
  then have "frame_here text (length pre) = Some wire" "length pre < length text"
    using frame_here_Encode by (auto simp: Encode_def Sentinel_def)
  then show "\<exists>j \<le> length pre. \<exists>w. frame_here text j = Some w \<and> ExtractFrame ToUpper text = Extracted w \<and>
       (j = length pre \<longrightarrow> w = wire)"
    using first_frame_found [of "length pre" "length text" "text" wire] unfolding scan by (metis option.inject)
qed

theorem extract_leftmost_frame_witness:
  "\<exists>j \<le> 4. \<exists>w. frame_here (''SMS '' @ Encode ping_wire @ '' bye'') j = Some w \<and>
     ExtractFrame ToUpper (''SMS '' @ Encode ping_wire @ '' bye'') = Extracted w \<and> (j = 4 \<longrightarrow> w = ping_wire)"
proof -
  have "\<exists>h. ParseHeader ping_wire = Inr h"
    by (rule exI, simp add: ParseHeader_def ping_wire_def Magic_def VersionNibble_def Version_def Let_def)
  then obtain h where h: "ParseHeader ping_wire = Inr h" ..
  define pre where "pre = ''SMS ''"
  have pre: "length pre = 4" "last pre = CHR '' ''" by (simp_all add: pre_def)
  have "\<exists>j \<le> length pre. \<exists>w. frame_here (pre @ Encode ping_wire @ '' bye'') j = Some w \<and>
     ExtractFrame ToUpper (pre @ Encode ping_wire @ '' bye'') = Extracted w \<and> (j = length pre \<longrightarrow> w = ping_wire)"
    by (rule mp [OF conjunct2 [OF extract_leftmost_frame [where h = h and post = "'' bye''"]]])
      (simp add: h pre isRunChar_def in_range_def code_def)
  then show ?thesis unfolding pre by (simp only: pre_def)
qed

end
