(* ===== verification/OobCommands.thy ===== *)
theory OobCommands
  imports OobFrame Wire
begin

text \<open>
  The allowlisted out-of-band commands, their arguments and the arguments of replies
  (\<open>internal/oob/commands.go\<close>). Error values stand for the messages of the code.
\<close>

record Command =
  c_Code :: byte
  c_Name :: string

definition CmdPing :: byte where "CmdPing = 1"
definition CmdReboot :: byte where "CmdReboot = 2"
definition CmdRestart :: byte where "CmdRestart = 3"
definition CmdReset :: byte where "CmdReset = 4"
definition CmdBearer :: byte where "CmdBearer = 5"
definition CmdLog :: byte where "CmdLog = 6"
definition CmdStatusNet :: byte where "CmdStatusNet = 7"

lemmas cmd_codes = CmdPing_def CmdReboot_def CmdRestart_def CmdReset_def CmdBearer_def CmdLog_def CmdStatusNet_def

definition Commands :: "Command list" where
  "Commands = map (\<lambda>(c, n). \<lparr>c_Code = c, c_Name = n\<rparr>)
     [(CmdPing, ''PING''), (CmdReboot, ''REBOOT''), (CmdRestart, ''RESTART''), (CmdReset, ''RESET''),
      (CmdBearer, ''BEARER''), (CmdLog, ''LOG''), (CmdStatusNet, ''STATUS-NET'')]"

definition hubNames :: "string \<rightharpoonup> byte" where
  "hubNames = map_of
     [(''ping'', CmdPing), (''mgmt_ping'', CmdPing),
      (''mgmt_status'', CmdStatusNet), (''status'', CmdStatusNet), (''status_net'', CmdStatusNet), (''status-net'', CmdStatusNet),
      (''mgmt_log'', CmdLog), (''log'', CmdLog),
      (''mgmt_reset'', CmdReset), (''reset'', CmdReset),
      (''mgmt_bearer'', CmdBearer), (''bearer'', CmdBearer),
      (''mgmt_restart'', CmdRestart), (''restart'', CmdRestart),
      (''reboot'', CmdReboot), (''mgmt_reboot'', CmdReboot)]"

definition CommandByCode :: "byte \<Rightarrow> Command option" where
  "CommandByCode b = List.find (\<lambda>c. c_Code c = b) Commands"

definition CommandByName :: "string \<Rightarrow> Command option" where
  "CommandByName name =
     (let n = ToLower (TrimSpace name)
      in case hubNames n of
           Some b \<Rightarrow> CommandByCode b
         | None \<Rightarrow>
             let u = ToUpper (map (\<lambda>c. if c = CHR ''_'' then CHR ''-'' else c) n)
             in List.find (\<lambda>c. c_Name c = u) Commands)"

text \<open>\<open>ResultCode.String\<close>.\<close>

definition rc_names :: "string list" where
  "rc_names = [''ok'', ''denied'', ''bad_args'', ''unavailable'', ''refused'', ''agent_error'', ''unknown_cmd'',
     ''busy'', ''key_exhausted'']"

definition ResultCode_String :: "byte \<Rightarrow> string" where
  "ResultCode_String rc = (if unat rc < 9 then rc_names ! unat rc else ''rc'' @ dec_digits (unat rc))"

definition EncodeRebootArgs :: "16 word \<Rightarrow> bytes" where "EncodeRebootArgs delay = put_u16_be delay"
definition EncodeResetArgs :: "byte \<Rightarrow> byte \<Rightarrow> bytes" where "EncodeResetArgs target level = [target, level]"
definition EncodeBearerArgs :: "byte \<Rightarrow> byte \<Rightarrow> bytes" where "EncodeBearerArgs target state = [target, state]"
definition EncodeLogArgs :: "byte \<Rightarrow> byte \<Rightarrow> bytes" where "EncodeLogArgs unit lines = [unit, lines]"

record ReplyArgs =
  ra_RC :: byte
  ra_ReqCounterLo :: "16 word"
  ra_Seq :: byte
  ra_Total :: byte
  ra_Body :: bytes

definition EncodeReplyArgs :: "ReplyArgs \<Rightarrow> bytes" where
  "EncodeReplyArgs r = [ra_RC r] @ put_u16_be (ra_ReqCounterLo r) @ [ra_Seq r, ra_Total r] @ ra_Body r"

definition ParseReplyArgs :: "bytes \<Rightarrow> ReplyArgs option" where
  "ParseReplyArgs args =
     (if length args < 5 then None
      else Some \<lparr>ra_RC = args ! 0, ra_ReqCounterLo = get_u16_be (slice 1 3 args), ra_Seq = args ! 3,
                 ra_Total = args ! 4, ra_Body = drop 5 args\<rparr>)"

record Target =
  t_Code :: byte
  t_Name :: string
  t_IfaceID :: string

definition Targets :: "Target list" where
  "Targets = map (\<lambda>(c, n, i). \<lparr>t_Code = c, t_Name = n, t_IfaceID = i\<rparr>)
     [(0x01, ''wifi'', ''''), (0x02, ''usb_wifi'', ''''), (0x03, ''cellular'', ''cellular_0''), (0x04, ''mesh'', ''mesh_0''),
      (0x05, ''iridium'', ''iridium_0''), (0x06, ''imt'', ''iridium_imt_0''), (0x07, ''zigbee'', ''zigbee_0''), (0x08, ''ble'', ''ble_0''),
      (0x09, ''aprs'', ''aprs_0''), (0x0A, ''gps'', ''''), (0x0B, ''rtl_sdr'', ''''), (0x7E, ''bridge'', ''''), (0x7F, ''host'', '''')]"

definition TargetByName :: "string \<Rightarrow> Target option" where
  "TargetByName name = (let n = ToLower (TrimSpace name) in List.find (\<lambda>t. t_Name t = n) Targets)"

definition LogUnits :: "string list" where
  "LogUnits = [''meshsat-oob-agent'', ''docker'', ''netplan-wpa-wlan0'', ''systemd-networkd'',
     ''x1202-monitor'', ''meshsat-mgmt-keepalive'', ''meshsat-p2p-link'', ''bluetooth'']"

definition LogUnitIndex :: "string \<Rightarrow> byte option" where
  "LogUnitIndex name = map_option of_nat (List.find (\<lambda>i. LogUnits ! i = name) [0..<length LogUnits])"

record ArgSpec =
  a_Delay :: int
  a_Target :: string
  a_Level :: int
  a_State :: string
  a_Unit :: string
  a_Lines :: int

datatype args_err = UnknownTarget string | BadLevel | NotBearerTarget string | BadState | UnknownLogUnit string
  | UnknownCommand

definition BuildArgs :: "byte \<Rightarrow> ArgSpec \<Rightarrow> args_err + bytes" where
  "BuildArgs cmd a =
     (if cmd = CmdPing \<or> cmd = CmdRestart \<or> cmd = CmdStatusNet then Inr []
      else if cmd = CmdReboot then
        (let d = (if a_Delay a \<le> 0 then 10 else a_Delay a);
             d = min d 3600
         in Inr (EncodeRebootArgs (of_int d)))
      else if cmd = CmdReset then
        (case TargetByName (a_Target a) of
           None \<Rightarrow> Inl (UnknownTarget (a_Target a))
         | Some t \<Rightarrow>
             let level = (if a_Level a = 0 then 1 else a_Level a)
             in if level < 1 \<or> level > 3 then Inl BadLevel
                else Inr (EncodeResetArgs (t_Code t) (of_int level)))
      else if cmd = CmdBearer then
        (case TargetByName (a_Target a) of
           None \<Rightarrow> Inl (NotBearerTarget (a_Target a))
         | Some t \<Rightarrow>
             if t_IfaceID t = '''' then Inl (NotBearerTarget (a_Target a))
             else let s = ToLower (TrimSpace (a_State a))
                  in if s \<in> {''on'', ''1'', ''true'', ''up''} then Inr (EncodeBearerArgs (t_Code t) 1)
                     else if s \<in> {''off'', ''0'', ''false'', ''down''} then Inr (EncodeBearerArgs (t_Code t) 0)
                     else Inl BadState)
      else if cmd = CmdLog then
        (case LogUnitIndex (TrimSpace (a_Unit a)) of
           None \<Rightarrow> Inl (UnknownLogUnit (a_Unit a))
         | Some idx \<Rightarrow>
             let lines = (if a_Lines a \<le> 0 then 10 else a_Lines a);
                 lines = min lines 20
             in Inr (EncodeLogArgs idx (of_int lines)))
      else Inl UnknownCommand)"

section \<open>What the bridge can receive\<close>

text \<open>The arguments the allowlist permits for each command, as the bridge reads them.\<close>

definition permitted_args :: "byte \<Rightarrow> bytes \<Rightarrow> bool" where
  "permitted_args cmd args \<longleftrightarrow>
     (cmd \<in> {CmdPing, CmdRestart, CmdStatusNet} \<and> args = []) \<or>
     (cmd = CmdReboot \<and> length args = 2 \<and> 1 \<le> be_val args \<and> be_val args \<le> 3600) \<or>
     (cmd = CmdReset \<and> length args = 2 \<and> args ! 0 \<in> t_Code ` set Targets \<and> args ! 1 \<in> {1, 2, 3}) \<or>
     (cmd = CmdBearer \<and> length args = 2 \<and> args ! 0 \<in> t_Code ` {t \<in> set Targets. t_IfaceID t \<noteq> ''''} \<and> args ! 1 \<in> {0, 1}) \<or>
     (cmd = CmdLog \<and> length args = 2 \<and> unat (args ! 0) < length LogUnits \<and> 1 \<le> unat (args ! 1) \<and> unat (args ! 1) \<le> 20)"

lemma find_mem: "List.find P xs = Some x \<Longrightarrow> x \<in> set xs \<and> P x"
  by (auto simp: find_Some_iff)

lemma TargetByName_mem: "TargetByName name = Some t \<Longrightarrow> t \<in> set Targets"
  by (auto simp: TargetByName_def Let_def dest: find_mem)

lemma reboot_args:
  assumes "1 \<le> d" "d \<le> 3600"
  shows "length (EncodeRebootArgs (of_int d)) = 2 \<and> be_val (EncodeRebootArgs (of_int d)) = nat d"
  using assms unat_of_int_bound [where 'a = 16, of d]
  by (simp add: EncodeRebootArgs_def put_u16_be_def)

lemma LogUnitIndex_range: "LogUnitIndex name = Some i \<Longrightarrow> unat i < length LogUnits"
proof -
  assume "LogUnitIndex name = Some i"
  then obtain k where "List.find (\<lambda>i. LogUnits ! i = name) [0..<length LogUnits] = Some k" "i = of_nat k"
    by (auto simp: LogUnitIndex_def)
  moreover have "length LogUnits = 8" by (simp add: LogUnits_def)
  ultimately show ?thesis by (auto dest!: find_mem simp: unat_of_nat)
qed

lemma level_cases: "1 \<le> (l :: int) \<Longrightarrow> l \<le> 3 \<Longrightarrow> (of_int l :: byte) \<in> {1, 2, 3}"
proof -
  assume "1 \<le> l" "l \<le> 3"
  then have "l = 1 \<or> l = 2 \<or> l = 3" by linarith
  then show ?thesis by auto
qed

lemma BuildArgs_permitted:
  assumes ok: "BuildArgs cmd a = Inr args"
  shows "permitted_args cmd args"
proof -
  consider "cmd \<in> {CmdPing, CmdRestart, CmdStatusNet}" | "cmd = CmdReboot" | "cmd = CmdReset" | "cmd = CmdBearer" | "cmd = CmdLog"
    using ok by (auto simp: BuildArgs_def split: if_splits)
  then show ?thesis
  proof cases
    case 1
    then show ?thesis using ok by (auto simp: BuildArgs_def permitted_args_def)
  next
    case 2
    define d where "d = min (if a_Delay a \<le> 0 then 10 else a_Delay a) 3600"
    have "1 \<le> d" "d \<le> 3600" by (auto simp: d_def)
    moreover have "args = EncodeRebootArgs (of_int d)"
      using 2 ok by (simp add: BuildArgs_def cmd_codes d_def)
    moreover have "1 \<le> nat d \<and> nat d \<le> 3600" using \<open>1 \<le> d\<close> \<open>d \<le> 3600\<close> by linarith
    ultimately show ?thesis using reboot_args [of d] 2 unfolding permitted_args_def
      by - (rule disjI2, rule disjI1, simp)
  next
    case 3
    define l where "l = (if a_Level a = 0 then 1 else a_Level a)"
    obtain t where t: "TargetByName (a_Target a) = Some t"
      using 3 ok by (auto simp: BuildArgs_def cmd_codes split: option.splits)
    then have "1 \<le> l" "l \<le> 3" "args = [t_Code t, of_int l]"
      using 3 ok by (auto simp: BuildArgs_def cmd_codes l_def EncodeResetArgs_def Let_def split: if_splits)
    then show ?thesis using level_cases [of l] TargetByName_mem [OF t] 3 unfolding permitted_args_def
      by - (rule disjI2, rule disjI2, rule disjI1, simp)
  next
    case 4
    obtain t where t: "TargetByName (a_Target a) = Some t" "t_IfaceID t \<noteq> ''''"
      using 4 ok by (auto simp: BuildArgs_def cmd_codes split: option.splits if_splits)
    then have "args = [t_Code t, 1] \<or> args = [t_Code t, 0]"
      using 4 ok by (auto simp: BuildArgs_def cmd_codes EncodeBearerArgs_def Let_def split: if_splits)
    moreover have "t_Code t \<in> t_Code ` {t \<in> set Targets. t_IfaceID t \<noteq> ''''}"
      using TargetByName_mem [OF t(1)] t(2) by blast
    ultimately show ?thesis using 4 unfolding permitted_args_def
      by - (rule disjI2, rule disjI2, rule disjI2, rule disjI1, elim disjE; simp)
  next
    case 5
    define n where "n = min (if a_Lines a \<le> 0 then 10 else a_Lines a) 20"
    have n: "1 \<le> n" "n \<le> 20" by (auto simp: n_def)
    obtain i where i: "LogUnitIndex (TrimSpace (a_Unit a)) = Some i"
      using 5 ok by (auto simp: BuildArgs_def cmd_codes split: option.splits)
    then have "args = [i, of_int n]"
      using 5 ok by (simp add: BuildArgs_def cmd_codes n_def EncodeLogArgs_def)
    moreover have "1 \<le> nat n \<and> nat n \<le> 20" using n by linarith
    ultimately show ?thesis
      using LogUnitIndex_range [OF i] n unat_of_int_bound [where 'a = 8, of n] 5
      unfolding permitted_args_def by (intro disjI2) simp
  qed
qed

lemma permitted_args_length: "permitted_args cmd args \<Longrightarrow> length args \<le> 2"
  by (auto simp: permitted_args_def)



lemma find_key: "x \<in> set xs \<Longrightarrow> distinct (map f xs) \<Longrightarrow> List.find (\<lambda>y. f y = f x) xs = Some x"
  by (induction xs) auto

lemma CommandByCode_mem: "c \<in> set Commands \<Longrightarrow> CommandByCode (c_Code c) = Some c"
proof -
  assume c: "c \<in> set Commands"
  have "distinct (map c_Code Commands)" by (simp add: Commands_def cmd_codes)
  then show ?thesis unfolding CommandByCode_def by (rule find_key [OF c])
qed

lemma CommandByName_mem: "CommandByName name = Some c \<Longrightarrow> c \<in> set Commands"
  by (auto simp: CommandByName_def CommandByCode_def Let_def dest: find_mem split: option.splits)

lemma ParseReplyArgs_Encode: "ParseReplyArgs (EncodeReplyArgs r) = Some r"
  by (simp add: ParseReplyArgs_def EncodeReplyArgs_def slice_def nth_append numeral_eq_Suc)

lemma EncodeReplyArgs_Parse:
  assumes "ParseReplyArgs args = Some r"
  shows "EncodeReplyArgs r = args"
proof -
  have len: "5 \<le> length args" using assms by (auto simp: ParseReplyArgs_def split: if_splits)
  have "args = take 1 args @ slice 1 3 args @ slice 3 5 args @ drop 5 args"
    by (metis append_take_drop_id drop_eq_slice numeral_le_iff one_le_numeral semiring_norm(68,71,73))
  moreover have "take 1 args = [args ! 0]" "slice 3 5 args = [args ! 3, args ! 4]"
    using len by (auto intro!: nth_equalityI simp: less_2_cases_iff nth_slice)
  ultimately show ?thesis
    using assms len by (auto simp: ParseReplyArgs_def EncodeReplyArgs_def)
qed

section \<open>Properties\<close>

text \<open>C34: A command the hub builds from an operator's request is on the allowlist and its
  arguments are ones the bridge accepts: a reboot delay of 1 to 3600 seconds, a reset of a known
  target at level 1 to 3, a switch of a target that is a bearer, at most 20 lines of a known log
  unit. They always leave room for the expiry in the frame. The name resolves to the command that
  has its code, and the arguments of a reply are recovered exactly from their wire form.\<close>

theorem commands_allowlisted:
  "(CommandByName name = Some c \<longrightarrow> c \<in> set Commands \<and> CommandByCode (c_Code c) = Some c) \<and>
   (BuildArgs cmd a = Inr args \<longrightarrow> permitted_args cmd args \<and> length args + 4 \<le> 73) \<and>
   (ParseReplyArgs wire = Some r \<longleftrightarrow> wire = EncodeReplyArgs r)"
  using CommandByName_mem CommandByCode_mem BuildArgs_permitted permitted_args_length
    ParseReplyArgs_Encode EncodeReplyArgs_Parse by fastforce

theorem commands_allowlisted_witness:
  "CommandByName ''mgmt_reboot'' = Some \<lparr>c_Code = 2, c_Name = ''REBOOT''\<rparr> \<and>
   BuildArgs 2 \<lparr>a_Delay = 5000, a_Target = [], a_Level = 0, a_State = [], a_Unit = [], a_Lines = 0\<rparr> = Inr [14, 16] \<and>
   permitted_args 2 [14, 16]"
proof -
  have b: "BuildArgs 2 \<lparr>a_Delay = 5000, a_Target = [], a_Level = 0, a_State = [], a_Unit = [], a_Lines = 0\<rparr> = Inr [14, 16]"
    by (simp add: BuildArgs_def cmd_codes EncodeRebootArgs_def put_u16_be_def be_bytes_def le_bytes_2)
  have "TrimSpace ''mgmt_reboot'' = ''mgmt_reboot''"
    by (rule TrimSpace_solid) (simp_all add: solid_def in_range_def code_def)
  then have n: "CommandByName ''mgmt_reboot'' = Some \<lparr>c_Code = 2, c_Name = ''REBOOT''\<rparr>"
    by (simp add: CommandByName_def ToLower_def lower_char_def in_range_def code_def hubNames_def CommandByCode_def
        Commands_def cmd_codes)
  have "permitted_args 2 [14, 16]"
    using commands_allowlisted b by blast
  then show ?thesis using b n by blast
qed

end
