(* ===== verification/Replay.thy ===== *)
theory Replay
  imports Runs
begin

text \<open>
  The replay window of the out-of-band management frames (\<open>internal/oob/replay.go\<close>): the
  highest counter and a 64-bit map of the counters below it. The specification remembers
  every accepted counter; the window gives the same answers, through restarts that reload
  the persisted state. Integers keep the widths of the code.
\<close>

record Window =
  high :: "32 word"
  bits :: "64 word"

definition Window_zero :: Window where
  "Window_zero = \<lparr>high = 0, bits = 0\<rparr>"

definition Window_Load :: "32 word \<Rightarrow> 64 word \<Rightarrow> Window \<Rightarrow> Window" where
  "Window_Load h b w = w\<lparr>high := h, bits := b\<rparr>"

definition Window_State :: "Window \<Rightarrow> 32 word \<times> 64 word" where
  "Window_State w = (high w, bits w)"

definition Window_Accept :: "32 word \<Rightarrow> Window \<Rightarrow> bool \<times> Window" where
  "Window_Accept counter w =
     (if counter = 0 then (False, w)
      else if high w < counter then
        (let shift = unat (counter - high w);
             moved = (if 64 \<le> shift then 0 else push_bit shift (bits w))
         in (True, \<lparr>high = counter, bits = moved OR 1\<rparr>))
      else
        (let diff = unat (high w - counter)
         in if 64 \<le> diff then (False, w)
            else if bits w AND push_bit diff 1 \<noteq> 0 then (False, w)
            else (True, w\<lparr>bits := bits w OR push_bit diff 1\<rparr>)))"

section \<open>Specification\<close>

text \<open>The specification keeps the accepted counters. A counter is fresh when it is not
  zero, was not accepted before and is less than 64 below the highest accepted one.\<close>

definition top :: "32 word list \<Rightarrow> nat" where
  "top seen = fold max (map unat seen) 0"

definition spec_Accept :: "32 word \<Rightarrow> 32 word list \<Rightarrow> bool \<times> 32 word list" where
  "spec_Accept c seen =
     (if c \<noteq> 0 \<and> c \<notin> set seen \<and> top seen < unat c + 64 then (True, c # seen) else (False, seen))"

datatype replay_event = Arrive "32 word" | Restart

fun window_step :: "replay_event \<Rightarrow> Window \<Rightarrow> bool \<times> Window" where
  "window_step (Arrive c) w = Window_Accept c w"
| "window_step Restart w = (let (h, b) = Window_State w in (True, Window_Load h b Window_zero))"

fun replay_spec_step :: "replay_event \<Rightarrow> 32 word list \<Rightarrow> bool \<times> 32 word list" where
  "replay_spec_step (Arrive c) seen = spec_Accept c seen"
| "replay_spec_step Restart seen = (True, seen)"

definition window_rel :: "Window \<Rightarrow> 32 word list \<Rightarrow> bool" where
  "window_rel w seen \<longleftrightarrow> unat (high w) = top seen \<and>
     (\<forall>i < 64. bit (bits w) i \<longleftrightarrow> (\<exists>c \<in> set seen. unat c + i = top seen))"

text \<open>The accepted counters of a run.\<close>

fun accepted :: "replay_event list \<Rightarrow> bool list \<Rightarrow> 32 word list" where
  "accepted (Arrive c # es) (True # outs) = c # accepted es outs"
| "accepted (e # es) (ok # outs) = accepted es outs"
| "accepted es outs = []"

section \<open>The simulation\<close>

lemma top_Nil [simp]: "top [] = 0"
  by (simp add: top_def)

lemma fold_max_init: "fold max xs (max a b) = max a (fold max xs (b :: nat))"
  by (induction xs arbitrary: b) (simp_all add: max.left_commute [of _ a])

lemma top_Cons [simp]: "top (c # seen) = max (unat c) (top seen)"
  by (simp add: top_def) (metis fold_max_init max.commute max_nat.right_neutral)

lemma top_ge: "c \<in> set seen \<Longrightarrow> unat c \<le> top seen"
  by (induction seen) auto

lemma accept_above:
  assumes rel: "window_rel w seen" and above: "high w < c"
  shows "Window_Accept c w = (True, snd (Window_Accept c w)) \<and> fst (spec_Accept c seen) \<and>
    window_rel (snd (Window_Accept c w)) (snd (spec_Accept c seen))"
proof -
  define s where "s = unat (c - high w)"
  have h: "unat (high w) = top seen" using rel by (simp add: window_rel_def)
  have lt: "top seen < unat c" using above h by (simp add: word_less_nat_alt)
  have s: "unat c = top seen + s"
    using lt h above by (simp add: s_def unat_sub_if')
  have new: "c \<notin> set seen" using top_ge lt by (metis not_le)
  have c0: "c \<noteq> 0" using lt by auto
  have spec: "spec_Accept c seen = (True, c # seen)"
    using lt new c0 by (simp add: spec_Accept_def)
  define moved where "moved = (if 64 \<le> s then 0 else push_bit s (bits w))"
  have acc: "Window_Accept c w = (True, \<lparr>high = c, bits = moved OR 1\<rparr>)"
    using c0 above by (simp add: Window_Accept_def s_def moved_def Let_def)
  have "bit (moved OR 1) i \<longleftrightarrow> (\<exists>x \<in> set (c # seen). unat x + i = unat c)" if i: "i < 64" for i
  proof -
    have "(\<exists>x \<in> set seen. unat x + i = unat c) \<longleftrightarrow> s \<le> i \<and> (\<exists>x \<in> set seen. unat x + (i - s) = top seen)"
      unfolding s using top_ge by force
    also have "\<dots> \<longleftrightarrow> bit moved i"
      using rel i by (auto simp: window_rel_def moved_def bit_simps)
    finally show ?thesis
      by (auto simp: bit_simps)
  qed
  then show ?thesis
    using lt by (simp add: acc spec window_rel_def max_def)
qed

lemma accept_below:
  assumes rel: "window_rel w seen" and below: "\<not> high w < c" and c0: "c \<noteq> 0"
  shows "fst (Window_Accept c w) = fst (spec_Accept c seen) \<and>
    window_rel (snd (Window_Accept c w)) (snd (spec_Accept c seen))"
proof -
  define d where "d = unat (high w - c)"
  have h: "unat (high w) = top seen" using rel by (simp add: window_rel_def)
  have d: "top seen = unat c + d"
    using below h by (simp add: d_def unat_sub_if' word_less_nat_alt)
  have seen: "bit (bits w) d \<longleftrightarrow> c \<in> set seen" if "d < 64"
    using rel that d by (auto simp: window_rel_def) (metis word_unat_eq_iff)
  show ?thesis
  proof (cases "64 \<le> d \<or> bit (bits w) d")
    case True
    then have "Window_Accept c w = (False, w)"
      using c0 below by (auto simp: Window_Accept_def Let_def d_def [symmetric] and_exp_eq_0_iff_not_bit)
    moreover have "spec_Accept c seen = (False, seen)"
      using True seen d by (auto simp: spec_Accept_def not_less)
    ultimately show ?thesis using rel by simp
  next
    case False
    then have "Window_Accept c w = (True, w\<lparr>bits := bits w OR push_bit d 1\<rparr>)"
      using c0 below by (simp add: Window_Accept_def Let_def d_def [symmetric] and_exp_eq_0_iff_not_bit)
    moreover have "spec_Accept c seen = (True, c # seen)"
      using False seen d c0 by (auto simp: spec_Accept_def)
    moreover have "window_rel (w\<lparr>bits := bits w OR push_bit d 1\<rparr>) (c # seen)"
      using rel d False by (auto simp: window_rel_def bit_simps max_def)
    ultimately show ?thesis by simp
  qed
qed

lemma window_step_sim:
  assumes "window_rel w seen"
  shows "fst (window_step e w) = fst (replay_spec_step e seen) \<and>
    window_rel (snd (window_step e w)) (snd (replay_spec_step e seen))"
proof (cases e)
  case (Arrive c)
  consider "c = 0" | "high w < c" | "\<not> high w < c" "c \<noteq> 0" by blast
  then show ?thesis
  proof cases
    case 1
    then show ?thesis using assms Arrive by (simp add: Window_Accept_def spec_Accept_def)
  next
    case 2
    then show ?thesis using accept_above [OF assms 2] Arrive by (metis fst_conv window_step.simps(1) replay_spec_step.simps(1))
  next
    case 3
    then show ?thesis using accept_below [OF assms 3] Arrive by simp
  qed
next
  case Restart
  then show ?thesis
    using assms by (simp add: Window_State_def Window_Load_def Window_zero_def window_rel_def)
qed

interpretation rw: timed_simulation window_step replay_spec_step "\<lambda>_. 0" "\<lambda>_. window_rel"
  by unfold_locales (simp_all add: window_step_sim)

lemma accepted_spec_distinct:
  "distinct (accepted es (fst (run replay_spec_step es seen))) \<and>
   set (accepted es (fst (run replay_spec_step es seen))) \<inter> set seen = {}"
proof (induction es arbitrary: seen)
  case (Cons e es)
  show ?case
  proof (cases e)
    case (Arrive c)
    show ?thesis
    proof (cases "fst (spec_Accept c seen)")
      case True
      then have "spec_Accept c seen = (True, c # seen)" "c \<notin> set seen"
        by (auto simp: spec_Accept_def split: if_splits)
      then show ?thesis using Cons.IH [of "c # seen"] Arrive by (auto simp: case_prod_beta)
    next
      case False
      then have "spec_Accept c seen = (False, seen)"
        by (auto simp: spec_Accept_def split: if_splits)
      then show ?thesis using Cons.IH [of seen] Arrive by (simp add: case_prod_beta)
    qed
  next
    case Restart
    then show ?thesis using Cons.IH [of seen] by (simp add: case_prod_beta)
  qed
qed simp

text \<open>C17: Over any sequence of frames and restarts, the replay window answers exactly as the
  specification that remembers every accepted counter: a counter is accepted when it is not
  zero, was not accepted before and is less than 64 below the highest one. No counter is
  accepted twice.\<close>

theorem replay_window_refines:
  "fst (run window_step es Window_zero) = fst (run replay_spec_step es []) \<and>
   distinct (accepted es (fst (run window_step es Window_zero)))"
proof -
  have "window_rel Window_zero []"
    by (simp add: window_rel_def Window_zero_def)
  moreover have "sorted (map (\<lambda>_. 0 :: instant) es)"
    by (simp add: map_replicate_const)
  ultimately have "fst (run window_step es Window_zero) = fst (run replay_spec_step es [])"
    using rw.run_sim [where now = 0 and s = Window_zero and t = "[]" and es = es] by simp
  then show ?thesis using accepted_spec_distinct by metis
qed

end
