(* ===== verification/OobService.thy ===== *)
theory OobService
  imports OobCommands Replay "HOL-Library.Char_ord" "HOL-Library.List_Lexorder" "HOL-Library.Product_Lexorder"
begin

text \<open>
  The out-of-band management service (\<open>internal/oob/service.go\<close>, \<open>fanout.go\<close>,
  \<open>late.go\<close>) over its table of paired bridges (\<open>internal/store/sqlite/oob.go\<close>): pairing,
  sending a sealed command, waiting for its reply, and classifying inbound frames.

  The state of a replica is a record: the table, the outbound times, the waiters with their
  buffered replies, the given-up commands, the audit actions, the texts sent and the replies
  announced to the other replicas. The clock, the random nonce that encrypts a key at rest and
  the outcome of the transport are arguments. The wait of \<open>Send\<close> is a sequence of steps, so
  that inbound frames can arrive between them. Database errors are not modelled.
\<close>

section \<open>The table of paired bridges\<close>

record OOBPeer =
  p_TenantID :: string
  p_BridgeID :: string
  p_PeerID :: int
  p_KeyEnc :: bytes
  p_LocalRole :: int
  p_Phone :: string
  p_SatIMEI :: string
  p_TxCounter :: int
  p_RxHigh :: int
  p_RxWindow :: int
  p_Enabled :: bool
  p_CreatedAt :: "instant option"
  p_UpdatedAt :: "instant option"

type_synonym oob_table = "(string \<times> string, OOBPeer) fmap"

definition UpsertOOBPeer :: "instant \<Rightarrow> OOBPeer \<Rightarrow> oob_table \<Rightarrow> oob_table" where
  "UpsertOOBPeer now p tbl =
     (let k = (p_TenantID p, p_BridgeID p);
          p = p\<lparr>p_CreatedAt := (case p_CreatedAt p of None \<Rightarrow> Some now | Some t \<Rightarrow> Some t), p_UpdatedAt := Some now\<rparr>
      in case fmlookup tbl k of
           None \<Rightarrow> fmupd k p tbl
         | Some old \<Rightarrow> fmupd k (p\<lparr>p_CreatedAt := p_CreatedAt old\<rparr>) tbl)"

definition GetOOBPeer :: "string \<Rightarrow> string \<Rightarrow> oob_table \<Rightarrow> OOBPeer option" where
  "GetOOBPeer tenantID bridgeID tbl = fmlookup tbl (tenantID, bridgeID)"

definition ListOOBPeersByPeerID :: "int \<Rightarrow> oob_table \<Rightarrow> OOBPeer list" where
  "ListOOBPeersByPeerID peerID tbl =
     filter (\<lambda>p. p_PeerID p = peerID \<and> p_Enabled p)
       (map (\<lambda>k. the (fmlookup tbl k)) (sorted_list_of_fset (fmdom tbl)))"

definition DeleteOOBPeer :: "string \<Rightarrow> string \<Rightarrow> oob_table \<Rightarrow> oob_table" where
  "DeleteOOBPeer tenantID bridgeID tbl = fmdrop (tenantID, bridgeID) tbl"

definition NextOOBCounter :: "instant \<Rightarrow> string \<Rightarrow> string \<Rightarrow> oob_table \<Rightarrow> (int \<times> oob_table) option" where
  "NextOOBCounter now tenantID bridgeID tbl =
     (case fmlookup tbl (tenantID, bridgeID) of
        None \<Rightarrow> None
      | Some p \<Rightarrow> Some (p_TxCounter p + 1,
          fmupd (tenantID, bridgeID) (p\<lparr>p_TxCounter := p_TxCounter p + 1, p_UpdatedAt := Some now\<rparr>) tbl))"

definition SetOOBReplayWindow :: "instant \<Rightarrow> string \<Rightarrow> string \<Rightarrow> int \<Rightarrow> int \<Rightarrow> oob_table \<Rightarrow> oob_table" where
  "SetOOBReplayWindow now tenantID bridgeID hi win tbl =
     (case fmlookup tbl (tenantID, bridgeID) of
        None \<Rightarrow> tbl
      | Some p \<Rightarrow> fmupd (tenantID, bridgeID) (p\<lparr>p_RxHigh := hi, p_RxWindow := win, p_UpdatedAt := Some now\<rparr>) tbl)"

section \<open>State\<close>

record Reply =
  r_Bearer :: string
  r_RC :: byte
  r_Result :: string
  r_Body :: bytes
  r_Counter :: "32 word"
  r_Seq :: byte
  r_Total :: byte
  r_Received :: instant

record Policy =
  pol_MaxPerHour :: int
  pol_SMSTimeout :: int
  pol_SatTimeout :: int

record GaveUp =
  g_Counter :: "32 word"
  g_Cmd :: string
  g_Bearer :: string
  g_SentAt :: instant
  g_ExpiresAt :: instant
  g_GaveUpAt :: instant

text \<open>\<open>s_late\<close> is the shared key-value store: a record and the instant it expires at. The
  audit log keeps the tenant and the action.\<close>

record Service =
  s_store :: oob_table
  s_masterKey :: bytes
  s_maxPerHour :: int
  s_policy :: "(string \<Rightarrow> Policy) option"
  s_transports :: "(string, int) fmap"
  s_pending :: "(string, Reply list) fmap"
  s_sent :: "(string, instant list) fmap"
  s_late :: "(string, GaveUp \<times> instant) fmap option"
  s_audit :: "(string \<times> string) list"
  s_out :: "(string \<times> string \<times> string) list"
  s_announced :: "(string \<times> string \<times> Reply) list"

abbreviation (input) "second \<equiv> 1000000000 :: int"
abbreviation (input) "hour \<equiv> 3600 * second"

definition replySegments :: nat where "replySegments = 32"
definition lateRetention :: int where "lateRetention = 7 * 24 * hour"

definition New :: "bytes \<Rightarrow> int \<Rightarrow> Service" where
  "New masterKey maxPerHour =
     \<lparr>s_store = fmempty, s_masterKey = masterKey, s_maxPerHour = (if maxPerHour \<le> 0 then 20 else maxPerHour),
      s_policy = None, s_transports = fmempty, s_pending = fmempty, s_sent = fmempty, s_late = None,
      s_audit = [], s_out = [], s_announced = []\<rparr>"

definition policyFor :: "string \<Rightarrow> Service \<Rightarrow> Policy" where
  "policyFor tenantID s =
     (case s_policy s of
        None \<Rightarrow> \<lparr>pol_MaxPerHour = s_maxPerHour s, pol_SMSTimeout = 0, pol_SatTimeout = 0\<rparr>
      | Some fn \<Rightarrow>
          let got = fn tenantID
          in \<lparr>pol_MaxPerHour = (if pol_MaxPerHour got > 0 then pol_MaxPerHour got else s_maxPerHour s),
              pol_SMSTimeout = pol_SMSTimeout got, pol_SatTimeout = pol_SatTimeout got\<rparr>)"

definition RegisterTransport :: "string \<Rightarrow> int \<Rightarrow> Service \<Rightarrow> Service" where
  "RegisterTransport bearer timeout s = s\<lparr>s_transports := fmupd bearer timeout (s_transports s)\<rparr>"

definition SetPolicy :: "(string \<Rightarrow> Policy) \<Rightarrow> Service \<Rightarrow> Service" where
  "SetPolicy fn s = s\<lparr>s_policy := Some fn\<rparr>"

definition SetLateStore :: "(string, GaveUp \<times> instant) fmap \<Rightarrow> Service \<Rightarrow> Service" where
  "SetLateStore kv s = s\<lparr>s_late := Some kv\<rparr>"

definition svc_log :: "string \<Rightarrow> string \<Rightarrow> Service \<Rightarrow> Service" where
  "svc_log tenantID action s = s\<lparr>s_audit := s_audit s @ [(tenantID, action)]\<rparr>"

datatype send_err = ErrNotPaired | ErrNoBearer | ErrRateLimit | ErrUnknownCmd | ErrBadArgs args_err
  | ErrSendFailed | BearerUnavailable string | NoPhoneNumber | NoSatIMEI | KeyTrouble | CounterTrouble
  | KeyExhausted | SealTrouble oob_err | ErrTimeout nat | ContextDone

section \<open>Pairing\<close>

definition RoleOf :: "int \<Rightarrow> Role" where
  "RoleOf local = (if local = 0 then RoleIssuer else RoleImporter)"

definition role_int :: "Role \<Rightarrow> int" where
  "role_int r = (case r of RoleIssuer \<Rightarrow> 0 | RoleImporter \<Rightarrow> 1)"

definition peerIDOf :: "int \<Rightarrow> 16 word" where
  "peerIDOf stored = (if stored \<le> 0 \<or> stored > 0xFFFF then 0 else of_int stored)"

definition windowState :: "int \<Rightarrow> int \<Rightarrow> 32 word \<times> 64 word" where
  "windowState hi b = (let hi = (if hi < 0 \<or> hi > 0xFFFFFFFF then 0 else hi) in (of_int hi, of_int b))"

text \<open>The replay window is persisted as \<open>int64(high)\<close> and \<open>int64(bits)\<close>.\<close>

definition window_columns :: "Window \<Rightarrow> int \<times> int" where
  "window_columns w = (let (h, b) = Window_State w in (int (unat h), sint b))"

definition Pair :: "aead \<Rightarrow> (bytes \<Rightarrow> bytes) \<Rightarrow> instant \<Rightarrow> bytes option \<Rightarrow> string \<Rightarrow> string \<Rightarrow> bytes \<Rightarrow> Role \<Rightarrow> string \<Rightarrow> string
    \<Rightarrow> Service \<Rightarrow> (send_err + 16 word) \<times> Service" where
  "Pair A sha256 now rnd tenantID bridgeID key localRole phone satIMEI s =
     (if length key \<noteq> KeyLen then (Inl KeyTrouble, s)
      else case Encrypt A rnd (s_masterKey s) key of
        Inl e \<Rightarrow> (Inl KeyTrouble, s)
      | Inr enc \<Rightarrow>
          let peerID = PeerIDFromKey sha256 key;
              p = \<lparr>p_TenantID = tenantID, p_BridgeID = bridgeID, p_PeerID = uint peerID, p_KeyEnc = enc,
                   p_LocalRole = role_int localRole, p_Phone = TrimSpace phone, p_SatIMEI = TrimSpace satIMEI,
                   p_TxCounter = 0, p_RxHigh = 0, p_RxWindow = 0, p_Enabled = True,
                   p_CreatedAt = None, p_UpdatedAt = None\<rparr>;
              p = (case GetOOBPeer tenantID bridgeID (s_store s) of
                     None \<Rightarrow> p
                   | Some old \<Rightarrow>
                       let p = (if p_KeyEnc old \<noteq> [] \<and> Decrypt A (s_masterKey s) (p_KeyEnc old) = Inr key
                                then p\<lparr>p_TxCounter := p_TxCounter old, p_RxHigh := p_RxHigh old,
                                       p_RxWindow := p_RxWindow old, p_CreatedAt := p_CreatedAt old\<rparr>
                                else p);
                           p = (if p_Phone p = [] then p\<lparr>p_Phone := p_Phone old\<rparr> else p)
                       in if p_SatIMEI p = [] then p\<lparr>p_SatIMEI := p_SatIMEI old\<rparr> else p)
          in (Inr peerID, svc_log tenantID ''oob_paired'' (s\<lparr>s_store := UpsertOOBPeer now p (s_store s)\<rparr>)))"

definition Unpair :: "string \<Rightarrow> string \<Rightarrow> Service \<Rightarrow> Service" where
  "Unpair tenantID bridgeID s =
     svc_log tenantID ''oob_unpaired'' (s\<lparr>s_store := DeleteOOBPeer tenantID bridgeID (s_store s)\<rparr>)"

definition svc_key :: "aead \<Rightarrow> OOBPeer \<Rightarrow> Service \<Rightarrow> bytes option" where
  "svc_key A p s =
     (case Decrypt A (s_masterKey s) (p_KeyEnc p) of
        Inl e \<Rightarrow> None
      | Inr k \<Rightarrow> if length k \<noteq> KeyLen then None else Some k)"

definition ChooseBearer :: "OOBPeer \<Rightarrow> string \<Rightarrow> (string \<Rightarrow> bool) option \<Rightarrow> Service \<Rightarrow> send_err + string" where
  "ChooseBearer p via isIMT s =
     (let has = (\<lambda>b. fmlookup (s_transports s) b \<noteq> None);
          via = ToLower (TrimSpace via)
      in if via \<noteq> [] \<and> via \<noteq> ''mqtt'' then
           (if \<not> has via then Inl (BearerUnavailable via)
            else if via = ''sms'' \<and> p_Phone p = [] then Inl NoPhoneNumber
            else if via \<in> {''imt'', ''sbd''} \<and> p_SatIMEI p = [] then Inl NoSatIMEI
            else Inr via)
         else if p_Phone p \<noteq> [] \<and> has ''sms'' then Inr ''sms''
         else if p_SatIMEI p \<noteq> [] \<and> (case isIMT of None \<Rightarrow> False | Some f \<Rightarrow> f (p_SatIMEI p)) \<and> has ''imt'' then Inr ''imt''
         else if p_SatIMEI p \<noteq> [] \<and> has ''sbd'' then Inr ''sbd''
         else if p_SatIMEI p \<noteq> [] \<and> has ''imt'' then Inr ''imt''
         else Inl ErrNoBearer)"

section \<open>Sending\<close>

definition sent_times :: "string \<Rightarrow> Service \<Rightarrow> instant list" where
  "sent_times key s = (case fmlookup (s_sent s) key of None \<Rightarrow> [] | Some ts \<Rightarrow> ts)"

definition budget_key :: "string \<Rightarrow> string \<Rightarrow> string \<Rightarrow> string" where
  "budget_key tenantID bridgeID bearer = tenantID @ ''|'' @ bridgeID @ ''|'' @ bearer"

definition allow :: "instant \<Rightarrow> string \<Rightarrow> string \<Rightarrow> string \<Rightarrow> int \<Rightarrow> Service \<Rightarrow> bool \<times> Service" where
  "allow now tenantID bridgeID bearer maxPerHour s =
     (let key = budget_key tenantID bridgeID bearer;
          cut = now - hour;
          kept = filter (\<lambda>t. t > cut) (sent_times key s)
      in if int (length kept) \<ge> maxPerHour then (False, s\<lparr>s_sent := fmupd key kept (s_sent s)\<rparr>)
         else (True, s\<lparr>s_sent := fmupd key (kept @ [now]) (s_sent s)\<rparr>))"

definition pendingKey :: "string \<Rightarrow> 32 word \<Rightarrow> string" where
  "pendingKey bridgeID counter = bridgeID @ ''|'' @ dec_digits (unat (counter AND 0xFFFF))"

definition lateKey :: "string \<Rightarrow> string \<Rightarrow> 32 word \<Rightarrow> string" where
  "lateKey tenantID bridgeID counterLo =
     ''ooblate:'' @ tenantID @ '':'' @ bridgeID @ '':'' @ dec_digits (unat (counterLo AND 0xFFFF))"

definition recordGaveUp :: "instant \<Rightarrow> string \<Rightarrow> string \<Rightarrow> GaveUp \<Rightarrow> Service \<Rightarrow> Service" where
  "recordGaveUp now tenantID bridgeID g s =
     s\<lparr>s_late := map_option (fmupd (lateKey tenantID bridgeID (g_Counter g)) (g, now + lateRetention)) (s_late s)\<rparr>"

definition gaveUpOn :: "instant \<Rightarrow> string \<Rightarrow> string \<Rightarrow> 32 word \<Rightarrow> Service \<Rightarrow> GaveUp option" where
  "gaveUpOn now tenantID bridgeID counterLo s =
     (case s_late s of
        None \<Rightarrow> None
      | Some kv \<Rightarrow>
          (case fmlookup kv (lateKey tenantID bridgeID counterLo) of
             None \<Rightarrow> None
           | Some (g, expires) \<Rightarrow> if now < expires then Some g else None))"

text \<open>What the goroutine of a command that waits holds on to.\<close>

record Waiting =
  w_tenant :: string
  w_bridge :: string
  w_bearer :: string
  w_cmd :: string
  w_counter :: "32 word"
  w_sentAt :: instant
  w_expires :: instant
  w_segments :: "(byte, Reply) fmap"

datatype send_result = Refused send_err | Answered Reply | Waits Waiting

definition reply_timeout :: "string \<Rightarrow> Policy \<Rightarrow> int \<Rightarrow> int option \<Rightarrow> int" where
  "reply_timeout bearer pol dflt remaining =
     (let timeout = (if bearer = ''sms'' \<and> pol_SMSTimeout pol > 0 then pol_SMSTimeout pol
                     else if bearer \<noteq> ''sms'' \<and> pol_SatTimeout pol > 0 then pol_SatTimeout pol
                     else dflt)
      in case remaining of None \<Rightarrow> timeout | Some left \<Rightarrow> if left < timeout then left else timeout)"

text \<open>\<open>Send\<close> up to the wait for the reply. \<open>remaining\<close> is the time to the deadline of the
  context, \<open>taken\<close> whether the transport took the frame.\<close>

definition Send :: "aead \<Rightarrow> instant \<Rightarrow> string \<Rightarrow> string \<Rightarrow> string \<Rightarrow> string \<Rightarrow> ArgSpec \<Rightarrow> bool \<Rightarrow> int option \<Rightarrow> bool
    \<Rightarrow> Service \<Rightarrow> send_result \<times> Service" where
  "Send A now tenantID bridgeID bearer cmdName args noReply remaining taken s =
     (case CommandByName cmdName of
        None \<Rightarrow> (Refused ErrUnknownCmd, s)
      | Some cmd \<Rightarrow>
     (case BuildArgs (c_Code cmd) args of
        Inl e \<Rightarrow> (Refused (ErrBadArgs e), s)
      | Inr wireArgs \<Rightarrow>
     (case GetOOBPeer tenantID bridgeID (s_store s) of
        None \<Rightarrow> (Refused ErrNotPaired, s)
      | Some p \<Rightarrow>
     if \<not> p_Enabled p then (Refused ErrNotPaired, s)
     else (case fmlookup (s_transports s) bearer of
        None \<Rightarrow> (Refused (BearerUnavailable bearer), s)
      | Some dflt \<Rightarrow>
     (let pol = policyFor tenantID s;
          (ok, s) = allow now tenantID bridgeID bearer (pol_MaxPerHour pol) s
      in if \<not> ok then (Refused ErrRateLimit, s)
     else (case svc_key A p s of
        None \<Rightarrow> (Refused KeyTrouble, s)
      | Some key \<Rightarrow>
     (case NextOOBCounter now tenantID bridgeID (s_store s) of
        None \<Rightarrow> (Refused CounterTrouble, s)
      | Some (n, tbl) \<Rightarrow>
     (let s = s\<lparr>s_store := tbl\<rparr>
      in if n \<le> 0 \<or> n \<ge> 0xFFFFFFFF then (Refused KeyExhausted, s)
     else let counter = of_int n;
              timeout = reply_timeout bearer pol dflt remaining;
              expires = ((now + timeout) div second + 1) * second;
              f = \<lparr>f_Enc = True, f_Reply = False, f_NoReply = noReply, f_PeerID = peerIDOf (p_PeerID p),
                   f_Counter = counter, f_Cmd = c_Code cmd, f_Args = wireArgs, f_ExpiresAt = of_int (expires div second)\<rparr>
     in (case Seal A f key (RoleOf (p_LocalRole p)) of
           Inl e \<Rightarrow> (Refused (SealTrouble e), s)
         | Inr wire \<Rightarrow>
             if \<not> taken then (Refused ErrSendFailed, svc_log tenantID ''oob_send_failed'' s)
             else let s = svc_log tenantID ''oob_command_sent'' (s\<lparr>s_out := s_out s @ [(tenantID, bridgeID, Encode wire)]\<rparr>)
             in if noReply then
                  (Answered \<lparr>r_Bearer = bearer, r_RC = 0, r_Result = ''sent'', r_Body = [], r_Counter = counter,
                     r_Seq = 0, r_Total = 0, r_Received = 0\<rparr>, s)
                else
                  (Waits \<lparr>w_tenant = tenantID, w_bridge = bridgeID, w_bearer = bearer, w_cmd = c_Name cmd,
                     w_counter = counter, w_sentAt = now, w_expires = expires, w_segments = fmempty\<rparr>,
                   s\<lparr>s_pending := fmupd (pendingKey bridgeID counter) [] (s_pending s)\<rparr>))))))))))"

text \<open>\<open>assemble\<close> counts in a byte, so its loop wraps around after 255; a loop that does not
  end is the value \<open>None\<close>.\<close>

partial_function (option) assemble_loop :: "(byte, Reply) fmap \<Rightarrow> byte \<Rightarrow> byte \<Rightarrow> bytes \<Rightarrow> bytes option option" where
  "assemble_loop segments tot i body =
     (if i \<le> tot then
        (case fmlookup segments i of
           None \<Rightarrow> Some None
         | Some seg \<Rightarrow> assemble_loop segments tot (i + 1) (body @ r_Body seg))
      else Some (Some body))"

definition assemble :: "(byte, Reply) fmap \<Rightarrow> byte \<Rightarrow> Reply option option" where
  "assemble segments tot =
     (if tot = 0 \<or> fcard (fmdom segments) < unat tot then Some None
      else map_option (map_option (\<lambda>body. (the (fmlookup segments tot))\<lparr>r_Body := body, r_Seq := tot\<rparr>))
             (assemble_loop segments tot 1 []))"

text \<open>The ways the wait ends: a reply in the channel, the deadline, the context. A step that
  answers or gives up removes the waiter; \<open>None\<close> is a step that never ends.\<close>

definition drop_waiter :: "Waiting \<Rightarrow> Service \<Rightarrow> Service" where
  "drop_waiter w s = s\<lparr>s_pending := fmdrop (pendingKey (w_bridge w) (w_counter w)) (s_pending s)\<rparr>"

definition wait_receive :: "Waiting \<Rightarrow> Service \<Rightarrow> (send_result \<times> Service) option" where
  "wait_receive w s =
     (case fmlookup (s_pending s) (pendingKey (w_bridge w) (w_counter w)) of
        None \<Rightarrow> Some (Waits w, s)
      | Some [] \<Rightarrow> Some (Waits w, s)
      | Some (r # rs) \<Rightarrow>
          let s = s\<lparr>s_pending := fmupd (pendingKey (w_bridge w) (w_counter w)) rs (s_pending s)\<rparr>
          in if unat (r_Total r) \<le> 1 then Some (Answered r, drop_waiter w s)
             else let segs = fmupd (r_Seq r) r (w_segments w)
             in (case assemble segs (r_Total r) of
                   None \<Rightarrow> None
                 | Some None \<Rightarrow> Some (Waits (w\<lparr>w_segments := segs\<rparr>), s)
                 | Some (Some whole) \<Rightarrow> Some (Answered whole, drop_waiter w s)))"

definition wait_give_up :: "instant \<Rightarrow> bool \<Rightarrow> Waiting \<Rightarrow> Service \<Rightarrow> send_result \<times> Service" where
  "wait_give_up now deadline w s =
     (let s = recordGaveUp now (w_tenant w) (w_bridge w)
            \<lparr>g_Counter = w_counter w, g_Cmd = w_cmd w, g_Bearer = w_bearer w, g_SentAt = w_sentAt w,
             g_ExpiresAt = w_expires w, g_GaveUpAt = now\<rparr> s
      in (Refused (if deadline then ErrTimeout (fcard (fmdom (w_segments w))) else ContextDone), drop_waiter w s))"

section \<open>Inbound frames\<close>

text \<open>The buffered channel of a waiter drops what does not fit.\<close>

definition deliver :: "string \<Rightarrow> Reply \<Rightarrow> Service \<Rightarrow> bool \<times> Service" where
  "deliver bridgeID r s =
     (let key = pendingKey bridgeID (r_Counter r)
      in case fmlookup (s_pending s) key of
           None \<Rightarrow> (False, s)
         | Some ch \<Rightarrow>
             (True, if length ch < replySegments then s\<lparr>s_pending := fmupd key (ch @ [r]) (s_pending s)\<rparr> else s))"

definition announce :: "string \<Rightarrow> string \<Rightarrow> Reply \<Rightarrow> Service \<Rightarrow> Service" where
  "announce tenantID bridgeID r s = s\<lparr>s_announced := s_announced s @ [(tenantID, bridgeID, r)]\<rparr>"

text \<open>The handler of an announcement from another replica.\<close>

definition on_announcement :: "string \<Rightarrow> string \<Rightarrow> string \<times> string \<times> Reply \<Rightarrow> Service \<Rightarrow> Service" where
  "on_announcement self origin a s =
     (let (tenantID, bridgeID, r) = a
      in if origin = self \<or> bridgeID = [] then s else snd (deliver bridgeID r s))"

text \<open>The treatment of a frame that authenticated for a peer.\<close>

definition inbound_frame :: "instant \<Rightarrow> string \<Rightarrow> OOBPeer \<Rightarrow> Frame \<Rightarrow> Service \<Rightarrow> Service" where
  "inbound_frame now bearer p f s =
     (let (h, b) = windowState (p_RxHigh p) (p_RxWindow p);
          (fresh, w) = Window_Accept (f_Counter f) (Window_Load h b Window_zero)
      in if \<not> fresh then svc_log (p_TenantID p) ''oob_replay_dropped'' s
         else let (hi, win) = window_columns w;
                  s = s\<lparr>s_store := SetOOBReplayWindow now (p_TenantID p) (p_BridgeID p) hi win (s_store s)\<rparr>
         in if \<not> f_Reply f then svc_log (p_TenantID p) ''oob_request_ignored'' s
            else (case ParseReplyArgs (f_Args f) of
                    None \<Rightarrow> s
                  | Some ra \<Rightarrow>
                      let r = \<lparr>r_Bearer = bearer, r_RC = ra_RC ra, r_Result = ResultCode_String (ra_RC ra), r_Body = ra_Body ra,
                               r_Counter = of_nat (unat (ra_ReqCounterLo ra)), r_Seq = ra_Seq ra, r_Total = ra_Total ra,
                               r_Received = now\<rparr>;
                          late = gaveUpOn now (p_TenantID p) (p_BridgeID p) (r_Counter r) s;
                          s = svc_log (p_TenantID p) (if late \<noteq> None then ''oob_reply_late'' else ''oob_reply'') s
                      in announce (p_TenantID p) (p_BridgeID p) r (snd (deliver (p_BridgeID p) r s))))"

text \<open>The first peer for which the frame authenticates.\<close>

definition opens :: "aead \<Rightarrow> bytes \<Rightarrow> Service \<Rightarrow> OOBPeer \<Rightarrow> Frame option" where
  "opens A wire s p =
     (case svc_key A p s of
        None \<Rightarrow> None
      | Some key \<Rightarrow> (case Open A wire key (Role_Other (RoleOf (p_LocalRole p))) of Inl e \<Rightarrow> None | Inr f \<Rightarrow> Some f))"

definition HandleInbound :: "aead \<Rightarrow> instant \<Rightarrow> string \<Rightarrow> string \<Rightarrow> Service \<Rightarrow> bool \<times> Service" where
  "HandleInbound A now bearer text s =
     (case ExtractFrame ToUpper text of
        Extracted wire \<Rightarrow>
          (case ParseHeader wire of
             Inl e \<Rightarrow> (False, s)
           | Inr h \<Rightarrow>
               (case List.find (\<lambda>p. opens A wire s p \<noteq> None) (ListOOBPeersByPeerID (uint (h_PeerID h)) (s_store s)) of
                  None \<Rightarrow> (True, s)
                | Some p \<Rightarrow> (True, inbound_frame now bearer p (the (opens A wire s p)) s)))
      | _ \<Rightarrow> (False, s))"

section \<open>Segments\<close>

lemma of_nat_byte_eq: "m < 256 \<Longrightarrow> n < 256 \<Longrightarrow> (of_nat m :: byte) = of_nat n \<longleftrightarrow> m = n"
  by (metis mod_less unat_of_nat_byte)

lemma assemble_loop_from:
  assumes "n < 255" "1 \<le> k" "k \<le> Suc n"
  shows "assemble_loop segs (of_nat n) (of_nat k) body =
    Some (if \<forall>i \<in> {k..n}. fmlookup segs (of_nat i) \<noteq> None
          then Some (body @ concat (map (\<lambda>i. r_Body (the (fmlookup segs (of_nat i)))) [k..<Suc n])) else None)"
  using assms
proof (induction "Suc n - k" arbitrary: k body)
  case 0
  then have "k = Suc n" by simp
  then have "\<not> (of_nat k :: byte) \<le> of_nat n" using "0.prems" by (simp add: word_le_nat_alt del: of_nat_Suc)
  then show ?case using \<open>k = Suc n\<close> by (subst assemble_loop.simps) simp
next
  case (Suc m)
  then have le: "k \<le> n" by simp
  then have guard: "(of_nat k :: byte) \<le> of_nat n" using Suc.prems by (simp add: word_le_nat_alt)
  have nxt: "(of_nat k :: byte) + 1 = of_nat (Suc k)" by simp
  have step: "{k..n} = insert k {Suc k..n}" "[k..<Suc n] = k # [Suc k..<Suc n]"
    using le by (auto simp: upt_conv_Cons)
  show ?case
  proof (cases "fmlookup segs (of_nat k)")
    case None
    then show ?thesis using guard step by (subst assemble_loop.simps) auto
  next
    case (Some seg)
    have "assemble_loop segs (of_nat n) (of_nat (Suc k)) (body @ r_Body seg) =
      Some (if \<forall>i \<in> {Suc k..n}. fmlookup segs (of_nat i) \<noteq> None
            then Some ((body @ r_Body seg) @ concat (map (\<lambda>i. r_Body (the (fmlookup segs (of_nat i)))) [Suc k..<Suc n])) else None)"
      by (rule Suc.hyps(1)) (use Suc le in auto)
    then show ?thesis
      using guard Some unfolding step by (subst assemble_loop.simps) (simp add: nxt del: of_nat_Suc upt_Suc)
  qed
qed

text \<open>All segments present means at least as many entries.\<close>

lemma segments_card:
  assumes "n < 256" "\<forall>i \<in> {1..n}. fmlookup segs (of_nat i :: byte) \<noteq> None"
  shows "n \<le> fcard (fmdom segs)"
proof -
  have inj: "inj_on (of_nat :: nat \<Rightarrow> byte) {1..n}"
    by (rule inj_onI) (use assms(1) of_nat_byte_eq in auto)
  have "n = card ((of_nat :: nat \<Rightarrow> byte) ` {1..n})"
    using card_image [OF inj] by simp
  also have "\<dots> \<le> card (fset (fmdom segs))"
    by (rule card_mono) (use assms(2) in \<open>auto simp: fmlookup_dom_iff\<close>)
  finally show ?thesis by (simp add: fcard.rep_eq)
qed

definition joined :: "(byte, Reply) fmap \<Rightarrow> byte \<Rightarrow> Reply" where
  "joined segs n = (the (fmlookup segs n))
     \<lparr>r_Body := concat (map (\<lambda>i. r_Body (the (fmlookup segs (of_nat i)))) [1..<Suc (unat n)]), r_Seq := n\<rparr>"

lemma assemble_eq:
  assumes "n \<noteq> 255"
  shows "assemble segs n = Some (if n \<noteq> 0 \<and> (\<forall>i \<in> {1..unat n}. fmlookup segs (of_nat i) \<noteq> None)
    then Some (joined segs n) else None)"
proof -
  have "unat n \<noteq> 255" using assms by (simp add: word_unat_eq_iff)
  then have u: "unat n < 255" using unat_byte_less [of n] by linarith
  show ?thesis
    using assemble_loop_from [OF u, of 1 segs "[]"] segments_card [of "unat n" segs] u
    by (auto simp: assemble_def joined_def)
qed

lemma assemble_loop_255:
  assumes "fmlookup segs 0 = None" "k \<le> 256"
  shows "assemble_loop segs 255 (of_nat k) body = Some None"
  using assms(2)
proof (induction "256 - k" arbitrary: k body)
  case 0
  then have "(of_nat k :: byte) = 0" by (simp add: word_unat_eq_iff)
  then show ?case using assms(1) by (subst assemble_loop.simps) simp
next
  case (Suc m)
  have le: "(of_nat k :: byte) \<le> 255" using unat_byte_less [of "of_nat k"] by (simp add: word_le_nat_alt)
  have "assemble_loop segs 255 (of_nat (Suc k)) body' = Some None" for body'
    by (rule Suc.hyps(1)) (use Suc in auto)
  then show ?case using le by (subst assemble_loop.simps) (simp add: add.commute split: option.split)
qed

text \<open>A reply of 255 segments is never joined, since the counter of the loop is a byte.\<close>

lemma assemble_255_never: "fmlookup segs 0 = None \<Longrightarrow> assemble segs 255 = Some None"
  using assemble_loop_255 [of segs 1 "[]"] by (simp add: assemble_def)

section \<open>The replay window of a peer\<close>

definition rejects :: "Window \<Rightarrow> 32 word \<Rightarrow> bool" where
  "rejects w c \<longleftrightarrow> \<not> fst (Window_Accept c w)"

lemma rejects_iff:
  "rejects w c \<longleftrightarrow> c = 0 \<or> (unat c \<le> unat (high w) \<and>
     (64 \<le> unat (high w) - unat c \<or> bit (bits w) (unat (high w) - unat c)))"
  by (auto simp: rejects_def Window_Accept_def Let_def word_less_nat_alt unat_sub_if' and_exp_eq_0_iff_not_bit)

lemma accept_rejects:
  assumes "rejects w c \<or> c = d"
  shows "rejects (snd (Window_Accept d w)) c"
proof (cases "rejects w d")
  case True
  then have "snd (Window_Accept d w) = w"
    by (auto simp: rejects_def Window_Accept_def Let_def split: if_splits)
  then show ?thesis using assms True by auto
next
  case False
  then have d0: "d \<noteq> 0" by (auto simp: rejects_iff)
  show ?thesis
  proof (cases "high w < d")
    case above: True
    define sh where "sh = unat (d - high w)"
    have sh: "unat d = unat (high w) + sh" using above by (simp add: sh_def unat_sub_if' word_less_nat_alt)
    have acc: "snd (Window_Accept d w) = \<lparr>high = d, bits = (if 64 \<le> sh then 0 else push_bit sh (bits w)) OR 1\<rparr>"
      using d0 above by (simp add: Window_Accept_def Let_def sh_def)
    show ?thesis
      using assms sh unfolding rejects_iff acc by (auto simp: bit_simps)
  next
    case below: False
    define df where "df = unat (high w - d)"
    have df: "unat (high w) = unat d + df" using below by (simp add: df_def unat_sub_if' word_less_nat_alt)
    have "\<not> 64 \<le> df" "\<not> bit (bits w) df" using False below df d0 by (auto simp: rejects_iff)
    then have acc: "snd (Window_Accept d w) = w\<lparr>bits := bits w OR push_bit df 1\<rparr>"
      using d0 below by (simp add: Window_Accept_def Let_def df_def [symmetric] and_exp_eq_0_iff_not_bit)
    show ?thesis
      using assms df \<open>\<not> 64 \<le> df\<close> unfolding rejects_iff acc by (auto simp: bit_simps)
  qed
qed

text \<open>The window survives its two signed columns.\<close>

lemma windowState_columns: "windowState (fst (window_columns w)) (snd (window_columns w)) = (high w, bits w)"
proof -
  have "uint (high w) < 4294967296" using uint_bounded [of "high w"] by simp
  then show ?thesis by (simp add: windowState_def window_columns_def Window_State_def Let_def)
qed

definition rx :: "OOBPeer \<Rightarrow> Window" where
  "rx p = (let (h, b) = windowState (p_RxHigh p) (p_RxWindow p) in Window_Load h b Window_zero)"

lemma rx_columns [simp]: "rx (p\<lparr>p_RxHigh := fst (window_columns w), p_RxWindow := snd (window_columns w), p_UpdatedAt := t\<rparr>) = w"
  by (simp add: rx_def windowState_columns Window_Load_def Window_zero_def)

section \<open>Runs\<close>

text \<open>What a replica does between two pairings.\<close>

datatype svc_event =
    Ev_Send instant string string string string ArgSpec bool "int option" bool
  | Ev_Inbound instant string string
  | Ev_Receive Waiting
  | Ev_GiveUp instant bool Waiting
  | Ev_Announced string string "string \<times> string \<times> Reply"

fun svc_step :: "aead \<Rightarrow> Service \<Rightarrow> svc_event \<Rightarrow> Service" where
  "svc_step A s (Ev_Send now tenant bridge bearer cmd args noReply remaining taken) =
     snd (Send A now tenant bridge bearer cmd args noReply remaining taken s)"
| "svc_step A s (Ev_Inbound now bearer text) = snd (HandleInbound A now bearer text s)"
| "svc_step A s (Ev_Receive w) = (case wait_receive w s of None \<Rightarrow> s | Some (r, s') \<Rightarrow> s')"
| "svc_step A s (Ev_GiveUp now deadline w) = snd (wait_give_up now deadline w s)"
| "svc_step A s (Ev_Announced self origin a) = on_announcement self origin a s"

definition svc_run :: "aead \<Rightarrow> Service \<Rightarrow> svc_event list \<Rightarrow> Service" where
  "svc_run A = foldl (svc_step A)"

text \<open>How the row of a peer changes: a send moves the counter up by one, an inbound frame runs
  its counter through the window, everything else leaves both alone.\<close>

definition same_pairing :: "OOBPeer \<Rightarrow> OOBPeer \<Rightarrow> bool" where
  "same_pairing p q \<longleftrightarrow> p_TenantID p = p_TenantID q \<and> p_BridgeID p = p_BridgeID q \<and> p_PeerID p = p_PeerID q \<and>
     p_KeyEnc p = p_KeyEnc q \<and> p_LocalRole p = p_LocalRole q \<and> p_Enabled p = p_Enabled q"

definition row_moves :: "OOBPeer \<Rightarrow> OOBPeer \<Rightarrow> bool" where
  "row_moves p q \<longleftrightarrow> same_pairing p q \<and> p_TxCounter p \<le> p_TxCounter q \<and> (\<forall>c. rejects (rx p) c \<longrightarrow> rejects (rx q) c)"

definition tables_move :: "oob_table \<Rightarrow> oob_table \<Rightarrow> bool" where
  "tables_move t u \<longleftrightarrow> fmdom t = fmdom u \<and>
     (\<forall>k p. fmlookup t k = Some p \<longrightarrow> (\<exists>q. fmlookup u k = Some q \<and> row_moves p q))"

lemma row_moves_refl [simp]: "row_moves p p"
  by (simp add: row_moves_def same_pairing_def)

lemma tables_move_refl [simp]: "tables_move t t"
  by (simp add: tables_move_def)

lemma row_moves_trans: "row_moves p q \<Longrightarrow> row_moves q r \<Longrightarrow> row_moves p r"
  by (auto simp: row_moves_def same_pairing_def)

lemma tables_move_trans: "tables_move t u \<Longrightarrow> tables_move u v \<Longrightarrow> tables_move t v"
  unfolding tables_move_def by (metis row_moves_trans)

lemma tables_move_upd:
  assumes "fmlookup t k = Some p" "row_moves p q"
  shows "tables_move t (fmupd k q t)"
  using assms by (auto simp: tables_move_def intro: fmdomI) 

lemma NextOOBCounter_move:
  "NextOOBCounter now t b tbl = Some (n, tbl') \<Longrightarrow> tables_move tbl tbl'"
  by (auto simp: NextOOBCounter_def row_moves_def same_pairing_def rx_def intro!: tables_move_upd split: option.splits)

lemma inbound_frame_move:
  assumes "fmlookup (s_store s) (p_TenantID p, p_BridgeID p) = Some p"
  shows "tables_move (s_store s) (s_store (inbound_frame now bearer p f s))"
    and "\<exists>q. fmlookup (s_store (inbound_frame now bearer p f s)) (p_TenantID p, p_BridgeID p) = Some q \<and>
      row_moves p q \<and> rejects (rx q) (f_Counter f)"
proof -
  define w where "w = snd (Window_Accept (f_Counter f) (rx p))"
  define q where "q = (if fst (Window_Accept (f_Counter f) (rx p))
    then p\<lparr>p_RxHigh := fst (window_columns w), p_RxWindow := snd (window_columns w), p_UpdatedAt := Some now\<rparr> else p)"
  have store: "s_store (inbound_frame now bearer p f s) =
      (if fst (Window_Accept (f_Counter f) (rx p)) then fmupd (p_TenantID p, p_BridgeID p) q (s_store s) else s_store s)"
    using assms
    by (auto simp: inbound_frame_def rx_def w_def q_def SetOOBReplayWindow_def svc_log_def announce_def deliver_def
        Let_def case_prod_beta split: option.splits)
  have move: "row_moves p q \<and> rejects (rx q) (f_Counter f)"
    using accept_rejects [of "rx p" _ "f_Counter f"]
    by (auto simp: q_def row_moves_def same_pairing_def w_def rejects_def)
  show "tables_move (s_store s) (s_store (inbound_frame now bearer p f s))"
    using store move assms by (auto intro: tables_move_upd)
  show "\<exists>q. fmlookup (s_store (inbound_frame now bearer p f s)) (p_TenantID p, p_BridgeID p) = Some q \<and>
      row_moves p q \<and> rejects (rx q) (f_Counter f)"
    using store move assms by (auto simp: q_def)
qed

lemma list_all2_filter:
  "list_all2 R xs ys \<Longrightarrow> (\<And>x y. R x y \<Longrightarrow> P x = Q y) \<Longrightarrow> list_all2 R (filter P xs) (filter Q ys)"
  by (induction rule: list_all2_induct) auto

lemma list_all2_find:
  "list_all2 R xs ys \<Longrightarrow> (\<And>x y. R x y \<Longrightarrow> P x = Q y) \<Longrightarrow> rel_option R (List.find P xs) (List.find Q ys)"
  by (induction rule: list_all2_induct) auto

text \<open>Rows are stored under their own tenant and bridge.\<close>

definition keyed :: "oob_table \<Rightarrow> bool" where
  "keyed tbl \<longleftrightarrow> (\<forall>k p. fmlookup tbl k = Some p \<longrightarrow> k = (p_TenantID p, p_BridgeID p))"

lemma keyed_move: "keyed t \<Longrightarrow> tables_move t u \<Longrightarrow> keyed u"
  unfolding keyed_def tables_move_def row_moves_def same_pairing_def
  by (metis fmdomE fmdomI fmdom_notD not_None_eq option.inject)

lemma ListOOBPeers_mem:
  "p \<in> set (ListOOBPeersByPeerID i tbl) \<Longrightarrow> \<exists>k. fmlookup tbl k = Some p"
  unfolding ListOOBPeersByPeerID_def by (auto simp: fmlookup_dom_iff) blast

lemma ListOOBPeers_moved:
  assumes "tables_move t u"
  shows "list_all2 (\<lambda>p q. row_moves p q \<and> (\<exists>k. fmlookup t k = Some p \<and> fmlookup u k = Some q))
    (ListOOBPeersByPeerID i t) (ListOOBPeersByPeerID i u)"
proof -
  let ?R = "\<lambda>p q. row_moves p q \<and> (\<exists>k. fmlookup t k = Some p \<and> fmlookup u k = Some q)"
  let ?ks = "sorted_list_of_fset (fmdom t)"
  have dom: "fmdom u = fmdom t" using assms by (simp add: tables_move_def)
  have "?R (the (fmlookup t k)) (the (fmlookup u k))" if mem: "k \<in> set ?ks" for k
  proof -
    obtain p where p: "fmlookup t k = Some p" using mem by (auto simp: fmlookup_dom_iff)
    then obtain q where "fmlookup u k = Some q" "row_moves p q" using assms unfolding tables_move_def by blast
    then show ?thesis using p by (simp only: option.sel) blast
  qed
  then have "list_all2 ?R (map (\<lambda>k. the (fmlookup t k)) ?ks) (map (\<lambda>k. the (fmlookup u k)) ?ks)"
    unfolding list_all2_map1 list_all2_map2 by (rule list.rel_refl_strong)
  moreover have "?R p q \<Longrightarrow> (p_PeerID p = i \<and> p_Enabled p) = (p_PeerID q = i \<and> p_Enabled q)" for p q
    by (auto simp: row_moves_def same_pairing_def)
  ultimately show ?thesis
    unfolding ListOOBPeersByPeerID_def dom by (rule list_all2_filter)
qed

lemma opens_cong:
  "same_pairing p q \<Longrightarrow> s_masterKey s = s_masterKey s' \<Longrightarrow> opens A wire s p = opens A wire s' q"
proof -
  assume "same_pairing p q" "s_masterKey s = s_masterKey s'"
  then have eq: "p_KeyEnc p = p_KeyEnc q" "p_LocalRole p = p_LocalRole q" "s_masterKey s = s_masterKey s'"
    by (simp_all add: same_pairing_def)
  show ?thesis unfolding opens_def svc_key_def eq ..
qed

section \<open>What a step changes\<close>

definition text_header :: "string \<Rightarrow> Header option" where
  "text_header text = (case Decode text of Inl e \<Rightarrow> None | Inr wire \<Rightarrow> (case ParseHeader wire of Inl e \<Rightarrow> None | Inr h \<Rightarrow> Some h))"

lemma text_header_Seal:
  assumes "aead_documented A" "Seal A f key r = Inr wire"
  shows "\<exists>h. text_header (Encode wire) = Some h \<and> h_Counter h = f_Counter f"
proof -
  have "Open A wire key r = Inr f" using Open_Seal_iff [OF assms(1)] assms(2) by simp
  then obtain h body where h: "ParseHeader wire = Inr h" and f: "read_frame h body = Some f"
    unfolding Open_read by blast
  have "VersionNibble h = Version" using h unfolding ParseHeader_iff by blast
  then have "h_Counter h = f_Counter f" using f read_frame_iff by blast
  then show ?thesis
    using h Seal_length [OF assms] Decode_Encode [of wire] by (simp add: text_header_def)
qed

text \<open>A step either sends nothing, or one text whose counter is the next one of its pairing.\<close>

definition sends_next :: "Service \<Rightarrow> Service \<Rightarrow> bool" where
  "sends_next s s' \<longleftrightarrow> (\<exists>t b text p q h. s_out s' = s_out s @ [(t, b, text)] \<and>
     fmlookup (s_store s) (t, b) = Some p \<and> fmlookup (s_store s') (t, b) = Some q \<and>
     p_TxCounter q = p_TxCounter p + 1 \<and> text_header text = Some h \<and> uint (h_Counter h) = p_TxCounter q)"

definition step_ok :: "Service \<Rightarrow> Service \<Rightarrow> bool" where
  "step_ok s s' \<longleftrightarrow> s_masterKey s' = s_masterKey s \<and> tables_move (s_store s) (s_store s') \<and>
     (s_out s' = s_out s \<or> sends_next s s')"

lemma step_ok_refl [simp]: "step_ok s s"
  by (simp add: step_ok_def)

lemma step_ok_same:
  "s_masterKey s' = s_masterKey s \<Longrightarrow> s_store s' = s_store s \<Longrightarrow> s_out s' = s_out s \<Longrightarrow> step_ok s s'"
  by (simp add: step_ok_def)

lemma uint_of_int_32: "0 < n \<Longrightarrow> n < 0xFFFFFFFF \<Longrightarrow> uint (of_int n :: 32 word) = n"
  by (simp add: uint_word_of_int)

lemma Send_step_ok:
  assumes A: "aead_documented A"
  shows "step_ok s (snd (Send A now t b bearer cmdName args noReply remaining taken s))"
proof (cases "CommandByName cmdName")
  case (Some cmd) note cmd = this
  show ?thesis
  proof (cases "BuildArgs (c_Code cmd) args")
    case (Inr wireArgs) note wireArgs = this
    show ?thesis
    proof (cases "GetOOBPeer t b (s_store s)")
      case (Some p) note p = this
      show ?thesis
      proof (cases "p_Enabled p \<and> fmlookup (s_transports s) bearer \<noteq> None")
        case True
        then obtain dflt where dflt: "p_Enabled p" "fmlookup (s_transports s) bearer = Some dflt" by auto
        obtain ok s1 where ok: "allow now t b bearer (pol_MaxPerHour (policyFor t s)) s = (ok, s1)" by fastforce
        have s1: "s_masterKey s1 = s_masterKey s" "s_store s1 = s_store s" "s_out s1 = s_out s"
          using ok by (auto simp: allow_def Let_def split: if_splits)
        note start = cmd wireArgs p dflt ok
        show ?thesis
        proof (cases "ok \<and> svc_key A p s1 \<noteq> None")
          case True
          then obtain key where key: "ok" "svc_key A p s1 = Some key" by auto
          define n where "n = p_TxCounter p + 1"
          define q where "q = p\<lparr>p_TxCounter := n, p_UpdatedAt := Some now\<rparr>"
          have look: "fmlookup (s_store s) (t, b) = Some p" using p by (simp add: GetOOBPeer_def)
          then have cnt: "NextOOBCounter now t b (s_store s1) = Some (n, fmupd (t, b) q (s_store s))"
            by (simp add: NextOOBCounter_def s1 n_def q_def)
          have mv: "tables_move (s_store s) (fmupd (t, b) q (s_store s))"
            using NextOOBCounter_move [OF cnt] by (simp add: s1)
          define f where "f = \<lparr>f_Enc = True, f_Reply = False, f_NoReply = noReply, f_PeerID = peerIDOf (p_PeerID p),
            f_Counter = of_int n, f_Cmd = c_Code cmd, f_Args = wireArgs, f_ExpiresAt =
              of_int (((now + reply_timeout bearer (policyFor t s) dflt remaining) div second + 1) * second div second)\<rparr>"
          show ?thesis
          proof (cases "n \<le> 0 \<or> n \<ge> 0xFFFFFFFF")
            case True
            then show ?thesis
              using start key cnt s1 mv by (simp add: Send_def step_ok_def)
          next
            case n: False
            show ?thesis
            proof (cases "Seal A f key (RoleOf (p_LocalRole p))")
              case (Inl e)
              then show ?thesis
                using start key cnt s1 mv n by (simp add: Send_def step_ok_def f_def Let_def)
            next
              case (Inr wire)
              define s' where "s' = snd (Send A now t b bearer cmdName args noReply remaining taken s)"
              have s': "s_masterKey s' = s_masterKey s" "s_store s' = fmupd (t, b) q (s_store s)"
                "s_out s' = s_out s @ (if taken then [(t, b, Encode wire)] else [])"
                using Inr start key cnt s1 n unfolding s'_def
                by (auto simp: Send_def svc_log_def f_def Let_def)
              obtain h where "text_header (Encode wire) = Some h" "h_Counter h = of_int n"
                using text_header_Seal [OF A Inr] by (auto simp: f_def)
              then have "taken \<Longrightarrow> sends_next s s'"
                unfolding sends_next_def using s' look n uint_of_int_32 [of n]
                by (intro exI [of _ t] exI [of _ b] exI [of _ "Encode wire"] exI [of _ p] exI [of _ q] exI [of _ h])
                  (simp add: q_def n_def)
              then show ?thesis
                using s' mv unfolding s'_def [symmetric] by (auto simp: step_ok_def)
            qed
          qed
        qed (use start s1 in \<open>auto simp: Send_def intro: step_ok_same\<close>)
      qed (use cmd wireArgs p in \<open>auto simp: Send_def split: option.split\<close>)
    qed (use cmd wireArgs in \<open>simp add: Send_def\<close>)
  qed (use cmd in \<open>simp add: Send_def\<close>)
qed (simp add: Send_def)

lemma deliver_fields [simp]:
  "s_masterKey (snd (deliver b r s)) = s_masterKey s" "s_store (snd (deliver b r s)) = s_store s"
  "s_out (snd (deliver b r s)) = s_out s"
  by (simp_all add: deliver_def Let_def split: option.split)

lemma log_announce_fields [simp]:
  "s_masterKey (svc_log t a s) = s_masterKey s" "s_store (svc_log t a s) = s_store s" "s_out (svc_log t a s) = s_out s"
  "s_masterKey (announce t b r s) = s_masterKey s" "s_store (announce t b r s) = s_store s"
  "s_out (announce t b r s) = s_out s"
  by (simp_all add: svc_log_def announce_def)

lemma inbound_frame_fields [simp]:
  "s_masterKey (inbound_frame now bearer p f s) = s_masterKey s" "s_out (inbound_frame now bearer p f s) = s_out s"
  by (simp_all add: inbound_frame_def Let_def case_prod_beta split: option.split)

lemma HandleInbound_step_ok:
  assumes "keyed (s_store s)"
  shows "step_ok s (snd (HandleInbound A now bearer text s))"
proof -
  have "step_ok s (inbound_frame now bearer p f s)"
    if "List.find P (ListOOBPeersByPeerID i (s_store s)) = Some p" for P i p f
  proof -
    have "p \<in> set (ListOOBPeersByPeerID i (s_store s))" using that by (auto simp: find_Some_iff)
    then have "fmlookup (s_store s) (p_TenantID p, p_BridgeID p) = Some p"
      using ListOOBPeers_mem assms unfolding keyed_def by blast
    then show ?thesis using inbound_frame_move(1) by (simp add: step_ok_def)
  qed
  then show ?thesis
    by (auto simp: HandleInbound_def split: extracted.split sum.split option.split)
qed

lemma svc_step_ok:
  assumes "aead_documented A" "keyed (s_store s)"
  shows "step_ok s (svc_step A s ev)"
proof (cases ev)
  case (Ev_Send x1 x2 x3 x4 x5 x6 x7 x8 x9)
  then show ?thesis using Send_step_ok [OF assms(1)] by simp
next
  case (Ev_Inbound x1 x2 x3)
  then show ?thesis using HandleInbound_step_ok [OF assms(2)] by simp
next
  case (Ev_Receive w)
  then show ?thesis
    by (auto simp: wait_receive_def drop_waiter_def Let_def intro!: step_ok_same split: option.splits list.splits if_splits)
next
  case (Ev_GiveUp x1 x2 x3)
  then show ?thesis
    by (simp add: wait_give_up_def recordGaveUp_def drop_waiter_def Let_def step_ok_same)
next
  case (Ev_Announced x1 x2 x3)
  then show ?thesis
    by (auto simp: on_announcement_def Let_def case_prod_beta intro: step_ok_same)
qed

lemma svc_run_move:
  assumes "aead_documented A" "keyed (s_store s)"
  shows "s_masterKey (svc_run A s evs) = s_masterKey s \<and> tables_move (s_store s) (s_store (svc_run A s evs))"
  using assms(2)
proof (induction evs arbitrary: s)
  case (Cons ev evs)
  have ok: "step_ok s (svc_step A s ev)" by (rule svc_step_ok [OF assms(1) Cons.prems])
  then have "keyed (s_store (svc_step A s ev))"
    using Cons.prems keyed_move by (auto simp: step_ok_def)
  then show ?case
    using Cons.IH ok tables_move_trans by (auto simp: svc_run_def step_ok_def)
qed (simp add: svc_run_def)

section \<open>At most once\<close>

lemma inbound_frame_replay:
  "rejects (rx p) (f_Counter f) \<Longrightarrow> inbound_frame now bearer p f s = svc_log (p_TenantID p) ''oob_replay_dropped'' s"
  by (simp add: inbound_frame_def rx_def rejects_def case_prod_beta Let_def)

text \<open>A frame that some peer of the table authenticates, after it was handled once.\<close>

definition spent :: "aead \<Rightarrow> bytes \<Rightarrow> Header \<Rightarrow> Service \<Rightarrow> bool" where
  "spent A wire h s \<longleftrightarrow>
     (case List.find (\<lambda>p. opens A wire s p \<noteq> None) (ListOOBPeersByPeerID (uint (h_PeerID h)) (s_store s)) of
        None \<Rightarrow> True | Some p \<Rightarrow> rejects (rx p) (f_Counter (the (opens A wire s p))))"

lemma find_moved:
  assumes "tables_move (s_store s) (s_store s')" "s_masterKey s' = s_masterKey s"
  shows "rel_option (\<lambda>p q. row_moves p q \<and> (\<exists>k. fmlookup (s_store s) k = Some p \<and> fmlookup (s_store s') k = Some q))
    (List.find (\<lambda>p. opens A wire s p \<noteq> None) (ListOOBPeersByPeerID i (s_store s)))
    (List.find (\<lambda>p. opens A wire s' p \<noteq> None) (ListOOBPeersByPeerID i (s_store s')))"
proof (rule list_all2_find [OF ListOOBPeers_moved [OF assms(1)]])
  fix p q
  assume "row_moves p q \<and> (\<exists>k. fmlookup (s_store s) k = Some p \<and> fmlookup (s_store s') k = Some q)"
  then show "(opens A wire s p \<noteq> None) = (opens A wire s' q \<noteq> None)"
    using opens_cong [of p q s s'] assms(2) by (simp add: row_moves_def)
qed

lemma spent_moves:
  assumes "spent A wire h s" "tables_move (s_store s) (s_store s')" "s_masterKey s' = s_masterKey s"
  shows "spent A wire h s'"
proof -
  have "opens A wire s' q = opens A wire s p" if "row_moves p q" for p q
    using opens_cong that assms(3) by (metis row_moves_def)
  then show ?thesis
    using assms(1) find_moved [OF assms(2,3), of A wire "uint (h_PeerID h)"]
    by (auto simp: spent_def row_moves_def split: option.splits)
qed

lemma handled_spent:
  assumes k: "keyed (s_store s)" and w: "ExtractFrame ToUpper text = Extracted wire" "ParseHeader wire = Inr h"
  shows "spent A wire h (snd (HandleInbound A now bearer text s))"
proof (cases "List.find (\<lambda>p. opens A wire s p \<noteq> None) (ListOOBPeersByPeerID (uint (h_PeerID h)) (s_store s))")
  case None
  then show ?thesis using w by (simp add: HandleInbound_def spent_def)
next
  case (Some p)
  define s' where "s' = snd (HandleInbound A now bearer text s)"
  have s': "s' = inbound_frame now bearer p (the (opens A wire s p)) s"
    using w Some by (simp add: s'_def HandleInbound_def)
  have "p \<in> set (ListOOBPeersByPeerID (uint (h_PeerID h)) (s_store s))" using Some by (auto simp: find_Some_iff)
  then have p: "fmlookup (s_store s) (p_TenantID p, p_BridgeID p) = Some p"
    using ListOOBPeers_mem k unfolding keyed_def by blast
  obtain q where q: "fmlookup (s_store s') (p_TenantID p, p_BridgeID p) = Some q" "row_moves p q"
    "rejects (rx q) (f_Counter (the (opens A wire s p)))"
    using inbound_frame_move(2) [OF p] unfolding s' by blast
  have mv: "tables_move (s_store s) (s_store s')" "s_masterKey s' = s_masterKey s"
    using inbound_frame_move(1) [OF p] by (simp_all add: s')
  obtain q' where q': "List.find (\<lambda>p. opens A wire s' p \<noteq> None) (ListOOBPeersByPeerID (uint (h_PeerID h)) (s_store s')) = Some q'"
    "\<exists>k. fmlookup (s_store s) k = Some p \<and> fmlookup (s_store s') k = Some q'"
    using find_moved [OF mv, of A wire "uint (h_PeerID h)"] unfolding Some by (auto simp: option_rel_Some1)
  then have "q' = q" using q(1) k unfolding keyed_def by (metis option.inject)
  then have "spent A wire h s'"
    using q q' opens_cong [of p q s s'] mv(2) by (simp add: spent_def row_moves_def)
  then show ?thesis by (simp add: s'_def)
qed

section \<open>Nonces\<close>

definition texts_for :: "string \<Rightarrow> string \<Rightarrow> Service \<Rightarrow> string list" where
  "texts_for t b s = map (\<lambda>(_, _, x). x) (filter (\<lambda>(t', b', _). t' = t \<and> b' = b) (s_out s))"

definition text_nonce :: "Role \<Rightarrow> Direction \<Rightarrow> string \<Rightarrow> bytes" where
  "text_nonce r d text = (case text_header text of None \<Rightarrow> [] | Some h \<Rightarrow> Nonce (h_PeerID h) r d (h_Counter h))"

text \<open>The counters of the texts of a pairing go up, and none is beyond the stored counter.\<close>

definition counters_up :: "Service \<Rightarrow> bool" where
  "counters_up s \<longleftrightarrow> (\<forall>t b. sorted_wrt (\<lambda>x y. uint (h_Counter (the (text_header x))) < uint (h_Counter (the (text_header y)))) (texts_for t b s) \<and>
     (\<forall>x \<in> set (texts_for t b s). text_header x \<noteq> None \<and>
        (\<exists>p. fmlookup (s_store s) (t, b) = Some p \<and> uint (h_Counter (the (text_header x))) \<le> p_TxCounter p)))"

lemma counters_up_step:
  assumes inv: "counters_up s" and ok: "step_ok s s'"
  shows "counters_up s'"
  unfolding counters_up_def
proof (intro allI)
  fix t b
  let ?c = "\<lambda>x. uint (h_Counter (the (text_header x)))"
  have mv: "tables_move (s_store s) (s_store s')" using ok by (simp add: step_ok_def)
  have old: "sorted_wrt (\<lambda>x y. ?c x < ?c y) (texts_for t b s)"
    "\<And>x. x \<in> set (texts_for t b s) \<Longrightarrow> text_header x \<noteq> None \<and> (\<exists>p. fmlookup (s_store s) (t, b) = Some p \<and> ?c x \<le> p_TxCounter p)"
    using inv unfolding counters_up_def by auto
  have kept: "text_header x \<noteq> None \<and> (\<exists>p. fmlookup (s_store s') (t, b) = Some p \<and> ?c x \<le> p_TxCounter p)"
    if "x \<in> set (texts_for t b s)" for x
    using old(2) [OF that] mv unfolding tables_move_def row_moves_def by (meson order_trans)
  consider "texts_for t b s' = texts_for t b s"
    | x h p q where "texts_for t b s' = texts_for t b s @ [x]" "fmlookup (s_store s) (t, b) = Some p"
      "fmlookup (s_store s') (t, b) = Some q" "p_TxCounter q = p_TxCounter p + 1"
      "text_header x = Some h" "uint (h_Counter h) = p_TxCounter q"
  proof (cases "s_out s' = s_out s")
    case True
    then show ?thesis using that(1) by (simp add: texts_for_def)
  next
    case False
    then obtain t' b' x p q h where out: "s_out s' = s_out s @ [(t', b', x)]"
      and rest: "fmlookup (s_store s) (t', b') = Some p" "fmlookup (s_store s') (t', b') = Some q"
        "p_TxCounter q = p_TxCounter p + 1" "text_header x = Some h" "uint (h_Counter h) = p_TxCounter q"
      using ok unfolding step_ok_def sends_next_def by blast
    show ?thesis
    proof (cases "t' = t \<and> b' = b")
      case True
      then show ?thesis using that(2) [of x p q h] out rest by (simp add: texts_for_def)
    next
      case False
      then show ?thesis using that(1) out by (auto simp: texts_for_def)
    qed
  qed
  then show "sorted_wrt (\<lambda>x y. ?c x < ?c y) (texts_for t b s') \<and>
     (\<forall>x \<in> set (texts_for t b s'). text_header x \<noteq> None \<and> (\<exists>p. fmlookup (s_store s') (t, b) = Some p \<and> ?c x \<le> p_TxCounter p))"
  proof cases
    case 1
    then show ?thesis using old(1) kept by simp
  next
    case (2 x h p q)
    have "?c y < ?c x" if "y \<in> set (texts_for t b s)" for y
      using old(2) [OF that] 2 by auto
    then show ?thesis using 2 old(1) kept by (auto simp: sorted_wrt_append)
  qed
qed

lemma counters_up_run:
  assumes "aead_documented A" "keyed (s_store s)" "counters_up s"
  shows "counters_up (svc_run A s evs)"
  using assms(2,3)
proof (induction evs arbitrary: s)
  case (Cons ev evs)
  have ok: "step_ok s (svc_step A s ev)" by (rule svc_step_ok [OF assms(1) Cons.prems(1)])
  then have "keyed (s_store (svc_step A s ev))"
    using Cons.prems keyed_move by (auto simp: step_ok_def)
  then show ?case using Cons.IH counters_up_step [OF Cons.prems(2) ok] by (simp add: svc_run_def)
qed (simp add: svc_run_def)

lemma counters_up_nonces:
  assumes "counters_up s"
  shows "distinct (map (text_nonce r d) (texts_for t b s))"
proof -
  let ?c = "\<lambda>x. uint (h_Counter (the (text_header x)))"
  have up: "sorted_wrt (\<lambda>x y. ?c x < ?c y) (texts_for t b s)"
    and some: "\<And>x. x \<in> set (texts_for t b s) \<Longrightarrow> text_header x \<noteq> None"
    using assms unfolding counters_up_def by auto
  have "text_nonce r d x \<noteq> text_nonce r d y"
    if "x \<in> set (texts_for t b s)" "y \<in> set (texts_for t b s)" "?c x < ?c y" for x y
    using some [OF that(1)] some [OF that(2)] that(3) by (auto simp: text_nonce_def Nonce_inject)
  then have "sorted_wrt (\<lambda>x y. text_nonce r d x \<noteq> text_nonce r d y) (texts_for t b s)"
    using up by (rule sorted_wrt_mono_rel)
  then show ?thesis by (simp add: distinct_map_filter sorted_wrt_map distinct_conv_nth sorted_wrt_iff_nth_less) (metis linorder_neqE_nat)
qed

section \<open>The hourly ceiling\<close>

fun allow_step :: "int \<Rightarrow> instant \<times> string \<times> string \<times> string \<Rightarrow> Service \<Rightarrow> bool \<times> Service" where
  "allow_step m (now, tenant, bridge, bearer) s = allow now tenant bridge bearer m s"

text \<open>The times at which sends under a key were allowed.\<close>

fun granted :: "string \<Rightarrow> (instant \<times> string \<times> string \<times> string) list \<Rightarrow> bool list \<Rightarrow> instant list" where
  "granted k ((now, tenant, bridge, bearer) # evs) (ok # oks) =
     (if ok \<and> budget_key tenant bridge bearer = k then [now] else []) @ granted k evs oks"
| "granted k evs oks = []"

definition in_hour :: "instant \<Rightarrow> instant list \<Rightarrow> nat" where
  "in_hour x ts = length (filter (\<lambda>t. x - hour < t \<and> t \<le> x) ts)"

definition ledger :: "int \<Rightarrow> string \<Rightarrow> instant \<Rightarrow> Service \<Rightarrow> instant list \<Rightarrow> bool" where
  "ledger m k now s G \<longleftrightarrow> (\<forall>t \<in> set G. t \<le> now) \<and>
     filter (\<lambda>t. t > now - hour) (sent_times k s) = filter (\<lambda>t. t > now - hour) G \<and> (\<forall>x. int (in_hour x G) \<le> m)"

lemma filter_later:
  assumes "filter (\<lambda>t. t > a) xs = filter (\<lambda>t. t > a) ys" "a \<le> (b :: int)"
  shows "filter (\<lambda>t. t > b) xs = filter (\<lambda>t. t > b) ys"
proof -
  have "filter (\<lambda>t. t > b) zs = filter (\<lambda>t. t > b) (filter (\<lambda>t. t > a) zs)" for zs
    using assms(2) by (induction zs) auto
  then show ?thesis using assms(1) by metis
qed

lemma sent_times_upd: "sent_times k (s\<lparr>s_sent := fmupd j ts (s_sent s)\<rparr>) = (if k = j then ts else sent_times k s)"
  by (simp add: sent_times_def)

lemma ledger_wait: "ledger m k now s G \<Longrightarrow> now \<le> now' \<Longrightarrow> ledger m k now' s G"
  unfolding ledger_def using filter_later [of "now - hour" "sent_times k s" G "now' - hour"] by auto

lemma in_hour_snoc:
  assumes "\<forall>t \<in> set G. t \<le> now" "int (length (filter (\<lambda>t. t > now - hour) G)) < m" "\<forall>x. int (in_hour x G) \<le> m"
  shows "int (in_hour x (G @ [now])) \<le> m"
proof (cases "x - hour < now \<and> now \<le> x")
  case True
  have "in_hour x G \<le> length (filter (\<lambda>t. t > now - hour) G)"
    unfolding in_hour_def using True by (induction G) auto
  then show ?thesis using assms(2) True by (simp add: in_hour_def)
next
  case False
  then have "in_hour x (G @ [now]) = in_hour x G" by (auto simp: in_hour_def)
  then show ?thesis using assms(3) by metis
qed

lemma ledger_allow:
  assumes inv: "ledger m k now s G" and out: "allow now tenant bridge bearer m s = (ok, s')"
  shows "ledger m k now s' (G @ (if ok \<and> budget_key tenant bridge bearer = k then [now] else []))"
proof (cases "budget_key tenant bridge bearer = k")
  case True
  define kept where "kept = filter (\<lambda>t. t > now - hour) (sent_times k s)"
  have G: "kept = filter (\<lambda>t. t > now - hour) G" "\<forall>t \<in> set G. t \<le> now" "\<forall>x. int (in_hour x G) \<le> m"
    using inv by (simp_all add: ledger_def kept_def)
  have again: "filter (\<lambda>t. t > now - hour) kept = kept" by (simp add: kept_def)
  show ?thesis
  proof (cases ok)
    case ok: True
    then have "int (length kept) < m" "sent_times k s' = kept @ [now]"
      using out True by (auto simp: allow_def Let_def kept_def sent_times_upd split: if_splits)
    then show ?thesis
      using G again True ok in_hour_snoc [of G now m] by (auto simp: ledger_def)
  next
    case False
    then have "sent_times k s' = kept"
      using out True by (auto simp: allow_def Let_def kept_def sent_times_upd split: if_splits)
    then show ?thesis using G again False by (simp add: ledger_def)
  qed
next
  case False
  then have "sent_times k s' = sent_times k s"
    using out by (auto simp: allow_def Let_def sent_times_upd split: if_splits)
  then show ?thesis using inv False by (simp add: ledger_def)
qed

lemma ledger_run:
  assumes "ledger m k now s G" "sorted (map fst evs)" "\<And>e. e \<in> set evs \<Longrightarrow> now \<le> fst e"
  shows "\<forall>x. int (in_hour x (G @ granted k evs (fst (run (allow_step m) evs s)))) \<le> m"
  using assms
proof (induction evs arbitrary: now s G)
  case Nil
  then show ?case by (simp add: ledger_def)
next
  case (Cons e evs)
  obtain now' tenant bridge bearer where e: "e = (now', tenant, bridge, bearer)" by (cases e)
  obtain ok s' where out: "allow now' tenant bridge bearer m s = (ok, s')" by fastforce
  have "ledger m k now' s G" using ledger_wait Cons.prems(1,3) e by force
  from ledger_allow [OF this out]
  have "\<forall>x. int (in_hour x ((G @ (if ok \<and> budget_key tenant bridge bearer = k then [now'] else [])) @
      granted k evs (fst (run (allow_step m) evs s')))) \<le> m"
    by (rule Cons.IH) (use Cons.prems(2) e in auto)
  then show ?case by (simp add: e out case_prod_beta)
qed

section \<open>Properties\<close>

text \<open>C7: No two commands the hub sends to a bridge under one pairing use the same AES-GCM nonce,
  over any sequence of commands, inbound frames, waits and announcements: the stored counter goes
  up before a frame is sealed, and the counter is part of the nonce.\<close>

theorem hub_nonces_unique:
  assumes "aead_documented A" "keyed (s_store s)" "s_out s = []"
  shows "distinct (map (text_nonce r d) (texts_for t b (svc_run A s evs)))"
  by (rule counters_up_nonces, rule counters_up_run [OF assms(1,2)])
    (simp add: counters_up_def texts_for_def assms(3))

definition demo_service :: Service where
  "demo_service = (snd (Pair toy_gcm (\<lambda>_. [0, 5]) 0 (Some (replicate 12 3)) ''t'' ''b'' (replicate 32 9) RoleIssuer [] []
     (RegisterTransport ''sms'' (60 * second) (New (replicate 32 1) 20))))"

definition demo_args :: ArgSpec where
  "demo_args = \<lparr>a_Delay = 0, a_Target = [], a_Level = 0, a_State = [], a_Unit = [], a_Lines = 0\<rparr>"

lemma demo_keyed: "keyed (s_store demo_service) \<and> s_out demo_service = []"
  by (auto simp: demo_service_def RegisterTransport_def Pair_def New_def Encrypt_def aes_key_def GetOOBPeer_def UpsertOOBPeer_def svc_log_def
      keyed_def Let_def)

theorem hub_nonces_unique_witness:
  "distinct (map (text_nonce RoleIssuer DirRequest) (texts_for ''t'' ''b''
     (svc_run toy_gcm demo_service
        [Ev_Send 5 ''t'' ''b'' ''sms'' ''ping'' demo_args True None True, Ev_Send 6 ''t'' ''b'' ''sms'' ''ping'' demo_args True None True])))"
  by (rule hub_nonces_unique [OF toy_gcm_documented]) (simp_all add: demo_keyed)



text \<open>C35: With a ceiling of \<open>m\<close> commands per hour, the calls allowed for one tenant, bridge and
  bearer are at most \<open>m\<close> in every window of an hour, however the calls for all bridges are
  spread.\<close>

theorem hourly_ceiling:
  assumes "sorted (map fst evs)" "0 \<le> m" "s_sent s = fmempty"
  shows "int (in_hour x (granted k evs (fst (run (allow_step m) evs s)))) \<le> m"
proof (cases evs)
  case (Cons e es)
  have "ledger m k (fst e) s []" using assms(2,3) by (simp add: ledger_def in_hour_def sent_times_def)
  then show ?thesis using ledger_run [of m k "fst e" s "[]" evs] assms(1) Cons by auto
qed (use assms(2) in \<open>simp add: in_hour_def\<close>)

theorem hourly_ceiling_witness:
  "int (in_hour 9 (granted (budget_key ''t'' ''b'' ''sms'') [(1, ''t'', ''b'', ''sms''), (2, ''t'', ''b'', ''sms'')]
     (fst (run (allow_step 1) [(1, ''t'', ''b'', ''sms''), (2, ''t'', ''b'', ''sms'')] (New [] 1))))) \<le> 1"
  by (rule hourly_ceiling) (simp_all add: New_def)

section \<open>What the model shows\<close>

text \<open>The waiter of a command is found by bridge and counter alone: a reply that authenticates for
  a bridge of the same name of another tenant reaches it.\<close>

lemma waiter_ignores_tenant:
  assumes "p_BridgeID p = w_bridge w" "p_TenantID p \<noteq> w_tenant w"
    "\<not> rejects (rx p) (f_Counter f)" "f_Reply f" "ParseReplyArgs (f_Args f) = Some ra"
    "pendingKey (w_bridge w) (of_nat (unat (ra_ReqCounterLo ra))) = pendingKey (w_bridge w) (w_counter w)"
    "fmlookup (s_pending s) (pendingKey (w_bridge w) (w_counter w)) = Some []"
  shows "\<exists>r. fmlookup (s_pending (inbound_frame now bearer p f s)) (pendingKey (w_bridge w) (w_counter w)) = Some [r]"
  using assms
  by (auto simp: inbound_frame_def rejects_def rx_def case_prod_beta Let_def announce_def deliver_def svc_log_def
      replySegments_def)

text \<open>Removing a pairing and pairing again with the same key starts the counters at zero, so the
  nonces of that key come around again.\<close>

lemma repair_restarts_counters:
  assumes "Pair A sha256 now rnd t b key role phone imei (Unpair t b s) = (Inr pid, s')"
  shows "\<exists>p. fmlookup (s_store s') (t, b) = Some p \<and> p_TxCounter p = 0 \<and> p_RxHigh p = 0 \<and> p_RxWindow p = 0"
  using assms
  by (auto simp: Pair_def Unpair_def DeleteOOBPeer_def GetOOBPeer_def UpsertOOBPeer_def svc_log_def Let_def
      split: if_splits sum.splits)

end
