(* ===== verification/Hdlc.thy ===== *)
theory Hdlc
  imports Runs
begin

text \<open>
  The HDLC framing of the Reticulum interfaces: the escaping and the two frame readers,
  \<open>internal/rnswire/hdlc.go\<close> and \<open>internal/reticulum/hdlc.go\<close>, which share the frame
  extraction and differ in how they bound what they hold back.
\<close>

section \<open>Escaping\<close>

definition HDLCFlag :: byte where "HDLCFlag = 0x7E"
definition HDLCEsc :: byte where "HDLCEsc = 0x7D"
definition HDLCEscMask :: byte where "HDLCEscMask = 0x20"

definition HeaderMinSize :: nat where "HeaderMinSize = 19"

fun HDLCEscape :: "bytes \<Rightarrow> bytes" where
  "HDLCEscape [] = []"
| "HDLCEscape (b # data) =
     (if b = HDLCEsc then [HDLCEsc, HDLCEsc XOR HDLCEscMask]
      else if b = HDLCFlag then [HDLCEsc, HDLCFlag XOR HDLCEscMask]
      else [b]) @ HDLCEscape data"

fun HDLCUnescape :: "bytes \<Rightarrow> bytes" where
  "HDLCUnescape [] = []"
| "HDLCUnescape [b] = [b]"
| "HDLCUnescape (b # c # data) =
     (if b = HDLCEsc then (c XOR HDLCEscMask) # HDLCUnescape data else b # HDLCUnescape (c # data))"

definition HDLCFrame :: "bytes \<Rightarrow> bytes" where
  "HDLCFrame data = [HDLCFlag] @ HDLCEscape data @ [HDLCFlag]"

section \<open>Readers\<close>

text \<open>The loop of both readers: the frames between flags and what is kept for the next call.\<close>

function extract_frames :: "bytes \<Rightarrow> bytes list \<times> bytes" where
  "extract_frames buf =
     (case dropWhile (\<lambda>b. b \<noteq> HDLCFlag) buf of
        [] \<Rightarrow> ([], [])
      | start # tail \<Rightarrow>
          (let escaped = takeWhile (\<lambda>b. b \<noteq> HDLCFlag) tail;
               rest = dropWhile (\<lambda>b. b \<noteq> HDLCFlag) tail
           in if rest = [] then ([], start # tail)
              else let (frames, kept) = extract_frames rest
                   in ((if HeaderMinSize \<le> length escaped then [HDLCUnescape escaped] else []) @ frames, kept)))"
  by pat_completeness auto
termination
proof (relation "measure length", goal_cases)
  case (2 buf start tail escaped rest)
  have "length rest \<le> length tail" using 2 by (simp add: length_dropWhile_le)
  moreover have "length (start # tail) \<le> length buf" using 2(1) by (metis length_dropWhile_le)
  ultimately show ?case by simp
qed simp

declare extract_frames.simps [simp del]

text \<open>\<open>internal/rnswire\<close>: the buffer is cut to its last flag when it outgrows the bound.\<close>

definition HDLCMaxBuffered :: nat where "HDLCMaxBuffered = 2 * 262144 + 2"

definition from_last_flag :: "bytes \<Rightarrow> bytes" where
  "from_last_flag buf =
     (let tail = takeWhile (\<lambda>b. b \<noteq> HDLCFlag) (rev buf)
      in if length tail = length buf then [] else HDLCFlag # rev tail)"

definition rns_Feed :: "bytes \<Rightarrow> bytes \<Rightarrow> bytes list \<times> bytes" where
  "rns_Feed data buf =
     (let buf = buf @ data;
          buf = (if HDLCMaxBuffered < length buf then
                   (let tail = from_last_flag buf in if tail = [] \<or> HDLCMaxBuffered < length tail then [] else tail)
                 else buf)
      in extract_frames buf)"

text \<open>\<open>internal/reticulum\<close>: an overlong partial frame is dropped and counted.\<close>

definition MaxFrameBufferSize :: nat where "MaxFrameBufferSize = 16384"

record HDLCFrameReader =
  rd_buf :: bytes
  rd_oversizeDrops :: "64 word"

definition NewHDLCFrameReader :: HDLCFrameReader where
  "NewHDLCFrameReader = \<lparr>rd_buf = [], rd_oversizeDrops = 0\<rparr>"

definition ret_Feed :: "bytes \<Rightarrow> HDLCFrameReader \<Rightarrow> bytes list \<times> HDLCFrameReader" where
  "ret_Feed data r =
     (let (frames, kept) = extract_frames (rd_buf r @ data)
      in (frames, if MaxFrameBufferSize < length kept then \<lparr>rd_buf = [], rd_oversizeDrops = rd_oversizeDrops r + 1\<rparr>
                  else r\<lparr>rd_buf := kept\<rparr>))"

section \<open>Escaping round-trips and hides the flag\<close>

lemma Unescape_Escape_append: "HDLCUnescape (HDLCEscape data @ tail) = data @ HDLCUnescape tail"
proof (induction data)
  case (Cons b data)
  note IH = Cons.IH
  show ?case
    by (cases "HDLCEscape data @ tail")
      (use IH in \<open>auto simp: HDLCEsc_def HDLCFlag_def HDLCEscMask_def\<close>)
qed simp

lemma Unescape_Escape: "HDLCUnescape (HDLCEscape data) = data"
  using Unescape_Escape_append [of data "[]"] by simp

lemma flag_notin_Escape: "HDLCFlag \<notin> set (HDLCEscape data)"
  by (induction data) (auto simp: HDLCEsc_def HDLCFlag_def HDLCEscMask_def)

lemma length_Escape: "length data \<le> length (HDLCEscape data) \<and> length (HDLCEscape data) \<le> 2 * length data"
  by (induction data) auto

section \<open>Extraction does not depend on how the bytes arrive\<close>

abbreviation (input) "noflag \<equiv> \<lambda>b :: byte. b \<noteq> HDLCFlag"

lemma extract_skip: "HDLCFlag \<notin> set us \<Longrightarrow> extract_frames (us @ buf) = extract_frames buf"
proof -
  assume "HDLCFlag \<notin> set us"
  then have "dropWhile noflag (us @ buf) = dropWhile noflag buf" by (subst dropWhile_append2) auto
  then show ?thesis by (simp only: extract_frames.simps [of "us @ buf"] extract_frames.simps [of buf])
qed

lemma extract_none: "HDLCFlag \<notin> set buf \<Longrightarrow> extract_frames buf = ([], [])"
proof -
  assume "HDLCFlag \<notin> set buf"
  then have "dropWhile noflag buf = []" by auto
  then show ?thesis by (subst extract_frames.simps) (simp del: dropWhile_eq_Nil_conv)
qed

lemma extract_partial: "HDLCFlag \<notin> set e \<Longrightarrow> extract_frames (HDLCFlag # e) = ([], HDLCFlag # e)"
proof -
  assume "HDLCFlag \<notin> set e"
  then have "dropWhile noflag e = []" by auto
  then show ?thesis by (subst extract_frames.simps) (simp add: Let_def del: dropWhile_eq_Nil_conv)
qed

definition frame_of :: "bytes \<Rightarrow> bytes list" where
  "frame_of e = (if HeaderMinSize \<le> length e then [HDLCUnescape e] else [])"

lemma extract_frame:
  assumes "HDLCFlag \<notin> set e"
  shows "extract_frames (HDLCFlag # e @ HDLCFlag # buf) =
    (frame_of e @ fst (extract_frames (HDLCFlag # buf)), snd (extract_frames (HDLCFlag # buf)))"
proof -
  have "takeWhile noflag (e @ HDLCFlag # buf) = e" "dropWhile noflag (e @ HDLCFlag # buf) = HDLCFlag # buf"
    using assms by (simp_all add: takeWhile_append dropWhile_append)
  then show ?thesis
    by (subst extract_frames.simps) (simp add: frame_of_def Let_def case_prod_beta)
qed

text \<open>A buffer is cut at its flags: nothing before the first, a partial frame after the last.\<close>

definition waiting :: "bytes \<Rightarrow> bool" where
  "waiting k \<longleftrightarrow> k = [] \<or> (\<exists>e. k = HDLCFlag # e \<and> HDLCFlag \<notin> set e)"

lemma buffer_cases:
  obtains (none) "HDLCFlag \<notin> set buf"
  | (partial) us e where "buf = us @ HDLCFlag # e" "HDLCFlag \<notin> set us" "HDLCFlag \<notin> set e"
  | (frame) us e rest where "buf = us @ HDLCFlag # e @ HDLCFlag # rest" "HDLCFlag \<notin> set us" "HDLCFlag \<notin> set e"
  by (metis split_list_first)

lemma extract_append:
  "extract_frames (xs @ ys) =
     (fst (extract_frames xs) @ fst (extract_frames (snd (extract_frames xs) @ ys)),
      snd (extract_frames (snd (extract_frames xs) @ ys))) \<and> waiting (snd (extract_frames xs)) \<and>
   (\<exists>us. xs = us @ snd (extract_frames xs))"
proof (induction xs rule: length_induct)
  case (1 xs)
  show ?case
  proof (cases rule: buffer_cases [of xs])
    case none
    then show ?thesis by (simp add: extract_none extract_skip waiting_def)
  next
    case (partial us e)
    then show ?thesis by (auto simp: extract_skip extract_partial waiting_def)
  next
    case (frame us e rest)
    have ih: "extract_frames ((HDLCFlag # rest) @ ys) =
        (fst (extract_frames (HDLCFlag # rest)) @ fst (extract_frames (snd (extract_frames (HDLCFlag # rest)) @ ys)),
         snd (extract_frames (snd (extract_frames (HDLCFlag # rest)) @ ys))) \<and>
      waiting (snd (extract_frames (HDLCFlag # rest))) \<and> (\<exists>us. HDLCFlag # rest = us @ snd (extract_frames (HDLCFlag # rest)))"
      by (rule "1.IH" [rule_format]) (simp add: frame(1))
    then obtain vs where "HDLCFlag # rest = vs @ snd (extract_frames (HDLCFlag # rest))" by blast
    then have "xs = (us @ HDLCFlag # e @ vs) @ snd (extract_frames (HDLCFlag # rest))"
      using frame(1) by simp
    moreover have "extract_frames xs = (frame_of e @ fst (extract_frames (HDLCFlag # rest)), snd (extract_frames (HDLCFlag # rest)))"
      unfolding frame(1) by (simp add: extract_skip [OF frame(2)] extract_frame [OF frame(3)])
    moreover have "extract_frames (xs @ ys) = (frame_of e @ fst (extract_frames (HDLCFlag # rest @ ys)), snd (extract_frames (HDLCFlag # rest @ ys)))"
      unfolding frame(1) by (simp add: extract_skip [OF frame(2)] extract_frame [OF frame(3)])
    ultimately show ?thesis
      using ih by (metis append.assoc append_Cons fst_conv snd_conv)
  qed
qed

lemmas extract_split = conjunct1 [OF extract_append]
lemmas extract_waiting = conjunct1 [OF conjunct2 [OF extract_append]]
lemmas extract_suffix = conjunct2 [OF conjunct2 [OF extract_append]]

lemma extract_waits: "waiting k \<Longrightarrow> extract_frames k = ([], k)"
  by (auto simp: waiting_def extract_partial extract_none)

lemma resync:
  assumes "waiting k"
  shows "\<exists>junk. length junk \<le> 1 \<and> (\<forall>xs. extract_frames (k @ HDLCFlag # xs) =
    (junk @ fst (extract_frames (HDLCFlag # xs)), snd (extract_frames (HDLCFlag # xs))))"
proof (cases k)
  case Nil
  then show ?thesis by (intro exI [of _ "[]"]) simp
next
  case (Cons f e)
  then have "f = HDLCFlag" "HDLCFlag \<notin> set e" using assms by (auto simp: waiting_def)
  then show ?thesis using Cons by (intro exI [of _ "frame_of e"]) (simp add: extract_frame frame_of_def)
qed

section \<open>Streams of frames\<close>

definition stream_of :: "bytes list \<Rightarrow> bytes" where
  "stream_of ps = concat (map HDLCFrame ps)"

lemma stream_of_Cons: "stream_of (p # ps) = HDLCFlag # HDLCEscape p @ HDLCFlag # stream_of ps"
  by (simp add: stream_of_def HDLCFrame_def)

lemma extract_flag_flag: "extract_frames (HDLCFlag # HDLCFlag # buf) = extract_frames (HDLCFlag # buf)"
  using extract_frame [of "[]" buf] by (simp add: frame_of_def HeaderMinSize_def)

lemma extract_stream:
  assumes "\<forall>p \<in> set ps. 19 \<le> length p"
  shows "extract_frames (stream_of ps) = (ps, if ps = [] then [] else [HDLCFlag])"
  using assms
proof (induction ps)
  case Nil
  then show ?case by (simp add: stream_of_def extract_none)
next
  case (Cons p ps)
  note prems = Cons.prems and IH = Cons.IH
  have "frame_of (HDLCEscape p) = [p]"
    using Cons.prems length_Escape [of p] by (simp add: frame_of_def HeaderMinSize_def Unescape_Escape)
  moreover have "extract_frames (HDLCFlag # stream_of ps) = (ps, [HDLCFlag])"
  proof (cases ps)
    case Nil
    then show ?thesis by (simp add: stream_of_def extract_partial)
  next
    case (Cons q qs)
    then show ?thesis using prems IH
      by (simp add: stream_of_Cons extract_flag_flag)
  qed
  ultimately show ?case
    by (simp add: stream_of_Cons extract_frame flag_notin_Escape)
qed

text \<open>A stretch without flags lies within one escaped packet.\<close>

lemma segment_split:
  assumes "us @ e @ vs = a @ HDLCFlag # b" "HDLCFlag \<notin> set e"
  shows "(\<exists>us' vs'. us' @ e @ vs' = a) \<or> (\<exists>us'. us' @ e @ vs = b)"
proof -
  consider z where "us = a @ z" "z @ e @ vs = HDLCFlag # b" | z where "a = us @ z" "e @ vs = z @ HDLCFlag # b"
    using assms(1) unfolding append_eq_append_conv2 by blast
  then show ?thesis
  proof cases
    case (1 z)
    then show ?thesis using assms(2) by (cases z; cases e) auto
  next
    case (2 z)
    then consider w where "e = z @ w" "w @ vs = HDLCFlag # b" | w where "z = e @ w"
      unfolding append_eq_append_conv2 by blast
    then show ?thesis
    proof cases
      case (1 w)
      then have "w = []" using assms(2) by (cases w) auto
      then show ?thesis using 1 2 by (intro disjI1 exI [of _ us] exI [of _ "[]"]) simp
    next
      case (2 w)
      then show ?thesis using \<open>a = us @ z\<close> by blast
    qed
  qed
qed

lemma stream_gap:
  assumes "us @ e @ vs = stream_of ps" "HDLCFlag \<notin> set e" "\<forall>p \<in> set ps. length p \<le> M"
  shows "length e \<le> 2 * M"
  using assms
proof (induction ps arbitrary: us)
  case Nil
  then show ?case by (simp add: stream_of_def)
next
  case (Cons p ps)
  have "us @ e @ vs = (HDLCFlag # HDLCEscape p) @ HDLCFlag # stream_of ps"
    using Cons.prems(1) by (simp add: stream_of_Cons)
  from segment_split [OF this Cons.prems(2)] show ?case
  proof
    assume "\<exists>us' vs'. us' @ e @ vs' = HDLCFlag # HDLCEscape p"
    then obtain us' vs' where "us' @ e @ vs' = [] @ HDLCFlag # HDLCEscape p" by auto
    from segment_split [OF this Cons.prems(2)] have "length e \<le> length (HDLCEscape p)"
      by (elim disjE exE) (auto dest!: arg_cong [where f = length])
    then show ?thesis using length_Escape [of p] Cons.prems(3) by auto
  next
    assume "\<exists>us'. us' @ e @ vs = stream_of ps"
    then show ?thesis using Cons.IH Cons.prems by auto
  qed
qed

lemma kept_in_stream:
  assumes k: "waiting k" "length k \<le> n" and s: "xs @ ys = stream_of ps" and M: "\<forall>p \<in> set ps. length p \<le> M" "2 * M + 1 \<le> n"
  shows "length (snd (extract_frames (k @ xs))) \<le> n"
proof (cases xs)
  case Nil
  then show ?thesis using k by (simp add: extract_waits)
next
  case (Cons x xs')
  then have x: "x = HDLCFlag" using s by (cases ps) (auto simp: stream_of_def HDLCFrame_def)
  obtain us where us: "xs = us @ snd (extract_frames xs)" using extract_suffix by blast
  have kept: "snd (extract_frames (k @ xs)) = snd (extract_frames xs)"
    using resync [OF k(1)] Cons x by auto
  have "waiting (snd (extract_frames xs))" using extract_waiting by blast
  then consider "snd (extract_frames xs) = []" | e where "snd (extract_frames xs) = HDLCFlag # e" "HDLCFlag \<notin> set e"
    unfolding waiting_def by blast
  then show ?thesis
  proof cases
    case (2 e)
    then have "(us @ [HDLCFlag]) @ e @ ys = stream_of ps" using us s by (metis append.assoc append_Cons append_Nil)
    then show ?thesis using stream_gap [OF _ 2(2) M(1)] 2 kept M(2) by fastforce
  qed (simp add: kept)
qed

section \<open>Both readers deliver\<close>

definition ext :: "bytes \<Rightarrow> bytes \<Rightarrow> bytes list \<times> bytes" where
  "ext data buf = extract_frames (buf @ data)"

lemma run_ext:
  assumes "waiting k"
  shows "concat (fst (run ext chunks k)) = fst (extract_frames (k @ concat chunks)) \<and>
    snd (run ext chunks k) = snd (extract_frames (k @ concat chunks))"
  using assms
proof (induction chunks arbitrary: k)
  case Nil
  then show ?case by (simp add: extract_waits)
next
  case (Cons c cs)
  have "waiting (snd (extract_frames (k @ c)))" using extract_waiting by blast
  from Cons.IH [OF this] show ?case
    using extract_split [of "k @ c" "concat cs"] by (simp add: ext_def case_prod_beta)
qed

lemma ret_as_ext:
  assumes "\<forall>n. length (snd (extract_frames (rd_buf r @ concat (take n chunks)))) \<le> MaxFrameBufferSize"
  shows "run ret_Feed chunks r = (fst (run ext chunks (rd_buf r)), r\<lparr>rd_buf := snd (run ext chunks (rd_buf r))\<rparr>)"
  using assms
proof (induction chunks arbitrary: r)
  case (Cons c cs)
  define k where "k = snd (extract_frames (rd_buf r @ c))"
  have "length k \<le> MaxFrameBufferSize" using Cons.prems [rule_format, of 1] by (simp add: k_def)
  then have step: "ret_Feed c r = (fst (extract_frames (rd_buf r @ c)), r\<lparr>rd_buf := k\<rparr>)"
    by (simp add: ret_Feed_def k_def case_prod_beta)
  have "length (snd (extract_frames (k @ concat (take n cs)))) \<le> MaxFrameBufferSize" for n
    using Cons.prems [rule_format, of "Suc n"] extract_split [of "rd_buf r @ c" "concat (take n cs)"] by (simp add: k_def)
  then show ?case using Cons.IH [of "r\<lparr>rd_buf := k\<rparr>"] by (simp add: step ext_def k_def case_prod_beta)
qed simp

lemma rns_as_ext:
  assumes "\<forall>n < length chunks. length (snd (extract_frames (buf @ concat (take n chunks)))) + length (chunks ! n) \<le> HDLCMaxBuffered"
    "waiting buf"
  shows "run rns_Feed chunks buf = run ext chunks buf"
  using assms
proof (induction chunks arbitrary: buf)
  case (Cons c cs)
  have "length (buf @ c) \<le> HDLCMaxBuffered"
    using Cons.prems(1) [rule_format, of 0] Cons.prems(2) by (simp add: extract_waits)
  then have step: "rns_Feed c buf = extract_frames (buf @ c)" by (simp add: rns_Feed_def Let_def)
  have "length (snd (extract_frames (snd (extract_frames (buf @ c)) @ concat (take n cs)))) + length (cs ! n) \<le> HDLCMaxBuffered"
    if "n < length cs" for n
    using Cons.prems(1) [rule_format, of "Suc n"] that extract_split [of "buf @ c" "concat (take n cs)"] by simp
  then show ?case using Cons.IH [OF _ extract_waiting] by (simp add: step ext_def case_prod_beta)
qed simp

lemma waiting_ret_Feed: "waiting (rd_buf (snd (ret_Feed data r))) \<and> length (rd_buf (snd (ret_Feed data r))) \<le> MaxFrameBufferSize"
  using extract_waiting [of "rd_buf r @ data"] by (auto simp: ret_Feed_def case_prod_beta waiting_def)

lemma waiting_rns_Feed: "waiting (snd (rns_Feed data buf)) \<and> length (snd (rns_Feed data buf)) \<le> HDLCMaxBuffered"
proof -
  have "length (snd (extract_frames b)) \<le> length b" for b
    using extract_suffix [of b] by (metis le_add2 length_append)
  moreover obtain b where "rns_Feed data buf = extract_frames b" "length b \<le> HDLCMaxBuffered"
  proof (cases "HDLCMaxBuffered < length (buf @ data)")
    case True
    define b where "b = (if from_last_flag (buf @ data) = [] \<or> HDLCMaxBuffered < length (from_last_flag (buf @ data))
      then [] else from_last_flag (buf @ data))"
    have "rns_Feed data buf = extract_frames b" using True by (simp add: rns_Feed_def b_def Let_def)
    moreover have "length b \<le> HDLCMaxBuffered" by (simp add: b_def not_less)
    ultimately show ?thesis by (rule that)
  next
    case False
    then show ?thesis by (intro that [of "buf @ data"]) (simp_all add: rns_Feed_def Let_def)
  qed
  ultimately show ?thesis using extract_waiting by (metis order_trans)
qed

lemma run_last:
  "es \<noteq> [] \<Longrightarrow> \<exists>s'. snd (run step es s) = snd (step (last es) s')"
proof (induction es arbitrary: s)
  case (Cons e es)
  then show ?case by (cases "es = []") (auto simp: case_prod_beta)
qed simp

lemma reached_waiting:
  "waiting (rd_buf (snd (run ret_Feed noise NewHDLCFrameReader))) \<and>
   length (rd_buf (snd (run ret_Feed noise NewHDLCFrameReader))) \<le> MaxFrameBufferSize"
proof (cases "noise = []")
  case False
  then show ?thesis using run_last waiting_ret_Feed by metis
qed (simp add: NewHDLCFrameReader_def waiting_def)

lemma rns_reached_waiting:
  "waiting (snd (run rns_Feed noise [])) \<and> length (snd (run rns_Feed noise [])) \<le> HDLCMaxBuffered"
proof (cases "noise = []")
  case False
  then show ?thesis using run_last waiting_rns_Feed by metis
qed (simp add: waiting_def)

lemma extract_after_noise:
  assumes "waiting k" "\<forall>p \<in> set ps. 19 \<le> length p"
  shows "\<exists>junk. length junk \<le> 1 \<and> fst (extract_frames (k @ stream_of ps)) = junk @ ps"
proof (cases ps)
  case Nil
  then show ?thesis using assms(1) by (intro exI [of _ "[]"]) (simp add: stream_of_def extract_waits)
next
  case (Cons p qs)
  then obtain xs where xs: "stream_of ps = HDLCFlag # xs" by (simp add: stream_of_Cons)
  show ?thesis
    using resync [OF assms(1)] extract_stream [OF assms(2)] unfolding xs by auto
qed

section \<open>Property\<close>



end
