(* ===== verification/RnsPacket.thy ===== *)
theory RnsPacket
  imports Hdlc
begin

text \<open>
  Reticulum packets (\<open>internal/rnswire\<close>): the header codec (\<open>packet.go\<close>), the packet hash
  and its invariance under the rewriting of transport nodes (\<open>packethash.go\<close>), and the
  interface access codes (\<open>ifac.go\<close>). Ed25519 signing, SHA-256 and HKDF are arguments.
\<close>

section \<open>Header\<close>

abbreviation (input) "TruncatedHashLen \<equiv> 16 :: nat"
abbreviation (input) "HeaderMaxSize \<equiv> 35 :: nat"
abbreviation (input) "PathfinderM \<equiv> 128 :: nat"
definition HeaderType2 :: byte where "HeaderType2 = 1"
definition TransportTransport :: byte where "TransportTransport = 1"

record RnsHeader =
  HeaderType :: byte
  ContextFlag :: byte
  TransportType :: byte
  DestType :: byte
  PacketType :: byte
  Hops :: byte
  TransportID :: bytes
  DestHash :: bytes
  Context :: byte
  Data :: bytes

datatype rns_err = RnsTooShort | RnsMaxHops | RnsEmptyData

definition PackFlags :: "RnsHeader \<Rightarrow> byte" where
  "PackFlags h = push_bit 6 (HeaderType h) OR push_bit 5 (ContextFlag h) OR push_bit 4 (TransportType h)
     OR push_bit 2 (DestType h) OR PacketType h"

definition UnpackFlags :: "byte \<Rightarrow> RnsHeader \<Rightarrow> RnsHeader" where
  "UnpackFlags flags h = h\<lparr>HeaderType := drop_bit 6 (flags AND 0x40), ContextFlag := drop_bit 5 (flags AND 0x20),
     TransportType := drop_bit 4 (flags AND 0x10), DestType := drop_bit 2 (flags AND 0x0C), PacketType := flags AND 0x03\<rparr>"

definition HeaderSize :: "RnsHeader \<Rightarrow> nat" where
  "HeaderSize h = (if HeaderType h = HeaderType2 then HeaderMaxSize else HeaderMinSize)"

definition MarshalHeader :: "RnsHeader \<Rightarrow> bytes" where
  "MarshalHeader h = [PackFlags h, Hops h] @ (if HeaderType h = HeaderType2 then TransportID h else []) @
     DestHash h @ [Context h] @ Data h"

definition zero_header :: RnsHeader where
  "zero_header = \<lparr>HeaderType = 0, ContextFlag = 0, TransportType = 0, DestType = 0, PacketType = 0, Hops = 0,
     TransportID = replicate 16 0, DestHash = replicate 16 0, Context = 0, Data = []\<rparr>"

definition UnmarshalHeader :: "bytes \<Rightarrow> rns_err + RnsHeader" where
  "UnmarshalHeader raw =
     (if length raw < HeaderMinSize then Inl RnsTooShort
      else let h = (UnpackFlags (raw ! 0) zero_header)\<lparr>Hops := raw ! 1\<rparr>
      in if unat (Hops h) \<ge> PathfinderM then Inl RnsMaxHops
      else if HeaderType h = HeaderType2 \<and> length raw < HeaderMaxSize then Inl RnsTooShort
      else let pos = (if HeaderType h = HeaderType2 then 2 + TruncatedHashLen else 2);
               h = (if HeaderType h = HeaderType2 then h\<lparr>TransportID := slice 2 (2 + TruncatedHashLen) raw\<rparr> else h);
               h = h\<lparr>DestHash := slice pos (pos + TruncatedHashLen) raw, Context := raw ! (pos + TruncatedHashLen)\<rparr>;
               pos = pos + TruncatedHashLen + 1
      in if pos < length raw then Inr (h\<lparr>Data := drop pos raw\<rparr>) else Inl RnsEmptyData)"

definition IncrementHop :: "RnsHeader \<Rightarrow> bool \<times> RnsHeader" where
  "IncrementHop h = (if unat (Hops h) \<ge> PathfinderM then (False, h) else (True, h\<lparr>Hops := Hops h + 1\<rparr>))"

section \<open>Packet hash\<close>

definition header2 :: "bytes \<Rightarrow> bool" where
  "header2 raw \<longleftrightarrow> drop_bit 6 (raw ! 0 AND 0x40) = HeaderType2"

definition HashablePart :: "bytes \<Rightarrow> bytes" where
  "HashablePart raw =
     (if length raw < 2 then []
      else let start = (if header2 raw then 2 + TruncatedHashLen else 2)
           in if length raw < start then [] else (raw ! 0 AND 0x0F) # drop start raw)"

definition PacketHash :: "(bytes \<Rightarrow> bytes) \<Rightarrow> bytes \<Rightarrow> bytes" where
  "PacketHash sha256 raw = sha256 (HashablePart raw)"

definition TruncatedPacketHash :: "(bytes \<Rightarrow> bytes) \<Rightarrow> bytes \<Rightarrow> bytes" where
  "TruncatedPacketHash sha256 raw = take TruncatedHashLen (PacketHash sha256 raw)"

definition RewriteForTransport :: "bytes \<Rightarrow> bytes \<Rightarrow> bytes" where
  "RewriteForTransport raw transportID =
     (if length raw < HeaderMinSize then raw
      else if header2 raw then
        [raw ! 0 OR 0x10, raw ! 1] @ go_copy (slice 2 (2 + TruncatedHashLen) raw) transportID @ drop (2 + TruncatedHashLen) raw
      else [(raw ! 0 AND 0x0F) OR push_bit 6 HeaderType2 OR push_bit 4 TransportTransport OR (raw ! 0 AND 0x20), raw ! 1] @
        transportID @ drop 2 raw)"

definition StripTransport :: "bytes \<Rightarrow> bytes" where
  "StripTransport raw =
     (if length raw < HeaderMaxSize \<or> \<not> header2 raw then raw
      else [(raw ! 0 AND 0x0F) OR (raw ! 0 AND 0x20), raw ! 1] @ drop (2 + TruncatedHashLen) raw)"

section \<open>Interface access codes\<close>

text \<open>The derivation of \<open>length\<close> bytes with HKDF panics beyond 255 blocks of 32 bytes; \<open>None\<close>
  is that panic. The parameter is the first \<open>n\<close> bytes of the output key material.\<close>

type_synonym hkdf = "bytes \<Rightarrow> bytes \<Rightarrow> nat \<Rightarrow> bytes"

definition HKDF :: "hkdf \<Rightarrow> nat \<Rightarrow> bytes \<Rightarrow> bytes \<Rightarrow> bytes option" where
  "HKDF hkdf len ikm salt =
     (let salt = (if salt = [] then replicate 32 0 else salt) in if len > 255 * 32 then None else Some (hkdf ikm salt len))"

record IFAC =
  ifac_key :: bytes
  ifac_size :: nat
  ifac_signer :: bytes

definition IFACKey :: "(bytes \<Rightarrow> bytes) \<Rightarrow> hkdf \<Rightarrow> bytes \<Rightarrow> bytes \<Rightarrow> bytes \<Rightarrow> bytes" where
  "IFACKey sha256 hkdf salt netname netkey =
     (let origin = (if netname \<noteq> [] then sha256 netname else []) @ (if netkey \<noteq> [] then sha256 netkey else [])
      in the (HKDF hkdf 64 (sha256 origin) salt))"

datatype ifac_err = NoIFACSecret | BadIFACSize | ErrIFAC

definition NewIFAC :: "(bytes \<Rightarrow> bytes) \<Rightarrow> hkdf \<Rightarrow> bytes \<Rightarrow> bytes \<Rightarrow> bytes \<Rightarrow> int \<Rightarrow> ifac_err + IFAC" where
  "NewIFAC sha256 hkdf salt netname netkey sz =
     (if netname = [] \<and> netkey = [] then Inl NoIFACSecret
      else if sz < 1 \<or> sz > 64 then Inl BadIFACSize
      else let key = IFACKey sha256 hkdf salt netname netkey
           in Inr \<lparr>ifac_key = key, ifac_size = nat sz, ifac_signer = drop 32 key\<rparr>)"

text \<open>The msk applied to every byte outside the tag.\<close>

definition mask_outside :: "nat \<Rightarrow> bytes \<Rightarrow> bytes \<Rightarrow> bytes" where
  "mask_outside sz msk raw = map (\<lambda>i. if 2 \<le> i \<and> i < 2 + sz then raw ! i else raw ! i XOR msk ! i) [0..<length raw]"

definition tag_of :: "(bytes \<Rightarrow> bytes \<Rightarrow> bytes) \<Rightarrow> IFAC \<Rightarrow> bytes \<Rightarrow> bytes" where
  "tag_of sign f raw = (let sig = sign (ifac_signer f) raw in drop (length sig - ifac_size f) sig)"

definition Wrap :: "(bytes \<Rightarrow> bytes \<Rightarrow> bytes) \<Rightarrow> hkdf \<Rightarrow> IFAC \<Rightarrow> bytes \<Rightarrow> bytes option" where
  "Wrap sign hkdf f raw =
     (if length raw < 2 then Some raw
      else let ifac = tag_of sign f raw
      in case HKDF hkdf (length raw + ifac_size f) ifac (ifac_key f) of
           None \<Rightarrow> None
         | Some msk \<Rightarrow>
             let out = mask_outside (ifac_size f) msk ([raw ! 0 OR 0x80, raw ! 1] @ ifac @ drop 2 raw)
             in Some (out[0 := out ! 0 OR 0x80]))"

definition Unwrap :: "(bytes \<Rightarrow> bytes \<Rightarrow> bytes) \<Rightarrow> hkdf \<Rightarrow> IFAC \<Rightarrow> bytes \<Rightarrow> (ifac_err + bytes) option" where
  "Unwrap sign hkdf f raw =
     (if length raw \<le> 2 + ifac_size f then Some (Inl ErrIFAC)
      else if raw ! 0 AND 0x80 = 0 then Some (Inl ErrIFAC)
      else let ifac = slice 2 (2 + ifac_size f) raw
      in case HKDF hkdf (length raw) ifac (ifac_key f) of
           None \<Rightarrow> None
         | Some msk \<Rightarrow>
             let unmasked = mask_outside (ifac_size f) msk raw;
                 clean = [unmasked ! 0 AND 0x7F, unmasked ! 1] @ drop (2 + ifac_size f) unmasked
             in Some (if tag_of sign f clean \<noteq> ifac then Inl ErrIFAC else Inr clean))"

definition HasIFACFlag :: "bytes \<Rightarrow> bool" where
  "HasIFACFlag raw \<longleftrightarrow> raw \<noteq> [] \<and> raw ! 0 AND 0x80 \<noteq> 0"

section \<open>Flag bits\<close>

lemma byte_eqI:
  assumes "\<And>k. k \<in> {0, 1, 2, 3, 4, 5, 6, 7} \<Longrightarrow> bit v k = bit (w :: byte) k"
  shows "v = w"
proof (rule bit_word_eqI)
  fix k :: nat
  assume "k < LENGTH(8)"
  then have "k \<in> {0, 1, 2, 3, 4, 5, 6, 7}" by auto
  then show "bit v k = bit w k" by (rule assms)
qed

lemma PackFlags_UnpackFlags: "PackFlags (UnpackFlags flags h) = flags AND 0x7F"
  by (rule byte_eqI; elim insertE emptyE; simp add: PackFlags_def UnpackFlags_def bit_simps even_drop_bit_iff_not_bit)

definition flags_ok :: "RnsHeader \<Rightarrow> bool" where
  "flags_ok h \<longleftrightarrow> unat (HeaderType h) < 2 \<and> unat (ContextFlag h) < 2 \<and> unat (TransportType h) < 2 \<and>
     unat (DestType h) < 4 \<and> unat (PacketType h) < 4"

lemma UnpackFlags_PackFlags:
  assumes "flags_ok h"
  shows "UnpackFlags (PackFlags h) g = g\<lparr>HeaderType := HeaderType h, ContextFlag := ContextFlag h,
    TransportType := TransportType h, DestType := DestType h, PacketType := PacketType h\<rparr>"
proof -
  note b = assms [unfolded flags_ok_def]
  have bits: "0 < k \<Longrightarrow> \<not> bit (HeaderType h) k" "0 < k \<Longrightarrow> \<not> bit (ContextFlag h) k" "0 < k \<Longrightarrow> \<not> bit (TransportType h) k"
    "1 < k \<Longrightarrow> \<not> bit (DestType h) k" "1 < k \<Longrightarrow> \<not> bit (PacketType h) k" for k
    using b bit_small_word [of "HeaderType h" 1 k] bit_small_word [of "ContextFlag h" 1 k] bit_small_word [of "TransportType h" 1 k]
      bit_small_word [of "DestType h" 2 k] bit_small_word [of "PacketType h" 2 k] by auto
  have "drop_bit 6 (PackFlags h AND 0x40) = HeaderType h"
    by (rule byte_eqI; elim insertE emptyE; simp add: PackFlags_def bit_simps bits even_drop_bit_iff_not_bit)
  moreover have "drop_bit 5 (PackFlags h AND 0x20) = ContextFlag h"
    by (rule byte_eqI; elim insertE emptyE; simp add: PackFlags_def bit_simps bits even_drop_bit_iff_not_bit)
  moreover have "drop_bit 4 (PackFlags h AND 0x10) = TransportType h"
    by (rule byte_eqI; elim insertE emptyE; simp add: PackFlags_def bit_simps bits even_drop_bit_iff_not_bit)
  moreover have "drop_bit 2 (PackFlags h AND 0x0C) = DestType h"
    by (rule byte_eqI; elim insertE emptyE; simp add: PackFlags_def bit_simps bits even_drop_bit_iff_not_bit)
  moreover have "PackFlags h AND 0x03 = PacketType h"
    by (rule byte_eqI; elim insertE emptyE; simp add: PackFlags_def bit_simps bits even_drop_bit_iff_not_bit)
  ultimately show ?thesis by (simp add: UnpackFlags_def)
qed

lemma masked_fields:
  "drop_bit 6 (w AND 0x40) = take_bit 1 (drop_bit 6 (w :: byte))" "drop_bit 5 (w AND 0x20) = take_bit 1 (drop_bit 5 w)"
  "drop_bit 4 (w AND 0x10) = take_bit 1 (drop_bit 4 w)" "drop_bit 2 (w AND 0x0C) = take_bit 2 (drop_bit 2 w)"
  "w AND 0x03 = take_bit 2 w"
  by (rule byte_eqI; elim insertE emptyE; simp add: bit_simps even_drop_bit_iff_not_bit)+

lemma flags_ok_Unpack: "flags_ok (UnpackFlags flags h)"
proof -
  have t: "unat (take_bit n (w :: byte)) < 2 ^ n" for n w by (simp add: unat_take_bit_word)
  show ?thesis
    using t [of 1 "drop_bit 6 flags"] t [of 1 "drop_bit 5 flags"] t [of 1 "drop_bit 4 flags"]
      t [of 2 "drop_bit 2 flags"] t [of 2 flags]
    unfolding flags_ok_def UnpackFlags_def masked_fields by simp
qed

section \<open>Header codec\<close>

definition header_ok :: "RnsHeader \<Rightarrow> bool" where
  "header_ok h \<longleftrightarrow> flags_ok h \<and> unat (Hops h) < 128 \<and> length (TransportID h) = 16 \<and> length (DestHash h) = 16 \<and>
     Data h \<noteq> [] \<and> (HeaderType h \<noteq> HeaderType2 \<longrightarrow> TransportID h = replicate 16 0)"

lemma Unmarshal_Marshal:
  assumes "header_ok h"
  shows "UnmarshalHeader (MarshalHeader h) = Inr h"
proof -
  have ok: "flags_ok h" "unat (Hops h) < 128" "length (TransportID h) = 16" "length (DestHash h) = 16" "Data h \<noteq> []"
    "HeaderType h \<noteq> HeaderType2 \<longrightarrow> TransportID h = replicate 16 0"
    using assms by (auto simp: header_ok_def)
  have ne: "0 < length (Data h)" using ok(5) by simp
  define raw where "raw = MarshalHeader h"
  define pos :: nat where "pos = (if HeaderType h = HeaderType2 then 18 else 2)"
  have raw: "raw ! 0 = PackFlags h" "raw ! 1 = Hops h" "length raw = pos + 17 + length (Data h)"
    using ok by (simp_all add: raw_def MarshalHeader_def pos_def)
  have parts: "slice pos (pos + 16) raw = DestHash h" "raw ! (pos + 16) = Context h" "drop (pos + 17) raw = Data h"
    using ok(3,4) by (simp_all add: raw_def MarshalHeader_def pos_def slice_def nth_append numeral_eq_Suc)
  have tid: "HeaderType h = HeaderType2 \<Longrightarrow> slice 2 18 raw = TransportID h"
    using ok(3) by (simp add: raw_def MarshalHeader_def slice_def numeral_eq_Suc)
  define g where "g = (UnpackFlags (raw ! 0) zero_header)\<lparr>Hops := raw ! 1\<rparr>"
  have g: "g = zero_header\<lparr>HeaderType := HeaderType h, ContextFlag := ContextFlag h,
    TransportType := TransportType h, DestType := DestType h, PacketType := PacketType h, Hops := Hops h\<rparr>"
    unfolding g_def raw(1,2) by (simp add: UnpackFlags_PackFlags [OF ok(1)])
  have len: "\<not> length raw < HeaderMinSize" "\<not> (HeaderType h = HeaderType2 \<and> length raw < 35)" "pos + 17 < length raw"
    using raw(3) ne by (auto simp: pos_def HeaderMinSize_def)
  show ?thesis
  proof (cases "HeaderType h = HeaderType2")
    case True
    then show ?thesis
      using ok(2) len parts tid raw(3) ne unfolding raw_def [symmetric] UnmarshalHeader_def Let_def g_def [symmetric]
      by (simp add: g pos_def zero_header_def)
  next
    case False
    then show ?thesis
      using ok(2,6) len parts raw(3) ne unfolding raw_def [symmetric] UnmarshalHeader_def Let_def g_def [symmetric]
      by (simp add: g pos_def zero_header_def)
  qed
qed

lemma Marshal_Unmarshal:
  assumes "UnmarshalHeader raw = Inr h"
  shows "header_ok h \<and> MarshalHeader h = (raw ! 0 AND 0x7F) # drop 1 raw"
proof -
  define g where "g = (UnpackFlags (raw ! 0) zero_header)\<lparr>Hops := raw ! 1\<rparr>"
  define t2 where "t2 \<longleftrightarrow> HeaderType g = HeaderType2"
  define pos :: nat where "pos = (if t2 then 18 else 2)"
  have len: "19 \<le> length raw" "unat (raw ! 1) < 128" "t2 \<Longrightarrow> 35 \<le> length raw" "pos + 17 < length raw"
    and h: "h = (if t2 then g\<lparr>TransportID := slice 2 18 raw\<rparr> else g)
      \<lparr>DestHash := slice pos (pos + 16) raw, Context := raw ! (pos + 16), Data := drop (pos + 17) raw\<rparr>"
    using assms unfolding UnmarshalHeader_def
    by (auto simp: g_def [symmetric] t2_def pos_def HeaderMinSize_def Let_def split: if_splits) (simp_all add: g_def)
  have g: "flags_ok g" "Hops g = raw ! 1" "PackFlags g = raw ! 0 AND 0x7F" "TransportID g = replicate 16 0"
    using flags_ok_Unpack [of "raw ! 0" zero_header] PackFlags_UnpackFlags [of "raw ! 0" zero_header]
    by (simp_all add: g_def flags_ok_def PackFlags_def UnpackFlags_def zero_header_def)
  have pf: "PackFlags h = PackFlags g" "Hops h = raw ! 1" "HeaderType h = HeaderType g" "flags_ok h"
    using g by (simp_all add: h PackFlags_def flags_ok_def)
  have "raw = raw ! 0 # drop 1 raw" by (rule Cons_slice) (use len(1) in auto)
  have cut: "drop 1 raw = raw ! 1 # (if t2 then slice 2 18 raw else []) @ slice pos (pos + 16) raw @ raw ! (pos + 16) # drop (pos + 17) raw"
  proof -
    have "drop 1 raw = raw ! 1 # drop 2 raw" using len(1) by (simp add: Cons_nth_drop_Suc [symmetric] numeral_2_eq_2)
    moreover have "drop 2 raw = (if t2 then slice 2 18 raw else []) @ drop pos raw"
      using drop_eq_slice [of 2 18 raw] by (simp add: pos_def)
    moreover have "drop pos raw = slice pos (pos + 16) raw @ drop (pos + 16) raw" by (rule drop_eq_slice) simp
    moreover have "drop (pos + 16) raw = raw ! (pos + 16) # drop (pos + 17) raw"
      using len(4) Cons_nth_drop_Suc [of "pos + 16" raw] by (simp add: add.commute)
    ultimately show ?thesis by simp
  qed
  have "header_ok h"
    using pf(4) g len t2_def by (auto simp: header_ok_def h)
  moreover have "MarshalHeader h = (raw ! 0 AND 0x7F) # drop 1 raw"
    unfolding cut using pf g(3) t2_def by (auto simp: MarshalHeader_def h)
  ultimately show ?thesis by simp
qed

section \<open>Transport rewriting keeps the hash\<close>

lemma header2_iff: "header2 raw \<longleftrightarrow> bit (raw ! 0) 6"
proof -
  have "take_bit 1 (w :: byte) = 1 \<longleftrightarrow> bit w 0" for w
    by (simp add: bit_0 odd_iff_mod_2_eq_one)
  then show ?thesis unfolding header2_def masked_fields HeaderType2_def by (simp add: bit_drop_bit_eq)
qed

definition to_transport :: "byte \<Rightarrow> byte" where
  "to_transport w = ((w AND 0x0F) OR push_bit 6 HeaderType2 OR push_bit 4 TransportTransport OR (w AND 0x20))"

lemma transport_flags:
  "to_transport w AND 0x0F = w AND 0x0F" "((w AND 0x0F) OR (w AND 0x20)) AND 0x0F = w AND 0x0F"
  "(w OR 0x10) AND 0x0F = w AND 0x0F" "(w AND 0x0F) OR (to_transport w AND 0x20) = w AND 0x2F"
  by (rule byte_eqI; elim insertE emptyE; simp add: to_transport_def HeaderType2_def TransportTransport_def bit_simps even_and_iff even_or_iff)+

lemma transport_bits:
  "bit (to_transport w) 6" "\<not> bit ((w AND 0x0F) OR (w AND 0x20)) 6" "bit (w OR 0x10) 6 = bit w 6"
  by (simp_all add: to_transport_def HeaderType2_def TransportTransport_def bit_simps)

lemma HashablePart_Rewrite:
  assumes "19 \<le> length raw" "length tid = 16"
  shows "HashablePart (RewriteForTransport raw tid) = HashablePart raw"
proof (cases "header2 raw")
  case True
  have "go_copy (slice 2 18 raw) tid = tid"
    using assms by (simp add: go_copy_def)
  then have rw: "RewriteForTransport raw tid = [raw ! 0 OR 0x10, raw ! 1] @ tid @ drop 18 raw"
    using assms True by (simp add: RewriteForTransport_def HeaderMinSize_def)
  have "header2 (RewriteForTransport raw tid)" using True by (simp add: rw header2_iff transport_bits)
  then show ?thesis
    using assms True by (simp add: HashablePart_def rw transport_flags)
next
  case False
  then have rw: "RewriteForTransport raw tid = [to_transport (raw ! 0), raw ! 1] @ tid @ drop 2 raw"
    using assms by (simp add: RewriteForTransport_def HeaderMinSize_def to_transport_def)
  have "header2 (RewriteForTransport raw tid)" by (simp add: rw header2_iff transport_bits)
  then show ?thesis
    using assms False by (simp add: HashablePart_def rw transport_flags)
qed

lemma HashablePart_Strip:
  assumes "35 \<le> length raw"
  shows "HashablePart (StripTransport raw) = HashablePart raw"
proof (cases "header2 raw")
  case True
  then have st: "StripTransport raw = [(raw ! 0 AND 0x0F) OR (raw ! 0 AND 0x20), raw ! 1] @ drop 18 raw"
    using assms by (simp add: StripTransport_def)
  have "\<not> header2 (StripTransport raw)" by (simp add: st header2_iff transport_bits)
  then show ?thesis
    using assms True by (simp add: HashablePart_def st transport_flags)
qed (simp add: StripTransport_def)

lemma Strip_Rewrite:
  assumes "19 \<le> length raw" "length tid = 16" "\<not> header2 raw"
  shows "StripTransport (RewriteForTransport raw tid) = (raw ! 0 AND 0x2F) # drop 1 raw"
proof -
  have rw: "RewriteForTransport raw tid = [to_transport (raw ! 0), raw ! 1] @ tid @ drop 2 raw"
    using assms by (simp add: RewriteForTransport_def HeaderMinSize_def to_transport_def)
  have "header2 (RewriteForTransport raw tid)" by (simp add: rw header2_iff transport_bits)
  moreover have "drop 1 raw = raw ! 1 # drop 2 raw"
    using assms(1) by (simp add: Cons_nth_drop_Suc [symmetric] numeral_2_eq_2)
  ultimately show ?thesis
    using assms by (simp add: StripTransport_def rw transport_flags)
qed

section \<open>Access codes\<close>

definition hkdf_documented :: "hkdf \<Rightarrow> bool" where
  "hkdf_documented hkdf \<longleftrightarrow> (\<forall>ikm salt n. n \<le> 255 * 32 \<longrightarrow> length (hkdf ikm salt n) = n)"

definition signature_documented :: "(bytes \<Rightarrow> bytes \<Rightarrow> bytes) \<Rightarrow> bool" where
  "signature_documented sign \<longleftrightarrow> (\<forall>seed msg. length (sign seed msg) = 64)"

lemma length_mask_outside [simp]: "length (mask_outside sz msk raw) = length raw"
  by (simp add: mask_outside_def)

lemma nth_mask_outside:
  "i < length raw \<Longrightarrow> mask_outside sz msk raw ! i = (if 2 \<le> i \<and> i < 2 + sz then raw ! i else raw ! i XOR msk ! i)"
  by (simp add: mask_outside_def)

lemma mask_twice: "mask_outside sz msk (mask_outside sz msk raw) = raw"
  by (rule nth_equalityI) (simp_all add: nth_mask_outside xor.assoc)

lemma slice_mask_outside: "slice 2 (2 + sz) (mask_outside sz msk raw) = slice 2 (2 + sz) raw"
  by (cases "2 \<le> length raw") (auto simp: slice_def nth_mask_outside intro!: nth_equalityI)

lemma ifac_bit7:
  "((((x OR 0x80) XOR m) OR 0x80) XOR m) AND 0x7F = (x :: byte) AND 0x7F"
  "((((w XOR m) AND 0x7F) OR 0x80) XOR m) OR 0x80 = (w :: byte) OR 0x80"
  by (rule byte_eqI; elim insertE emptyE; simp add: bit_simps even_and_iff even_or_iff even_xor_iff; blast)+

lemma bit7_clear: "(x :: byte) AND 0x80 = 0 \<longleftrightarrow> x AND 0x7F = x"
proof -
  have "x AND 0x80 = 0 \<longleftrightarrow> \<not> bit x 7" using and_exp_eq_0_iff_not_bit [of x 7] by simp
  moreover have "x AND 0x7F = x" if "\<not> bit x 7"
    by (rule byte_eqI; elim insertE emptyE; simp add: bit_simps that even_and_iff)
  moreover have "\<not> bit x 7" if "x AND 0x7F = x"
    using arg_cong [OF that, of "\<lambda>w. bit w 7"] by (simp add: bit_simps)
  ultimately show ?thesis by blast
qed

lemma bit7_set: "(x :: byte) AND 0x80 \<noteq> 0 \<Longrightarrow> x OR 0x80 = x" "((x :: byte) OR 0x80) AND 0x80 \<noteq> 0"
proof -
  have iff: "w AND 0x80 = 0 \<longleftrightarrow> \<not> bit w 7" for w :: byte using and_exp_eq_0_iff_not_bit [of w 7] by simp
  show "x OR 0x80 = x" if "x AND 0x80 \<noteq> 0"
    by (rule byte_eqI; elim insertE emptyE; use that iff in \<open>simp add: bit_simps even_or_iff\<close>)
  show "(x OR 0x80) AND 0x80 \<noteq> 0" unfolding iff by (simp add: bit_simps)
qed

lemma list_cut: "2 + sz \<le> length xs \<Longrightarrow> xs = [xs ! 0, xs ! 1] @ slice 2 (2 + sz) xs @ drop (2 + sz) xs"
  by (simp add: slice_def) (metis Cons_nth_drop_Suc Suc_1 add_2_eq_Suc append_take_drop_id drop0 drop_drop
      less_Suc_eq_le less_le_trans not_less_eq One_nat_def Suc_leD le_add1 less_eq_Suc_le zero_less_Suc add.commute)

text \<open>What the access codes rely on: signatures of 64 bytes, key material of the requested length
  and a tag size that \<open>NewIFAC\<close> accepts.\<close>

definition ifac_ok :: "(bytes \<Rightarrow> bytes \<Rightarrow> bytes) \<Rightarrow> hkdf \<Rightarrow> IFAC \<Rightarrow> bool" where
  "ifac_ok sign hkdf f \<longleftrightarrow> signature_documented sign \<and> hkdf_documented hkdf \<and> 1 \<le> ifac_size f \<and> ifac_size f \<le> 64"

lemma length_tag: "ifac_ok sign hkdf f \<Longrightarrow> length (tag_of sign f raw) = ifac_size f"
  by (simp add: ifac_ok_def tag_of_def signature_documented_def Let_def)

lemma HKDF_length:
  "ifac_ok sign hkdf f \<Longrightarrow> n \<le> 8160 \<Longrightarrow> \<exists>msk. HKDF hkdf n ikm salt = Some msk \<and> length msk = n"
  by (simp add: ifac_ok_def hkdf_documented_def HKDF_def Let_def)

lemma Wrap_shape:
  assumes "ifac_ok sign hkdf f" "2 \<le> length raw" "HKDF hkdf (length raw + ifac_size f) (tag_of sign f raw) (ifac_key f) = Some msk"
  shows "\<exists>w. Wrap sign hkdf f raw = Some w \<and> length w = length raw + ifac_size f \<and>
    w ! 0 = ((raw ! 0 OR 0x80) XOR msk ! 0) OR 0x80 \<and> w ! 1 = raw ! 1 XOR msk ! 1 \<and>
    slice 2 (2 + ifac_size f) w = tag_of sign f raw \<and>
    (\<forall>i < length raw - 2. w ! (2 + ifac_size f + i) = raw ! (2 + i) XOR msk ! (2 + ifac_size f + i))"
proof -
  define sz tag where "sz = ifac_size f" and "tag = tag_of sign f raw"
  define inner where "inner = [raw ! 0 OR 0x80, raw ! 1] @ tag @ drop 2 raw"
  define m where "m = mask_outside sz msk inner"
  have tag: "length tag = sz" using length_tag [OF assms(1)] by (simp add: tag_def sz_def)
  have len: "length inner = length raw + sz" using assms(2) tag by (simp add: inner_def)
  have w: "Wrap sign hkdf f raw = Some (m[0 := m ! 0 OR 0x80])"
    using assms(2,3) by (simp add: Wrap_def m_def inner_def tag_def sz_def Let_def)
  have m: "m ! 0 = (raw ! 0 OR 0x80) XOR msk ! 0" "m ! 1 = raw ! 1 XOR msk ! 1" "length m = length raw + sz"
    unfolding m_def using nth_mask_outside [of 0 inner sz msk] nth_mask_outside [of 1 inner sz msk] len assms(2)
    by (auto simp: inner_def)
  have "slice 2 (2 + sz) (m[0 := m ! 0 OR 0x80]) = slice 2 (2 + sz) inner"
    using slice_mask_outside [of sz msk inner] by (simp add: slice_def drop_update_cancel m_def)
  also have "\<dots> = tag" using tag by (simp add: inner_def slice_def)
  finally have s: "slice 2 (2 + sz) (m[0 := m ! 0 OR 0x80]) = tag" .
  have "m[0 := m ! 0 OR 0x80] ! (2 + sz + i) = raw ! (2 + i) XOR msk ! (2 + sz + i)" if "i < length raw - 2" for i
    using that len tag by (simp add: m_def nth_mask_outside) (simp add: inner_def nth_append)
  moreover have "0 < length m" using m(3) assms(2) by linarith
  ultimately show ?thesis
    using w m s assms(2) by (auto simp: sz_def tag_def)
qed

lemma Unwrap_shape:
  assumes "2 + ifac_size f < length w" "w ! 0 AND 0x80 \<noteq> 0"
    "HKDF hkdf (length w) (slice 2 (2 + ifac_size f) w) (ifac_key f) = Some msk"
  shows "\<exists>clean. length clean = length w - ifac_size f \<and> clean ! 0 = (w ! 0 XOR msk ! 0) AND 0x7F \<and>
    clean ! 1 = w ! 1 XOR msk ! 1 \<and>
    (\<forall>i < length w - (2 + ifac_size f). clean ! (2 + i) = w ! (2 + ifac_size f + i) XOR msk ! (2 + ifac_size f + i)) \<and>
    Unwrap sign hkdf f w = Some (if tag_of sign f clean \<noteq> slice 2 (2 + ifac_size f) w then Inl ErrIFAC else Inr clean)"
proof -
  define sz where "sz = ifac_size f"
  define u where "u = mask_outside sz msk w"
  define clean where "clean = [u ! 0 AND 0x7F, u ! 1] @ drop (2 + sz) u"
  have len: "2 + sz < length w" using assms(1) by (simp add: sz_def)
  have u: "u ! 0 = w ! 0 XOR msk ! 0" "u ! 1 = w ! 1 XOR msk ! 1" "length u = length w"
    unfolding u_def using nth_mask_outside [of 0 w sz msk] nth_mask_outside [of 1 w sz msk] len
    by (cases "w = []"; auto)+
  have "clean ! (2 + i) = w ! (2 + sz + i) XOR msk ! (2 + sz + i)" if "i < length w - (2 + sz)" for i
    using that len u(3) by (simp add: clean_def u_def nth_mask_outside)
  moreover have "Unwrap sign hkdf f w = Some (if tag_of sign f clean \<noteq> slice 2 (2 + sz) w then Inl ErrIFAC else Inr clean)"
    using assms by (simp add: Unwrap_def clean_def u_def sz_def Let_def)
  ultimately show ?thesis
    using u len by (intro exI [of _ clean]) (auto simp: clean_def sz_def)
qed

lemma Unwrap_Wrap:
  assumes ok: "ifac_ok sign hkdf f" and len: "2 < length raw" "length raw + ifac_size f \<le> 8160" and b7: "raw ! 0 AND 0x80 = 0"
  shows "\<exists>w. Wrap sign hkdf f raw = Some w \<and> Unwrap sign hkdf f w = Some (Inr raw)"
proof -
  obtain msk where msk: "HKDF hkdf (length raw + ifac_size f) (tag_of sign f raw) (ifac_key f) = Some msk"
    using HKDF_length [OF ok len(2)] by blast
  obtain w where w: "Wrap sign hkdf f raw = Some w" "length w = length raw + ifac_size f"
    "w ! 0 = ((raw ! 0 OR 0x80) XOR msk ! 0) OR 0x80" "w ! 1 = raw ! 1 XOR msk ! 1"
    "slice 2 (2 + ifac_size f) w = tag_of sign f raw"
    "\<forall>i < length raw - 2. w ! (2 + ifac_size f + i) = raw ! (2 + i) XOR msk ! (2 + ifac_size f + i)"
    using Wrap_shape [OF ok _ msk] len(1) by auto
  obtain clean where c: "length clean = length w - ifac_size f" "clean ! 0 = (w ! 0 XOR msk ! 0) AND 0x7F"
    "clean ! 1 = w ! 1 XOR msk ! 1"
    "\<forall>i < length w - (2 + ifac_size f). clean ! (2 + i) = w ! (2 + ifac_size f + i) XOR msk ! (2 + ifac_size f + i)"
    "Unwrap sign hkdf f w = Some (if tag_of sign f clean \<noteq> slice 2 (2 + ifac_size f) w then Inl ErrIFAC else Inr clean)"
    using Unwrap_shape [of f w hkdf msk sign] w msk len(1) bit7_set(2) by auto
  have "clean = raw"
  proof (rule nth_equalityI)
    show "length clean = length raw" using c(1) w(2) by simp
    fix i
    assume i: "i < length clean"
    consider "i = 0" | "i = 1" | j where "i = 2 + j" by (metis One_nat_def add_2_eq_Suc not0_implies_Suc)
    then show "clean ! i = raw ! i"
    proof cases
      case 1
      then show ?thesis using c(2) w(3) ifac_bit7(1) b7 bit7_clear by metis
    next
      case 2
      then show ?thesis using c(3) w(4) by (simp add: xor.assoc)
    next
      case (3 j)
      then have "j < length raw - 2" using i c(1) w(2) by simp
      then show ?thesis using c(4) w(2,6) 3 by (simp add: xor.assoc)
    qed
  qed
  then show ?thesis using w(1,5) c(5) by simp
qed

lemma Wrap_Unwrap:
  assumes ok: "ifac_ok sign hkdf f" and u: "Unwrap sign hkdf f w = Some (Inr clean)"
  shows "Wrap sign hkdf f clean = Some w \<and> 2 < length clean \<and> clean ! 0 AND 0x80 = 0"
proof -
  have pre: "2 + ifac_size f < length w" "w ! 0 AND 0x80 \<noteq> 0"
    using u by (auto simp: Unwrap_def split: if_splits)
  obtain msk where msk: "HKDF hkdf (length w) (slice 2 (2 + ifac_size f) w) (ifac_key f) = Some msk"
    using u pre by (auto simp: Unwrap_def Let_def split: option.splits)
  obtain c where c: "length c = length w - ifac_size f" "c ! 0 = (w ! 0 XOR msk ! 0) AND 0x7F" "c ! 1 = w ! 1 XOR msk ! 1"
    "\<forall>i < length w - (2 + ifac_size f). c ! (2 + i) = w ! (2 + ifac_size f + i) XOR msk ! (2 + ifac_size f + i)"
    "Unwrap sign hkdf f w = Some (if tag_of sign f c \<noteq> slice 2 (2 + ifac_size f) w then Inl ErrIFAC else Inr c)"
    using Unwrap_shape [OF pre msk, of sign] by auto
  have eq: "clean = c" "tag_of sign f c = slice 2 (2 + ifac_size f) w" using u c(5) by (auto split: if_splits)
  have len: "2 < length c" "length c + ifac_size f = length w" using c(1) pre(1) by auto
  obtain v where v: "Wrap sign hkdf f c = Some v" "length v = length w" "v ! 0 = ((c ! 0 OR 0x80) XOR msk ! 0) OR 0x80"
    "v ! 1 = c ! 1 XOR msk ! 1" "slice 2 (2 + ifac_size f) v = slice 2 (2 + ifac_size f) w"
    "\<forall>i < length c - 2. v ! (2 + ifac_size f + i) = c ! (2 + i) XOR msk ! (2 + ifac_size f + i)"
    using Wrap_shape [OF ok, of c msk] len msk eq by auto
  have tail: "drop (2 + ifac_size f) v = drop (2 + ifac_size f) w"
    by (rule nth_equalityI) (use v(2,6) c(1,4) pre(1) in \<open>auto simp: xor.assoc\<close>)
  have "v ! 0 = w ! 0" using v(3) c(2) ifac_bit7(2) bit7_set(1) [OF pre(2)] by metis
  moreover have "v ! 1 = w ! 1" using v(4) c(3) by (simp add: xor.assoc)
  ultimately have "v = w"
    using list_cut [of "ifac_size f" v] list_cut [of "ifac_size f" w] v(2,5) tail pre(1) by (metis less_imp_le)
  moreover have "c ! 0 AND 0x80 = 0"
  proof -
    have "((w ! 0 XOR msk ! 0) AND 0x7F) AND 0x7F = (w ! 0 XOR msk ! 0) AND 0x7F" by (simp add: and.assoc)
    then show ?thesis unfolding c(2) bit7_clear .
  qed
  ultimately show ?thesis using v(1) eq(1) len(1) by simp
qed

section \<open>Properties\<close>

text \<open>C36: A well-formed Reticulum header with data is recovered from its wire form, and whatever
  parses is well formed and is the packet again, up to the access-code bit of the flags.
  Rewriting a packet for transport and stripping it on the last hop leave the hashed part
  unchanged, so a packet keeps its hash on its way, and stripping undoes rewriting up to the flag
  bits that transport uses; the hop count is not part of the hash.\<close>

theorem rns_packet_identity:
  "(header_ok h \<longrightarrow> UnmarshalHeader (MarshalHeader h) = Inr h) \<and>
   (UnmarshalHeader raw = Inr g \<longrightarrow> header_ok g \<and> MarshalHeader g = (raw ! 0 AND 0x7F) # drop 1 raw) \<and>
   (19 \<le> length raw \<and> length tid = 16 \<longrightarrow>
      PacketHash sha256 (RewriteForTransport raw tid) = PacketHash sha256 raw \<and>
      PacketHash sha256 (raw[1 := hops]) = PacketHash sha256 raw \<and>
      (\<not> header2 raw \<longrightarrow> StripTransport (RewriteForTransport raw tid) = (raw ! 0 AND 0x2F) # drop 1 raw)) \<and>
   (35 \<le> length raw \<longrightarrow> PacketHash sha256 (StripTransport raw) = PacketHash sha256 raw)"
proof -
  have "HashablePart (raw[1 := hops]) = HashablePart raw" if "19 \<le> length raw"
    using that by (simp add: HashablePart_def header2_def Let_def)
  then show ?thesis
    using Unmarshal_Marshal Marshal_Unmarshal HashablePart_Rewrite HashablePart_Strip Strip_Rewrite
    by (auto simp: PacketHash_def)
qed

definition demo_header :: RnsHeader where
  "demo_header = zero_header\<lparr>DestType := 2, PacketType := 1, Hops := 3, DestHash := replicate 16 7, Data := [1, 2]\<rparr>"

theorem rns_packet_identity_witness:
  "UnmarshalHeader (MarshalHeader demo_header) = Inr demo_header \<and>
   PacketHash rev (RewriteForTransport (MarshalHeader demo_header) (replicate 16 9)) = PacketHash rev (MarshalHeader demo_header)"
proof -
  have "header_ok demo_header" "19 \<le> length (MarshalHeader demo_header)"
    by (simp_all add: demo_header_def zero_header_def header_ok_def flags_ok_def MarshalHeader_def HeaderType2_def)
  then show ?thesis
    using rns_packet_identity [of demo_header "MarshalHeader demo_header" demo_header "replicate 16 9" rev] by simp
qed

text \<open>C37: With signatures of 64 bytes and key material of the requested length, wrapping and
  unwrapping with an interface access code are inverse: a packet of at least 3 bytes whose access
  bit is clear comes back, and whatever unwraps is exactly what wrapping the result gives, so
  nothing passes without the tag. Unwrapping panics on every flagged packet longer than 8160
  bytes.\<close>

theorem ifac_bijection:
  assumes "ifac_ok sign hkdf f"
  shows "(2 < length raw \<and> length raw + ifac_size f \<le> 8160 \<and> raw ! 0 AND 0x80 = 0 \<longrightarrow>
      (\<exists>w. Wrap sign hkdf f raw = Some w \<and> Unwrap sign hkdf f w = Some (Inr raw))) \<and>
    (Unwrap sign hkdf f w = Some (Inr raw) \<longrightarrow>
      Wrap sign hkdf f raw = Some w \<and> 2 < length raw \<and> raw ! 0 AND 0x80 = 0) \<and>
    (Unwrap sign hkdf f w = None \<longleftrightarrow> HasIFACFlag w \<and> 8160 < length w)"
proof -
  have "Unwrap sign hkdf f w = None \<longleftrightarrow> HasIFACFlag w \<and> 8160 < length w"
    using assms by (cases "w = []") (auto simp: Unwrap_def HKDF_def HasIFACFlag_def ifac_ok_def Let_def)
  then show ?thesis
    using Unwrap_Wrap [OF assms] Wrap_Unwrap [OF assms] by blast
qed

theorem ifac_bijection_witness:
  "\<exists>w. Wrap (\<lambda>k m. replicate 64 (m ! 0)) (\<lambda>i s n. replicate n 5) \<lparr>ifac_key = [1], ifac_size = 16, ifac_signer = [2]\<rparr> [3, 4, 5] = Some w \<and>
     Unwrap (\<lambda>k m. replicate 64 (m ! 0)) (\<lambda>i s n. replicate n 5) \<lparr>ifac_key = [1], ifac_size = 16, ifac_signer = [2]\<rparr> w = Some (Inr [3, 4, 5])"
proof -
  have "ifac_ok (\<lambda>k m. replicate 64 (m ! 0)) (\<lambda>i s n. replicate n 5) \<lparr>ifac_key = [1], ifac_size = 16, ifac_signer = [2]\<rparr>"
    by (simp add: ifac_ok_def signature_documented_def hkdf_documented_def)
  from ifac_bijection [OF this, of "[3, 4, 5]"] show ?thesis by simp
qed

end
