(* ===== verification/Ipougrs.thy ===== *)
theory Ipougrs
  imports Slots
begin

text \<open>
  IP packets over satellite messages (\<open>internal/ipougrs\<close>): the frame codec, fragmentation,
  the packet reassembler and the tunnel with its counters. DEFLATE is a parameter; the clock
  is an argument. The pending packet is a provider of \<open>slot_table\<close>, the tunnel one of
  \<open>keyed_store\<close>.
\<close>

definition ip_Magic :: byte where "ip_Magic = 0x49"
abbreviation (input) "ip_HeaderSize \<equiv> 4 :: nat"
abbreviation (input) "ip_MaxFragments \<equiv> 16 :: nat"
definition FlagCompressed :: byte where "FlagCompressed = 0x01"

record IpFrame =
  FragIndex :: byte
  FragTotal :: byte
  PacketID :: byte
  Flags :: byte
  Payload :: bytes

definition ip_Encode :: "IpFrame \<Rightarrow> bytes" where
  "ip_Encode f = [ip_Magic, push_bit 4 (FragIndex f AND 0x0F) OR ((FragTotal f - 1) AND 0x0F), PacketID f, Flags f] @ Payload f"

datatype ip_err = FrameTooShort nat | BadMagic byte | BadFragIndex byte nat | MtuTooSmall | PacketTooLarge nat
  | CompressFailed | DecompressFailed

definition DecodeFrame :: "bytes \<Rightarrow> ip_err + IpFrame" where
  "DecodeFrame data =
     (if length data < ip_HeaderSize then Inl (FrameTooShort (length data))
      else if data ! 0 \<noteq> ip_Magic then Inl (BadMagic (data ! 0))
      else let f = \<lparr>FragIndex = drop_bit 4 (data ! 1) AND 0x0F, FragTotal = (data ! 1 AND 0x0F) + 1,
                    PacketID = data ! 2, Flags = data ! 3, Payload = drop ip_HeaderSize data\<rparr>
           in if FragIndex f \<ge> FragTotal f then Inl (BadFragIndex (FragIndex f) (unat (FragTotal f))) else Inr f)"

definition IsIPoUGRS :: "bytes \<Rightarrow> bool" where
  "IsIPoUGRS data \<longleftrightarrow> ip_HeaderSize \<le> length data \<and> data ! 0 = ip_Magic"

text \<open>DEFLATE: compressing a byte string, and reading the first \<open>n\<close> bytes of what a stream
  decompresses to.\<close>

record flate =
  fl_compress :: "bytes \<Rightarrow> bytes option"
  fl_read :: "bytes \<Rightarrow> nat \<Rightarrow> bytes option"

definition flate_documented :: "flate \<Rightarrow> bool" where
  "flate_documented Z \<longleftrightarrow> (\<forall>d c n. fl_compress Z d = Some c \<longrightarrow> fl_read Z c n = Some (take n d))"

definition deflateDecompress :: "flate \<Rightarrow> bytes \<Rightarrow> bytes option" where
  "deflateDecompress Z data = fl_read Z data 65536"

definition ip_frame_at :: "nat \<Rightarrow> nat \<Rightarrow> byte \<Rightarrow> byte \<Rightarrow> bytes \<Rightarrow> nat \<Rightarrow> IpFrame" where
  "ip_frame_at fragPayload nFrags packetID flags payload i =
     \<lparr>FragIndex = of_nat i AND 0xFF, FragTotal = of_nat nFrags AND 0xFF, PacketID = packetID, Flags = flags,
      Payload = piece fragPayload i payload\<rparr>"

text \<open>The payload that is cut and its flags: the compressed packet when that is shorter.\<close>

definition ip_payload :: "flate \<Rightarrow> bool \<Rightarrow> bytes \<Rightarrow> (bytes \<times> byte) option" where
  "ip_payload Z compress packet =
     (if compress then
        (case fl_compress Z packet of
           None \<Rightarrow> None
         | Some c \<Rightarrow> Some (if length c < length packet then (c, FlagCompressed) else (packet, 0)))
      else Some (packet, 0))"

definition FragmentPacket :: "flate \<Rightarrow> bytes \<Rightarrow> int \<Rightarrow> byte \<Rightarrow> bool \<Rightarrow> ip_err + IpFrame list" where
  "FragmentPacket Z packet sbdMTU packetID compress =
     (if packet = [] then Inr []
      else case ip_payload Z compress packet of
        None \<Rightarrow> Inl CompressFailed
      | Some (payload, flags) \<Rightarrow>
          let fragPayload = sbdMTU - int ip_HeaderSize
          in if fragPayload \<le> 0 then Inl MtuTooSmall
             else if int (length payload) \<le> fragPayload then
               Inr [\<lparr>FragIndex = 0, FragTotal = 1, PacketID = packetID, Flags = flags, Payload = payload\<rparr>]
             else let nFrags = div_up (length payload) (nat fragPayload)
                  in if nFrags > ip_MaxFragments then Inl (PacketTooLarge nFrags)
                     else Inr (map (ip_frame_at (nat fragPayload) nFrags packetID flags payload) [0..<nFrags]))"

section \<open>Reassembly\<close>

record pendingPacket =
  pp_fragments :: "IpFrame option list"
  pp_total :: nat
  pp_received :: nat
  pp_flags :: byte
  pp_createdAt :: instant

record PacketReassembler =
  pr_pending :: "(string, pendingPacket) fmap"
  pr_maxAge :: int

definition NewPacketReassembler :: "int \<Rightarrow> PacketReassembler" where
  "NewPacketReassembler maxAge = \<lparr>pr_pending = fmempty, pr_maxAge = maxAge\<rparr>"

definition pp_key :: "string \<Rightarrow> byte \<Rightarrow> string" where
  "pp_key deviceID packetID = deviceID @ '':'' @ dec_digits (unat packetID)"

definition new_packet :: "IpFrame \<Rightarrow> instant \<Rightarrow> pendingPacket" where
  "new_packet frame now = \<lparr>pp_fragments = replicate (unat (FragTotal frame)) None, pp_total = unat (FragTotal frame),
     pp_received = 0, pp_flags = Flags frame, pp_createdAt = now\<rparr>"

definition pp_store :: "nat \<Rightarrow> IpFrame \<Rightarrow> pendingPacket \<Rightarrow> pendingPacket" where
  "pp_store i frame pp = pp\<lparr>pp_received := (if pp_fragments pp ! i = None then pp_received pp + 1 else pp_received pp),
     pp_fragments := (pp_fragments pp)[i := Some frame]\<rparr>"

definition pp_join :: "pendingPacket \<Rightarrow> bytes" where
  "pp_join pp = concat (map (\<lambda>f. case f of None \<Rightarrow> [] | Some fr \<Rightarrow> Payload fr) (pp_fragments pp))"

definition pp_finish :: "flate \<Rightarrow> pendingPacket \<Rightarrow> ip_err + bytes option" where
  "pp_finish Z pp =
     (if pp_flags pp AND FlagCompressed \<noteq> 0
      then (case deflateDecompress Z (pp_join pp) of None \<Rightarrow> Inl DecompressFailed | Some d \<Rightarrow> Inr (Some d))
      else Inr (Some (pp_join pp)))"

definition AddFrame :: "flate \<Rightarrow> instant \<Rightarrow> string \<Rightarrow> IpFrame \<Rightarrow> PacketReassembler
    \<Rightarrow> (ip_err + bytes option) \<times> PacketReassembler" where
  "AddFrame Z now deviceID frame r =
     (let key = pp_key deviceID (PacketID frame);
          pp = (case fmlookup (pr_pending r) key of Some pp \<Rightarrow> pp | None \<Rightarrow> new_packet frame now);
          r = r\<lparr>pr_pending := fmupd key pp (pr_pending r)\<rparr>
      in if unat (FragIndex frame) \<ge> pp_total pp then (Inl (BadFragIndex (FragIndex frame) (pp_total pp)), r)
         else let pp = pp_store (unat (FragIndex frame)) frame pp
              in if pp_received pp < pp_total pp then (Inr None, r\<lparr>pr_pending := fmupd key pp (pr_pending r)\<rparr>)
                 else (pp_finish Z pp, r\<lparr>pr_pending := fmdrop key (pr_pending r)\<rparr>))"

definition ip_Expire :: "instant \<Rightarrow> PacketReassembler \<Rightarrow> nat \<times> PacketReassembler" where
  "ip_Expire now r =
     (let old = (\<lambda>pp. pp_createdAt pp < now - pr_maxAge r)
      in (fmcount_vals old (pr_pending r), r\<lparr>pr_pending := fmdrop_vals old (pr_pending r)\<rparr>))"

definition ip_PendingCount :: "PacketReassembler \<Rightarrow> nat" where
  "ip_PendingCount r = fmsize (pr_pending r)"

section \<open>Tunnel\<close>

record Stats =
  PacketsTx :: "64 word"
  PacketsRx :: "64 word"
  BytesTx :: "64 word"
  BytesRx :: "64 word"
  FragmentsTx :: "64 word"
  FragmentsRx :: "64 word"
  ReassemblyOK :: "64 word"
  ReassemblyErr :: "64 word"

record Tunnel =
  tn_compress :: bool
  tn_reassembler :: PacketReassembler
  tn_packetSeq :: "32 word"
  tn_stats :: Stats

definition NewTunnel :: "bool \<Rightarrow> int \<Rightarrow> Tunnel" where
  "NewTunnel compress fragTimeout =
     \<lparr>tn_compress = compress, tn_reassembler = NewPacketReassembler fragTimeout, tn_packetSeq = 0,
      tn_stats = \<lparr>PacketsTx = 0, PacketsRx = 0, BytesTx = 0, BytesRx = 0, FragmentsTx = 0, FragmentsRx = 0,
                  ReassemblyOK = 0, ReassemblyErr = 0\<rparr>\<rparr>"

definition NextPacketID :: "Tunnel \<Rightarrow> byte \<times> Tunnel" where
  "NextPacketID t = (let n = tn_packetSeq t + 1 in (ucast (n AND 0xFF), t\<lparr>tn_packetSeq := n\<rparr>))"

definition FragmentForSend :: "flate \<Rightarrow> bytes \<Rightarrow> int \<Rightarrow> Tunnel \<Rightarrow> (ip_err + bytes list) \<times> Tunnel" where
  "FragmentForSend Z packet sbdMTU t =
     (let (pid, t) = NextPacketID t
      in case FragmentPacket Z packet sbdMTU pid (tn_compress t) of
           Inl e \<Rightarrow> (Inl e, t)
         | Inr frames \<Rightarrow>
             (Inr (map ip_Encode frames),
              t\<lparr>tn_stats := (tn_stats t)\<lparr>PacketsTx := PacketsTx (tn_stats t) + 1,
                  BytesTx := BytesTx (tn_stats t) + of_nat (length packet),
                  FragmentsTx := FragmentsTx (tn_stats t) + of_nat (length frames)\<rparr>\<rparr>))"

definition ReassembleFrame :: "flate \<Rightarrow> instant \<Rightarrow> string \<Rightarrow> bytes \<Rightarrow> Tunnel \<Rightarrow> (ip_err + bytes option) \<times> Tunnel" where
  "ReassembleFrame Z now deviceID data t =
     (case DecodeFrame data of
        Inl e \<Rightarrow> (Inl e, t)
      | Inr frame \<Rightarrow>
          let t = t\<lparr>tn_stats := (tn_stats t)\<lparr>FragmentsRx := FragmentsRx (tn_stats t) + 1\<rparr>\<rparr>;
              (out, r) = AddFrame Z now deviceID frame (tn_reassembler t);
              t = t\<lparr>tn_reassembler := r\<rparr>
          in (out, t\<lparr>tn_stats := (case out of
                Inl e \<Rightarrow> (tn_stats t)\<lparr>ReassemblyErr := ReassemblyErr (tn_stats t) + 1\<rparr>
              | Inr None \<Rightarrow> tn_stats t
              | Inr (Some packet) \<Rightarrow> (tn_stats t)\<lparr>PacketsRx := PacketsRx (tn_stats t) + 1,
                  BytesRx := BytesRx (tn_stats t) + of_nat (length packet),
                  ReassemblyOK := ReassemblyOK (tn_stats t) + 1\<rparr>)\<rparr>))"

section \<open>The codec\<close>

lemma nibbles_roundtrip:
  assumes "i < n" "n \<le> 16"
  shows "drop_bit 4 (push_bit 4 ((of_nat i :: byte) AND 0x0F) OR ((of_nat n - 1) AND 0x0F)) AND 0x0F = (of_nat i :: byte)"
    "((push_bit 4 ((of_nat i :: byte) AND 0x0F) OR ((of_nat n - 1) AND 0x0F)) AND 0x0F) + 1 = (of_nat n :: byte)"
proof -
  have "i \<in> set [0..<16]" "n \<in> set [1..<17]" using assms by auto
  moreover have "\<forall>i \<in> set [0..<16]. \<forall>n \<in> set [1..<17].
      drop_bit 4 (push_bit 4 ((of_nat i :: byte) AND 0x0F) OR ((of_nat n - 1) AND 0x0F)) AND 0x0F = (of_nat i :: byte) \<and>
      ((push_bit 4 ((of_nat i :: byte) AND 0x0F) OR ((of_nat n - 1) AND 0x0F)) AND 0x0F) + 1 = (of_nat n :: byte)"
    by code_simp
  ultimately show "drop_bit 4 (push_bit 4 ((of_nat i :: byte) AND 0x0F) OR ((of_nat n - 1) AND 0x0F)) AND 0x0F = (of_nat i :: byte)"
    "((push_bit 4 ((of_nat i :: byte) AND 0x0F) OR ((of_nat n - 1) AND 0x0F)) AND 0x0F) + 1 = (of_nat n :: byte)"
    by blast+
qed

lemma DecodeFrame_Encode:
  assumes "FragIndex f = of_nat i" "FragTotal f = of_nat n" "i < n" "n \<le> 16"
  shows "DecodeFrame (ip_Encode f) = Inr f"
proof -
  define b where "b = push_bit 4 ((of_nat i :: byte) AND 0x0F) OR ((of_nat n - 1) AND 0x0F)"
  have b: "drop_bit 4 b AND 0x0F = of_nat i" "(b AND 0x0F) + 1 = of_nat n"
    using nibbles_roundtrip [OF assms(3,4)] by (simp_all only: b_def)
  have enc: "ip_Encode f = [ip_Magic, b, PacketID f, Flags f] @ Payload f"
    by (simp only: ip_Encode_def assms b_def)
  have "\<not> (of_nat n :: byte) \<le> of_nat i" using assms(3,4) by (simp add: word_le_nat_alt unat_of_nat)
  then show ?thesis unfolding enc using b assms(1,2) by (simp add: DecodeFrame_def Let_def)
qed

lemma byte_and_255 [simp]: "(b :: byte) AND 0xFF = b"
proof -
  have "(0xFF :: byte) = - 1" by simp
  then show ?thesis by (simp only: and.right_neutral)
qed

lemma ip_frame_at_simps [simp]:
  "FragIndex (ip_frame_at p n m fl d i) = of_nat i" "FragTotal (ip_frame_at p n m fl d i) = of_nat n"
  "PacketID (ip_frame_at p n m fl d i) = m" "Flags (ip_frame_at p n m fl d i) = fl"
  "Payload (ip_frame_at p n m fl d i) = piece p i d"
  by (simp_all add: ip_frame_at_def)

lemmas DecodeFrame_frame_at =
  DecodeFrame_Encode [OF ip_frame_at_simps(1,2)]

lemma FragmentPacket_pieces:
  assumes "FragmentPacket Z packet mtu m compress = Inr fs" "packet \<noteq> []"
  obtains payload flags p n where "ip_payload Z compress packet = Some (payload, flags)"
    "fs = map (ip_frame_at p n m flags payload) [0..<n]" "0 < n" "n \<le> 16" "take (n * p) payload = payload"
proof -
  obtain payload flags where pl: "ip_payload Z compress packet = Some (payload, flags)"
    using assms by (auto simp: FragmentPacket_def split: option.splits)
  define p where "p = nat (mtu - 4)"
  have p: "0 < p" using assms pl by (auto simp: FragmentPacket_def p_def Let_def split: if_splits)
  show thesis
  proof (cases "int (length payload) \<le> mtu - 4")
    case True
    then have "length payload \<le> p" by (simp add: p_def)
    then have "piece p 0 payload = payload" by (simp add: piece_def slice_def)
    then have "fs = map (ip_frame_at p 1 m flags payload) [0..<1]"
      using assms pl p True by (auto simp: FragmentPacket_def Let_def ip_frame_at_def p_def)
    then show thesis using that [OF pl, of p 1] \<open>length payload \<le> p\<close> by simp
  next
    case False
    define n where "n = div_up (length payload) p"
    have "fs = map (ip_frame_at p n m flags payload) [0..<n]" "n \<le> 16"
      using assms pl p False by (auto simp: FragmentPacket_def Let_def p_def n_def split: if_splits)
    moreover have "0 < n" using False p by (auto simp: n_def p_def intro!: div_up_pos)
    ultimately show thesis using that [OF pl] div_up_covers [OF p, of "length payload"] by (simp add: n_def)
  qed
qed

section \<open>One pending packet as a slot table\<close>

definition pp_slot :: "pendingPacket \<Rightarrow> nat \<Rightarrow> IpFrame option" where
  "pp_slot pp i = (if i < length (pp_fragments pp) then pp_fragments pp ! i else None)"

definition pp_inv :: "pendingPacket \<Rightarrow> bool" where
  "pp_inv pp \<longleftrightarrow> length (pp_fragments pp) = pp_total pp \<and>
     pp_received pp = card {i. i < pp_total pp \<and> pp_slot pp i \<noteq> None}"

lemma pp_store_simps [simp]:
  "pp_total (pp_store i p pp) = pp_total pp" "pp_flags (pp_store i p pp) = pp_flags pp"
  "pp_fragments (pp_store i p pp) = (pp_fragments pp)[i := Some p]"
  by (simp_all add: pp_store_def)

lemma pp_slot_store:
  "pp_inv pp \<Longrightarrow> i < pp_total pp \<Longrightarrow> pp_slot (pp_store i p pp) = (pp_slot pp)(i \<mapsto> p)"
  by (auto simp: pp_slot_def pp_inv_def fun_eq_iff nth_list_update)

lemma pp_inv_store:
  assumes "pp_inv pp" "i < pp_total pp"
  shows "pp_inv (pp_store i p pp)"
proof -
  let ?U = "{j. j < pp_total pp \<and> pp_slot pp j \<noteq> None}"
  have len: "length (pp_fragments pp) = pp_total pp" and card: "pp_received pp = card ?U"
    using assms(1) by (auto simp: pp_inv_def)
  have "{j. j < pp_total pp \<and> pp_slot (pp_store i p pp) j \<noteq> None} = insert i ?U"
    using assms(2) by (auto simp: pp_slot_store [OF assms] split: if_splits)
  moreover have "card (insert i ?U) = (if i \<in> ?U then card ?U else Suc (card ?U))"
    by (simp add: card_insert_if)
  moreover have "i \<in> ?U \<longleftrightarrow> pp_fragments pp ! i \<noteq> None"
    unfolding pp_slot_def using assms(2) len by fastforce
  ultimately show ?thesis
    using len card by (simp add: pp_inv_def) (simp add: pp_store_def)
qed

interpretation pp: slot_table pp_total pp_slot pp_store pp_received pp_inv
  by unfold_locales (simp_all add: pp_slot_store pp_inv_store, simp add: pp_inv_def)

lemma new_packet_slots [simp]:
  "pp_inv (new_packet f now)" "pp_total (new_packet f now) = unat (FragTotal f)"
  "pp_slot (new_packet f now) i = None" "pp_flags (new_packet f now) = Flags f"
  by (simp_all add: pp_inv_def new_packet_def pp_slot_def)

section \<open>The tunnel, one packet at a time\<close>

type_synonym ip_arrival = "instant \<times> string \<times> bytes"

definition ip_feed :: "flate \<Rightarrow> ip_arrival \<Rightarrow> pendingPacket option
    \<Rightarrow> (ip_err + bytes option) \<times> pendingPacket option" where
  "ip_feed Z e cur =
     (case DecodeFrame (snd (snd e)) of
        Inl err \<Rightarrow> (Inl err, cur)
      | Inr frame \<Rightarrow>
          let pp = (case cur of Some pp \<Rightarrow> pp | None \<Rightarrow> new_packet frame (fst e))
          in if unat (FragIndex frame) \<ge> pp_total pp then (Inl (BadFragIndex (FragIndex frame) (pp_total pp)), Some pp)
             else let pp = pp_store (unat (FragIndex frame)) frame pp
                  in if pp_received pp < pp_total pp then (Inr None, Some pp) else (pp_finish Z pp, None))"

definition ip_arrive :: "flate \<Rightarrow> ip_arrival \<Rightarrow> Tunnel \<Rightarrow> (ip_err + bytes option) \<times> Tunnel" where
  "ip_arrive Z e t = ReassembleFrame Z (fst e) (fst (snd e)) (snd (snd e)) t"

definition ip_arrival_key :: "ip_arrival \<Rightarrow> string option" where
  "ip_arrival_key e = (case DecodeFrame (snd (snd e)) of Inl _ \<Rightarrow> None
     | Inr frame \<Rightarrow> Some (pp_key (fst (snd e)) (PacketID frame)))"

abbreviation "ip_pending t k \<equiv> fmlookup (pr_pending (tn_reassembler t)) k"

lemma ip_arrive_own:
  assumes "ip_arrival_key e = Some k" "ip_arrive Z e t = (out, t')"
  shows "ip_feed Z e (ip_pending t k) = (out, ip_pending t' k)"
  using assms
  by (auto simp: ip_arrival_key_def ip_arrive_def ReassembleFrame_def AddFrame_def ip_feed_def Let_def
      split: option.splits if_splits sum.splits)

lemma ip_arrive_other:
  assumes "ip_arrival_key e \<noteq> Some k" "ip_arrive Z e t = (out, t')"
  shows "ip_pending t' k = ip_pending t k"
  using assms
  by (auto simp: ip_arrival_key_def ip_arrive_def ReassembleFrame_def AddFrame_def Let_def
      split: option.splits if_splits sum.splits)

interpretation ip: keyed_store "ip_arrive Z" ip_arrival_key ip_pending "ip_feed Z" "\<lambda>t. True" for Z
  by unfold_locales (simp_all add: ip_arrive_own ip_arrive_other)

section \<open>Frames of one packet\<close>

definition ip_index :: "ip_arrival \<Rightarrow> nat" where
  "ip_index e = (case DecodeFrame (snd (snd e)) of Inl _ \<Rightarrow> 0 | Inr f \<Rightarrow> unat (FragIndex f))"

lemma pp_finish_full:
  assumes "pp_inv pp" "pp_total pp = n" "\<And>i. i < n \<Longrightarrow> pp_slot pp i = Some (ip_frame_at p n m fl d i)"
    and "take (n * p) d = d" "pp_flags pp = fl"
  shows "pp_finish Z pp =
    (if fl AND FlagCompressed \<noteq> 0
     then (case deflateDecompress Z d of None \<Rightarrow> Inl DecompressFailed | Some d \<Rightarrow> Inr (Some d))
     else Inr (Some d))"
proof -
  have "pp_fragments pp = map (\<lambda>i. Some (ip_frame_at p n m fl d i)) [0..<n]"
    using assms(1-3) by (intro nth_equalityI) (auto simp: pp_inv_def pp_slot_def)
  then have "pp_join pp = d" using assms(4) by (simp add: pp_join_def o_def concat_pieces)
  with assms(5) show ?thesis by (simp add: pp_finish_def)
qed

lemma ip_feed_frame:
  assumes "i < n" "n \<le> 16" "snd (snd e) = ip_Encode (ip_frame_at p n m fl d i)"
    and "pred_option (\<lambda>pp. pp_total pp = n) cur"
  shows "ip_feed Z e cur =
    (let pp = pp_store i (ip_frame_at p n m fl d i)
           (case cur of Some pp \<Rightarrow> pp | None \<Rightarrow> new_packet (ip_frame_at p n m fl d i) (fst e))
     in if pp_received pp < pp_total pp then (Inr None, Some pp) else (pp_finish Z pp, None))"
  using assms DecodeFrame_frame_at [OF assms(1,2), of p m fl d]
  by (cases cur) (simp_all add: ip_feed_def Let_def unat_of_nat)

lemma ip_feed_frames:
  assumes n: "n \<le> 16" "0 < n"
    and perm: "mset (map (snd \<circ> snd) es) = mset (map (ip_Encode \<circ> ip_frame_at p n m fl d) [0..<n])"
    and all: "take (n * p) d = d"
  shows "run (ip_feed Z) es None =
    (replicate (n - 1) (Inr None) @
      [if fl AND FlagCompressed \<noteq> 0
       then (case deflateDecompress Z d of None \<Rightarrow> Inl DecompressFailed | Some d \<Rightarrow> Inr (Some d))
       else Inr (Some d)], None)" (is "_ = (_ @ [?res], None)")
proof -
  have rd: "\<forall>e. \<forall>i < n. (snd \<circ> snd) e = (ip_Encode \<circ> ip_frame_at p n m fl d) i \<longrightarrow> ip_index e = i"
    using n DecodeFrame_frame_at [of _ n p m fl d] by (simp add: ip_index_def unat_of_nat)
  note ix = perm_indices [where g = "snd \<circ> snd" and idx = ip_index, OF perm rd]
  have "run (ip_feed Z) es None = (replicate (length es - 1) (Inr None) @ [?res], None) \<and>
    kept (ip_feed Z) (tl es) (snd (ip_feed Z (hd es) None))"
  proof (rule pp.feed_perm_from [where J = "{}" and n = n and idx = ip_index and f = "ip_frame_at p n m fl d"
        and new = "\<lambda>e. new_packet (ip_frame_at p n m fl d (ip_index e)) (fst e)"
        and good = "\<lambda>pp. pp_flags pp = fl" and fin = "pp_finish Z"])
    show "ip_feed Z e cur =
        (let s = pp_store (ip_index e) (ip_frame_at p n m fl d (ip_index e))
               (case cur of Some s \<Rightarrow> s | None \<Rightarrow> new_packet (ip_frame_at p n m fl d (ip_index e)) (fst e))
         in if pp_received s < pp_total s then (Inr None, Some s) else (pp_finish Z s, None))"
      if "e \<in> set es" and "pred_option (\<lambda>s. pp_inv s \<and> pp_flags s = fl \<and> pp_total s = n) cur" for e cur
      using ix(4) [OF that(1)] that(2) n(1)
      by (intro ip_feed_frame) (auto elim: option.pred_mono_strong)
    show "{} \<union> ip_index ` set es = {..<n}" using ix(3) by simp
    show "distinct (map ip_index es)" by (rule ix(2))
    show "es \<noteq> []" using ix(1) n(2) by auto
  qed (use n pp_finish_full all in \<open>auto simp: unat_of_nat\<close>)
  then show ?thesis by (simp add: ix(1))
qed

lemma ip_payload_read:
  assumes "flate_documented Z" "length packet \<le> 65536" "ip_payload Z compress packet = Some (d, fl)"
  shows "(if fl AND FlagCompressed \<noteq> 0
       then (case deflateDecompress Z d of None \<Rightarrow> Inl DecompressFailed | Some d \<Rightarrow> Inr (Some d))
       else Inr (Some d)) = Inr (Some packet)"
  using assms
  by (auto simp: ip_payload_def flate_documented_def deflateDecompress_def FlagCompressed_def
      split: if_splits option.splits)

section \<open>Properties\<close>

text \<open>C38: Let a tunnel cut a non-empty packet of at most 64 KiB into frames with
  \<open>FragmentForSend\<close> (compressing it when that makes it shorter), and let another tunnel,
  which has no entry for that device and packet id, receive those frames in any order, at
  any times, mixed with any other traffic. Its \<open>ReassembleFrame\<close> answers "not yet" to all
  but the last of them, answers the last with exactly the packet, and leaves no entry
  behind. Hypothesis on DEFLATE: reading a compressed string gives back its first bytes.\<close>

theorem ipougrs_any_order:
  assumes "flate_documented Z" "packet \<noteq> []" "length packet \<le> 65536"
    and "FragmentForSend Z packet mtu t0 = (Inr frames, t1)"
    and "k = pp_key d (fst (NextPacketID t0))" "ip_pending t k = None"
    and "mset (map (snd \<circ> snd) (filter (\<lambda>e. ip_arrival_key e = Some k) es)) = mset frames"
  shows "answers (\<lambda>e. ip_arrival_key e = Some k) es (fst (run (ip_arrive Z) es t)) =
           replicate (length frames - 1) (Inr None) @ [Inr (Some packet)] \<and>
         ip_pending (snd (run (ip_arrive Z) es t)) k = None"
proof -
  obtain m t' where m: "NextPacketID t0 = (m, t')" by fastforce
  obtain fs where fs: "FragmentPacket Z packet mtu m (tn_compress t') = Inr fs" "frames = map ip_Encode fs"
    using assms(4) m by (auto simp: FragmentForSend_def split: sum.splits)
  from fs(1) assms(2) obtain pl fl p n where pl: "ip_payload Z (tn_compress t') packet = Some (pl, fl)"
    and fs': "fs = map (ip_frame_at p n m fl pl) [0..<n]" and n: "0 < n" "n \<le> 16" and all: "take (n * p) pl = pl"
    by (rule FragmentPacket_pieces)
  have "mset (map (snd \<circ> snd) (filter (\<lambda>e. ip_arrival_key e = Some k) es)) =
      mset (map (ip_Encode \<circ> ip_frame_at p n m fl pl) [0..<n])"
    using assms(7) by (simp add: fs(2) fs')
  from ip_feed_frames [OF n(2,1) this all, of Z] ip_payload_read [OF assms(1,3) pl]
    ip.run_local [where es = es and s = t and k = k and Z = Z]
  show ?thesis by (simp add: assms(6) fs(2) fs')
qed

text \<open>A code with the documented law that does shorten some packets.\<close>

definition toy_flate :: flate where
  "toy_flate = \<lparr>fl_compress = (\<lambda>d. Some (if take 4 d = [0, 0, 0, 0] then 0 # drop 4 d else 1 # d)),
     fl_read = (\<lambda>c n. if c = [] then None else Some (take n (if hd c = 0 then [0, 0, 0, 0] @ tl c else tl c)))\<rparr>"

lemma toy_flate_documented: "flate_documented toy_flate"
proof -
  have "[0, 0, 0, 0] @ drop 4 d = d" if "take 4 d = [0, 0, 0, 0]" for d :: bytes
    using append_take_drop_id [of 4 d] that by simp
  then show ?thesis by (auto simp: flate_documented_def toy_flate_def)
qed

theorem ipougrs_any_order_witness:
  "let t0 = NewTunnel True 120;
       es = [(5, ''d'', [0x49, 0x11, 1, 1, 9]), (6, ''e'', [0x49, 0, 1, 0, 3]), (7, ''d'', [0x49, 0x01, 1, 1, 0, 7, 8])]
   in FragmentForSend toy_flate [0, 0, 0, 0, 7, 8, 9] 7 t0 = (Inr [[0x49, 0x01, 1, 1, 0, 7, 8], [0x49, 0x11, 1, 1, 9]],
        snd (FragmentForSend toy_flate [0, 0, 0, 0, 7, 8, 9] 7 t0)) \<and>
      answers (\<lambda>e. ip_arrival_key e = Some ''d:1'') es (fst (run (ip_arrive toy_flate) es t0)) =
        [Inr None, Inr (Some [0, 0, 0, 0, 7, 8, 9])]"
proof -
  let ?t = "NewTunnel True 120" and ?p = "[0, 0, 0, 0, 7, 8, 9] :: bytes"
  let ?fs = "[[0x49, 0x01, 1, 1, 0, 7, 8], [0x49, 0x11, 1, 1, 9]] :: bytes list"
  let ?es = "[(5, ''d'', [0x49, 0x11, 1, 1, 9]), (6, ''e'', [0x49, 0, 1, 0, 3]),
    (7, ''d'', [0x49, 0x01, 1, 1, 0, 7, 8])] :: ip_arrival list"
  have send: "FragmentForSend toy_flate ?p 7 ?t = (Inr ?fs, snd (FragmentForSend toy_flate ?p 7 ?t))"
    by (rule prod_eqI) (code_simp, simp)
  have key: "''d:1'' = pp_key ''d'' (fst (NextPacketID ?t))" by code_simp
  have new: "ip_pending ?t ''d:1'' = None" by (simp add: NewTunnel_def NewPacketReassembler_def)
  have "map (snd \<circ> snd) (filter (\<lambda>e. ip_arrival_key e = Some ''d:1'') ?es) = rev ?fs" by code_simp
  then have perm: "mset (map (snd \<circ> snd) (filter (\<lambda>e. ip_arrival_key e = Some ''d:1'') ?es)) = mset ?fs" by simp
  show ?thesis
    using ipougrs_any_order [OF toy_flate_documented _ _ send key new perm] send by (simp add: Let_def)
qed

text \<open>The tunnel keeps the age limit but never applies it: no operation of the tunnel calls
  \<open>Expire\<close>. After 256 packets the packet id comes back, and a frame left over from a packet
  that was never completed is joined with the frames of the new one.\<close>

lemma ipougrs_stale_frame:
  "fst (run (ip_arrive toy_flate) [(0, ''d'', ip_Encode (ip_frame_at 2 2 1 0 [1, 2, 3, 4] 0)),
      (10 ^ 6, ''d'', ip_Encode (ip_frame_at 2 2 1 0 [5, 6, 7, 8] 1))] (NewTunnel True 120)) =
    [Inr None, Inr (Some [1, 2, 7, 8])]"
  by code_simp

end
