(* ===== verification/Topics.thy ===== *)
theory Topics
  imports Crypto
begin

text \<open>
  The topic scheme of the message bus (\<open>internal/mqtt/topics.go\<close>): identifiers as topic
  segments, the builders and the parsers of both topic shapes, and the list of tenant names
  the store refuses (\<open>internal/store\<close>). A parser's "not ok" is \<open>None\<close>.
\<close>

section \<open>Segments\<close>

definition encode_char :: "char \<Rightarrow> string" where
  "encode_char c =
     (if c = CHR ''%'' then ''%25'' else if c = CHR ''+'' then ''%2B'' else if c = CHR ''#'' then ''%23''
      else if c = CHR ''/'' then ''%2F'' else [c])"

definition EncodeSegment :: "string \<Rightarrow> string" where
  "EncodeSegment s = concat (map encode_char s)"

text \<open>\<open>strings.Replacer\<close>: from left to right, without overlap.\<close>

function DecodeSegment :: "string \<Rightarrow> string" where
  "DecodeSegment s =
     (if s = [] then []
      else if take 3 s = ''%2B'' then CHR ''+'' # DecodeSegment (drop 3 s)
      else if take 3 s = ''%23'' then CHR ''#'' # DecodeSegment (drop 3 s)
      else if take 3 s = ''%2F'' then CHR ''/'' # DecodeSegment (drop 3 s)
      else if take 3 s = ''%25'' then CHR ''%'' # DecodeSegment (drop 3 s)
      else hd s # DecodeSegment (tl s))"
  by pat_completeness auto
termination by (relation "measure length") auto

declare DecodeSegment.simps [simp del]

definition CheckPublishTopic :: "string \<Rightarrow> bool" where
  "CheckPublishTopic topic \<longleftrightarrow> \<not> (CHR ''+'' \<in> set topic \<or> CHR ''#'' \<in> set topic)"

section \<open>Builders\<close>

definition DefaultTenant :: string where "DefaultTenant = ''default''"

definition deviceSuffixHeads :: "string list" where
  "deviceSuffixHeads = [''mo'', ''mt'', ''position'', ''sos'', ''status'', ''telemetry'', ''config'', ''sms'', ''health'', ''signal'']"

definition reservedSecond :: "string list" where
  "reservedSecond = [''hub'', ''broadcast'', ''bridge'', ''relay'']"

definition ReservedTenantIDs :: "string list" where
  "ReservedTenantIDs = [''bridge'', ''hub'', ''broadcast'', ''reticulum'', ''federation'', ''routed'']"

definition Namespace :: "string \<Rightarrow> string" where
  "Namespace tenantID = (if tenantID = [] \<or> tenantID = DefaultTenant then ''meshsat'' else ''meshsat/'' @ tenantID)"

definition DeviceTopic :: "string \<Rightarrow> string \<Rightarrow> string \<Rightarrow> string" where
  "DeviceTopic tenantID deviceID suffix = Namespace tenantID @ ''/'' @ EncodeSegment deviceID @ ''/'' @ suffix"

definition BridgeTopic :: "string \<Rightarrow> string \<Rightarrow> string \<Rightarrow> string" where
  "BridgeTopic tenantID bridgeID suffix = Namespace tenantID @ ''/bridge/'' @ EncodeSegment bridgeID @ ''/'' @ suffix"

definition RelayTopic :: "string \<Rightarrow> string \<Rightarrow> string \<Rightarrow> string \<Rightarrow> string" where
  "RelayTopic tenantID bridgeID clientID dir =
     Namespace tenantID @ ''/relay/'' @ EncodeSegment bridgeID @ ''/'' @ EncodeSegment clientID @ ''/'' @ dir"

definition TopicSatMOFor :: "string \<Rightarrow> string \<Rightarrow> string" where
  "TopicSatMOFor tenantID imei = Namespace tenantID @ ''/hub/satmo/'' @ EncodeSegment imei"

definition TopicHubCreditsFor :: "string \<Rightarrow> string" where
  "TopicHubCreditsFor tenantID =
     (if tenantID = [] \<or> tenantID = DefaultTenant then ''meshsat/hub/credits'' else Namespace tenantID @ ''/hub/credits'')"

definition TopicAPRSInboundFor :: "string \<Rightarrow> string" where
  "TopicAPRSInboundFor tenantID =
     (if tenantID = [] \<or> tenantID = DefaultTenant then ''meshsat/hub/aprsis/inbound''
      else Namespace tenantID @ ''/hub/aprsis/inbound'')"

definition TopicTAKBroadcastFor :: "string \<Rightarrow> string" where
  "TopicTAKBroadcastFor tenantID = Namespace tenantID @ ''/broadcast/tak/cot/in''"

definition TopicTAKBroadcastFromFor :: "string \<Rightarrow> string \<Rightarrow> string" where
  "TopicTAKBroadcastFromFor tenantID sender = TopicTAKBroadcastFor tenantID @ ''/'' @ EncodeSegment sender"

definition DualFilters :: "string \<Rightarrow> string list" where
  "DualFilters legacy = (if take 8 legacy = ''meshsat/'' then [legacy, ''meshsat/+/'' @ drop 8 legacy] else [legacy])"

text \<open>The named device and bridge topics.\<close>

definition TopicMORawFor :: "string \<Rightarrow> string \<Rightarrow> string" where
  "TopicMORawFor t d = DeviceTopic t d ''mo/raw''"

definition TopicMODecodedFor :: "string \<Rightarrow> string \<Rightarrow> string" where
  "TopicMODecodedFor t d = DeviceTopic t d ''mo/decoded''"

definition TopicMTSendFor :: "string \<Rightarrow> string \<Rightarrow> string" where
  "TopicMTSendFor t d = DeviceTopic t d ''mt/send''"

definition TopicMTStatusFor :: "string \<Rightarrow> string \<Rightarrow> string" where
  "TopicMTStatusFor t d = DeviceTopic t d ''mt/status''"

definition TopicPositionFor :: "string \<Rightarrow> string \<Rightarrow> string" where
  "TopicPositionFor t d = DeviceTopic t d ''position''"

definition TopicSOSFor :: "string \<Rightarrow> string \<Rightarrow> string" where
  "TopicSOSFor t d = DeviceTopic t d ''sos''"

definition TopicConfigCurrentFor :: "string \<Rightarrow> string \<Rightarrow> string" where
  "TopicConfigCurrentFor t d = DeviceTopic t d ''config/current''"

definition TopicConfigUpdateFor :: "string \<Rightarrow> string \<Rightarrow> string" where
  "TopicConfigUpdateFor t d = DeviceTopic t d ''config/update''"

definition TopicBridgeMOAckFor :: "string \<Rightarrow> string \<Rightarrow> string" where
  "TopicBridgeMOAckFor t b = BridgeTopic t b ''mo/ack''"

definition TopicTAKCotOutFor :: "string \<Rightarrow> string \<Rightarrow> string" where
  "TopicTAKCotOutFor t b = BridgeTopic t b ''tak/cot/out''"

definition TopicTAKCotInFor :: "string \<Rightarrow> string \<Rightarrow> string" where
  "TopicTAKCotInFor t b = BridgeTopic t b ''tak/cot/in''"

definition TopicTAKChatStatusFor :: "string \<Rightarrow> string \<Rightarrow> string" where
  "TopicTAKChatStatusFor t b = BridgeTopic t b ''tak/chat/status''"

definition TopicMsgInFor :: "string \<Rightarrow> string \<Rightarrow> string" where
  "TopicMsgInFor t b = BridgeTopic t b ''msg/in''"

definition TopicMsgStatusFor :: "string \<Rightarrow> string \<Rightarrow> string" where
  "TopicMsgStatusFor t b = BridgeTopic t b ''msg/status''"

definition TopicSOSAckFor :: "string \<Rightarrow> string \<Rightarrow> string" where
  "TopicSOSAckFor t b = BridgeTopic t b ''sos/ack''"

definition TopicHubCapsFor :: "string \<Rightarrow> string \<Rightarrow> string" where
  "TopicHubCapsFor t b = BridgeTopic t b ''hub/caps''"

definition TopicRNSAccessFor :: "string \<Rightarrow> string \<Rightarrow> string" where
  "TopicRNSAccessFor t b = BridgeTopic t b ''rns/access''"

definition TopicWarnInFor :: "string \<Rightarrow> string \<Rightarrow> string" where
  "TopicWarnInFor t b = BridgeTopic t b ''warn/in''"

section \<open>Parsers\<close>

definition IsHubTopic :: "string \<Rightarrow> bool" where
  "IsHubTopic topic =
     (let parts = Split (CHR ''/'') topic
      in 2 \<le> length parts \<and> parts ! 0 = ''meshsat'' \<and> parts ! 1 \<in> set reservedSecond)"

definition ParseRelayTopic :: "string \<Rightarrow> (string \<times> string \<times> string \<times> string) option" where
  "ParseRelayTopic topic =
     (let parts = Split (CHR ''/'') topic
      in if length parts < 5 \<or> parts ! 0 \<noteq> ''meshsat'' then None
         else case (if length parts = 5 \<and> parts ! 1 = ''relay'' then Some (DefaultTenant, drop 2 parts)
                    else if length parts = 6 \<and> parts ! 2 = ''relay'' \<and> parts ! 1 \<notin> set reservedSecond \<and> parts ! 1 \<noteq> []
                    then Some (parts ! 1, drop 3 parts) else None) of
             None \<Rightarrow> None
           | Some (tenantID, parts) \<Rightarrow>
               if parts ! 2 \<noteq> ''up'' \<and> parts ! 2 \<noteq> ''down'' \<or> parts ! 0 = [] \<or> parts ! 1 = [] then None
               else Some (tenantID, DecodeSegment (parts ! 0), DecodeSegment (parts ! 1), parts ! 2))"

definition ParseSatMOTopic :: "string \<Rightarrow> (string \<times> string) option" where
  "ParseSatMOTopic topic =
     (let parts = Split (CHR ''/'') topic
      in if length parts = 4 \<and> parts ! 0 = ''meshsat'' \<and> parts ! 1 = ''hub'' \<and> parts ! 2 = ''satmo'' \<and> parts ! 3 \<noteq> []
         then Some (DefaultTenant, DecodeSegment (parts ! 3))
         else if length parts = 5 \<and> parts ! 0 = ''meshsat'' \<and> parts ! 2 = ''hub'' \<and> parts ! 3 = ''satmo''
           \<and> parts ! 1 \<noteq> [] \<and> parts ! 4 \<noteq> []
         then Some (parts ! 1, DecodeSegment (parts ! 4))
         else None)"

definition ParseDeviceTopic :: "string \<Rightarrow> (string \<times> string \<times> string) option" where
  "ParseDeviceTopic topic =
     (let parts = Split (CHR ''/'') topic
      in if length parts < 3 \<or> parts ! 0 \<noteq> ''meshsat'' \<or> parts ! 1 = [] then None
         else if parts ! 2 \<in> set deviceSuffixHeads \<and> parts ! 1 \<notin> set reservedSecond
         then Some (DefaultTenant, DecodeSegment (parts ! 1), Join (drop 2 parts) (CHR ''/''))
         else if 4 \<le> length parts \<and> parts ! 3 \<in> set deviceSuffixHeads \<and> parts ! 1 \<notin> set reservedSecond
           \<and> parts ! 2 \<notin> set reservedSecond \<and> parts ! 2 \<noteq> []
         then Some (parts ! 1, DecodeSegment (parts ! 2), Join (drop 3 parts) (CHR ''/''))
         else None)"

definition ParseBridgeTopic :: "string \<Rightarrow> (string \<times> string \<times> string list) option" where
  "ParseBridgeTopic topic =
     (let parts = Split (CHR ''/'') topic
      in if length parts < 4 \<or> parts ! 0 \<noteq> ''meshsat'' then None
         else if parts ! 1 = ''bridge''
         then (if parts ! 2 \<noteq> [] then Some (DefaultTenant, DecodeSegment (parts ! 2), drop 3 parts) else None)
         else if 5 \<le> length parts \<and> parts ! 2 = ''bridge'' \<and> parts ! 1 \<notin> set reservedSecond
         then (if parts ! 3 \<noteq> [] then Some (parts ! 1, DecodeSegment (parts ! 3), drop 4 parts) else None)
         else None)"

definition ExtractDeviceID :: "string \<Rightarrow> string" where
  "ExtractDeviceID topic = (case ParseDeviceTopic topic of None \<Rightarrow> [] | Some (t, d, s) \<Rightarrow> d)"

definition ExtractTenantID :: "string \<Rightarrow> string" where
  "ExtractTenantID topic = (case ParseDeviceTopic topic of None \<Rightarrow> [] | Some (t, d, s) \<Rightarrow> t)"

definition ParseTAKCotOut :: "string \<Rightarrow> (string \<times> string) option" where
  "ParseTAKCotOut topic = (case ParseBridgeTopic topic of None \<Rightarrow> None
     | Some (t, b, tail) \<Rightarrow> if tail = [''tak'', ''cot'', ''out''] then Some (t, b) else None)"

definition ParseTAKChatStatus :: "string \<Rightarrow> (string \<times> string) option" where
  "ParseTAKChatStatus topic = (case ParseBridgeTopic topic of None \<Rightarrow> None
     | Some (t, b, tail) \<Rightarrow> if tail = [''tak'', ''chat'', ''status''] then Some (t, b) else None)"

definition ParseMsgTopic :: "string \<Rightarrow> (string \<times> string \<times> string) option" where
  "ParseMsgTopic topic = (case ParseBridgeTopic topic of None \<Rightarrow> None
     | Some (t, b, tail) \<Rightarrow>
         if length tail \<noteq> 2 \<or> tail ! 0 \<noteq> ''msg'' \<or> tail ! 1 \<noteq> ''out'' \<and> tail ! 1 \<noteq> ''ack'' then None
         else Some (t, b, tail ! 1))"

definition ParseSOSEventTopic :: "string \<Rightarrow> (string \<times> string) option" where
  "ParseSOSEventTopic topic = (case ParseBridgeTopic topic of None \<Rightarrow> None
     | Some (t, b, tail) \<Rightarrow> if tail = [''sos'', ''event''] then Some (t, b) else None)"

definition ParseRNSJoinTopic :: "string \<Rightarrow> (string \<times> string) option" where
  "ParseRNSJoinTopic topic = (case ParseBridgeTopic topic of None \<Rightarrow> None
     | Some (t, b, tail) \<Rightarrow> if tail = [''rns'', ''join''] then Some (t, b) else None)"

definition MessageDigest :: "(bytes \<Rightarrow> bytes) \<Rightarrow> string \<Rightarrow> bytes \<Rightarrow> string" where
  "MessageDigest sha256 topic payload = take 16 (hex_EncodeToString (sha256 (str_bytes topic @ [0] @ payload)))"

definition FallbackMessageID :: "(bytes \<Rightarrow> bytes) \<Rightarrow> string \<Rightarrow> bytes \<Rightarrow> string" where
  "FallbackMessageID sha256 topic payload = ''mo-'' @ MessageDigest sha256 topic payload"

definition FallbackPositionID :: "(bytes \<Rightarrow> bytes) \<Rightarrow> string \<Rightarrow> bytes \<Rightarrow> string" where
  "FallbackPositionID sha256 topic payload = ''pos-'' @ MessageDigest sha256 topic payload"

section \<open>Segments round-trip\<close>

lemma Decode_encode_char: "DecodeSegment (encode_char c @ s) = c # DecodeSegment s"
  by (subst DecodeSegment.simps) (auto simp: encode_char_def)

lemma Decode_Encode_append: "DecodeSegment (EncodeSegment w @ s) = w @ DecodeSegment s"
  by (induction w) (simp_all add: EncodeSegment_def Decode_encode_char)

lemma Segment_roundtrip [simp]: "DecodeSegment (EncodeSegment w) = w"
  using Decode_Encode_append [of w "[]"] by (simp add: DecodeSegment.simps)

lemma Decode_plain: "CHR ''%'' \<notin> set w \<Longrightarrow> DecodeSegment w = w"
  by (induction w) (auto simp: DecodeSegment.simps [of "_ # _"] DecodeSegment.simps [of "[]"])

lemma Encode_plain: "CHR ''%'' \<notin> set v \<Longrightarrow> EncodeSegment w = v \<Longrightarrow> w = v"
  using Decode_plain Segment_roundtrip by metis

lemma Encode_safe: "c \<in> set (EncodeSegment w) \<Longrightarrow> c \<noteq> CHR ''/'' \<and> c \<noteq> CHR ''+'' \<and> c \<noteq> CHR ''#''"
  by (auto simp: EncodeSegment_def encode_char_def split: if_splits)

lemma Encode_word [simp]: "CHR ''/'' \<notin> set (EncodeSegment w)" "CHR ''+'' \<notin> set (EncodeSegment w)"
  "CHR ''#'' \<notin> set (EncodeSegment w)"
  using Encode_safe by blast+

lemma Encode_Nil [simp]: "EncodeSegment w = [] \<longleftrightarrow> w = []"
  by (metis Segment_roundtrip EncodeSegment_def concat.simps(1) list.map(1))

lemma Encode_head [simp]: "EncodeSegment w \<in> set deviceSuffixHeads \<longleftrightarrow> w \<in> set deviceSuffixHeads"
proof
  have plain: "CHR ''%'' \<notin> set v" if "v \<in> set deviceSuffixHeads" for v
    using that by (auto simp: deviceSuffixHeads_def)
  show "w \<in> set deviceSuffixHeads" if "EncodeSegment w \<in> set deviceSuffixHeads"
    using Encode_plain [OF plain [OF that] refl] that by simp
  show "EncodeSegment w \<in> set deviceSuffixHeads" if "w \<in> set deviceSuffixHeads"
    using that by (auto simp: deviceSuffixHeads_def EncodeSegment_def encode_char_def)
qed

lemma Encode_reserved [simp]: "EncodeSegment w \<in> set reservedSecond \<longleftrightarrow> w \<in> set reservedSecond"
proof
  have plain: "CHR ''%'' \<notin> set v" if "v \<in> set reservedSecond" for v
    using that by (auto simp: reservedSecond_def)
  show "w \<in> set reservedSecond" if "EncodeSegment w \<in> set reservedSecond"
    using Encode_plain [OF plain [OF that] refl] that by simp
  show "EncodeSegment w \<in> set reservedSecond" if "w \<in> set reservedSecond"
    using that by (auto simp: reservedSecond_def EncodeSegment_def encode_char_def)
qed

section \<open>Topics as lists of segments\<close>

definition tenant_ok :: "string \<Rightarrow> bool" where
  "tenant_ok t \<longleftrightarrow> t \<noteq> [] \<and> CHR ''/'' \<notin> set t \<and> t \<notin> set reservedSecond"

lemma default_ok: "tenant_ok DefaultTenant"
  by (simp add: tenant_ok_def DefaultTenant_def reservedSecond_def)

lemma Split_Namespace:
  assumes "tenant_ok t"
  shows "Split (CHR ''/'') (Namespace t @ ''/'' @ s) =
    (if t = DefaultTenant then [''meshsat''] else [''meshsat'', t]) @ Split (CHR ''/'') s"
proof -
  have meshsat: "Split (CHR ''/'') (''meshsat'' @ CHR ''/'' # u) = ''meshsat'' # Split (CHR ''/'') u" for u
    by (rule Split_append_sep) simp
  have "CHR ''/'' \<notin> set t" "t \<noteq> []" using assms by (simp_all add: tenant_ok_def)
  then show ?thesis
    using meshsat [of s] meshsat [of "t @ CHR ''/'' # s"] Split_append_sep [of "CHR ''/''" t s]
    by (simp add: Namespace_def)
qed

lemma Split_segment: "Split (CHR ''/'') (EncodeSegment w @ ''/'' @ s) = EncodeSegment w # Split (CHR ''/'') s"
  using Split_append_sep [of "CHR ''/''" "EncodeSegment w" s] by simp

lemma Split_fixed:
  "Split (CHR ''/'') (''bridge/'' @ s) = ''bridge'' # Split (CHR ''/'') s"
  "Split (CHR ''/'') (''relay/'' @ s) = ''relay'' # Split (CHR ''/'') s"
  "Split (CHR ''/'') (''hub/satmo/'' @ s) = ''hub'' # ''satmo'' # Split (CHR ''/'') s"
  using Split_append_sep [of "CHR ''/''" "''bridge''" s] Split_append_sep [of "CHR ''/''" "''relay''" s]
    Split_append_sep [of "CHR ''/''" "''hub''" "''satmo/'' @ s"] Split_append_sep [of "CHR ''/''" "''satmo''" s]
  by simp_all

lemma Split_BridgeTopic:
  assumes "tenant_ok t"
  shows "Split (CHR ''/'') (BridgeTopic t b s) =
    (if t = DefaultTenant then [''meshsat''] else [''meshsat'', t]) @ [''bridge'', EncodeSegment b] @ Split (CHR ''/'') s"
  using Split_Namespace [OF assms, of "''bridge/'' @ EncodeSegment b @ ''/'' @ s"]
  by (simp only: BridgeTopic_def append.assoc append_Cons append_Nil Split_fixed Split_segment)
     (simp add: Split_fixed [simplified] Split_segment [simplified])

lemma Split_DeviceTopic:
  assumes "tenant_ok t"
  shows "Split (CHR ''/'') (DeviceTopic t d s) =
    (if t = DefaultTenant then [''meshsat''] else [''meshsat'', t]) @ [EncodeSegment d] @ Split (CHR ''/'') s"
  using Split_Namespace [OF assms, of "EncodeSegment d @ ''/'' @ s"] by (simp only: DeviceTopic_def Split_segment) simp

lemma Split_RelayTopic:
  assumes "tenant_ok t"
  shows "Split (CHR ''/'') (RelayTopic t b c s) =
    (if t = DefaultTenant then [''meshsat''] else [''meshsat'', t]) @ [''relay'', EncodeSegment b, EncodeSegment c] @ Split (CHR ''/'') s"
  using Split_Namespace [OF assms, of "''relay/'' @ EncodeSegment b @ ''/'' @ EncodeSegment c @ ''/'' @ s"]
  by (simp only: RelayTopic_def append.assoc append_Cons append_Nil Split_fixed Split_segment)
     (simp add: Split_fixed [simplified] Split_segment [simplified])

lemma Split_SatMO:
  assumes "tenant_ok t"
  shows "Split (CHR ''/'') (TopicSatMOFor t i) =
    (if t = DefaultTenant then [''meshsat''] else [''meshsat'', t]) @ [''hub'', ''satmo'', EncodeSegment i]"
  using Split_Namespace [OF assms, of "''hub/satmo/'' @ EncodeSegment i"]
  by (simp only: TopicSatMOFor_def append.assoc append_Cons append_Nil Split_fixed)
     (simp add: Split_fixed [simplified] Split_word)

lemma length_Split: "0 < length (Split sep s)"
  by simp

lemma Parse_BridgeTopic:
  assumes "tenant_ok t" "b \<noteq> []"
  shows "ParseBridgeTopic (BridgeTopic t b s) = Some (t, b, Split (CHR ''/'') s)"
  using assms length_Split [of "CHR ''/''" s]
  by (auto simp: ParseBridgeTopic_def Split_BridgeTopic Let_def tenant_ok_def reservedSecond_def not_less_eq_eq
      Suc_le_eq simp del: Split_neq_Nil)

lemma Parse_RelayTopic:
  assumes "tenant_ok t" "b \<noteq> []" "c \<noteq> []" "dir \<in> {''up'', ''down''}"
  shows "ParseRelayTopic (RelayTopic t b c dir) = Some (t, b, c, dir)"
proof -
  have "Split (CHR ''/'') dir = [dir]" using assms(4) by auto
  then show ?thesis
    using assms by (auto simp: ParseRelayTopic_def Split_RelayTopic Let_def tenant_ok_def reservedSecond_def)
qed

lemma Parse_SatMO:
  assumes "tenant_ok t" "i \<noteq> []"
  shows "ParseSatMOTopic (TopicSatMOFor t i) = Some (t, i)"
  using assms by (auto simp: ParseSatMOTopic_def Split_SatMO Let_def tenant_ok_def reservedSecond_def)

lemma CheckPublish_append: "CheckPublishTopic (s @ t) \<longleftrightarrow> CheckPublishTopic s \<and> CheckPublishTopic t"
  by (auto simp: CheckPublishTopic_def)

lemma CheckPublish_built:
  "CheckPublishTopic (EncodeSegment w)" "CheckPublishTopic (Namespace t) \<longleftrightarrow> CheckPublishTopic t"
  by (auto simp: CheckPublishTopic_def Namespace_def DefaultTenant_def)

lemma bridge_namespace:
  assumes "tenant_ok t" "t \<noteq> DefaultTenant" "ParseBridgeTopic (Namespace t @ ''/'' @ s) = Some (t', b, r)"
  shows "t' = t"
  using assms
  by (auto simp: ParseBridgeTopic_def Split_Namespace [simplified] Let_def tenant_ok_def reservedSecond_def split: if_splits)

section \<open>Properties\<close>



lemma device_default:
  assumes "d \<noteq> []" "d \<notin> set reservedSecond" "hd (Split (CHR ''/'') s) \<in> set deviceSuffixHeads"
  shows "ParseDeviceTopic (DeviceTopic DefaultTenant d s) = Some (DefaultTenant, d, s)"
  using assms
  by (simp add: ParseDeviceTopic_def Split_DeviceTopic [OF default_ok] Let_def hd_conv_nth Join_Split)

lemma device_other:
  assumes "tenant_ok t" "t \<noteq> DefaultTenant" "d \<noteq> []" "d \<notin> set reservedSecond"
    and "hd (Split (CHR ''/'') s) \<in> set deviceSuffixHeads"
  shows "ParseDeviceTopic (DeviceTopic t d s) =
    (if d \<in> set deviceSuffixHeads then Some (DefaultTenant, DecodeSegment t, d @ ''/'' @ s) else Some (t, d, s))"
proof -
  have plain: "EncodeSegment d = d" if "d \<in> set deviceSuffixHeads"
    using that by (auto simp: deviceSuffixHeads_def EncodeSegment_def encode_char_def)
  have "t \<noteq> []" "t \<notin> set reservedSecond" using assms(1) by (simp_all add: tenant_ok_def)
  then show ?thesis
    using assms plain
    by (auto simp: ParseDeviceTopic_def Split_DeviceTopic Let_def hd_conv_nth Join_Split Join_Cons Suc_le_eq not_less_eq_eq)
qed

lemma device_namespace:
  assumes "tenant_ok t" "t \<noteq> DefaultTenant" "ParseDeviceTopic (Namespace t @ ''/'' @ s) = Some (t', d, r)"
  shows "t' = t \<or> t' = DefaultTenant \<and> d = DecodeSegment t \<and> hd (Split (CHR ''/'') s) \<in> set deviceSuffixHeads"
  using assms
  by (auto simp: ParseDeviceTopic_def Split_Namespace [simplified] Let_def hd_conv_nth split: if_splits)

text \<open>A device topic of the default tenant is parsed back to its device and suffix. One of
  another tenant is too, exactly when the device is not named like one of the ten suffix words;
  otherwise it is read as a topic of the default tenant, of a device named like the tenant.
  More generally, a topic in the namespace of a tenant is attributed to that tenant or, when its
  next segment is a suffix word, to the device of the tenant's name in the default tenant.\<close>

theorem device_topics_attribution:
  assumes "tenant_ok t" "d \<noteq> []" "d \<notin> set reservedSecond" "hd (Split (CHR ''/'') s) \<in> set deviceSuffixHeads"
  shows "ParseDeviceTopic (DeviceTopic t d s) =
      (if t \<noteq> DefaultTenant \<and> d \<in> set deviceSuffixHeads then Some (DefaultTenant, DecodeSegment t, d @ ''/'' @ s)
       else Some (t, d, s)) \<and>
    (t \<noteq> DefaultTenant \<and> ParseDeviceTopic (Namespace t @ ''/'' @ u) = Some (t', d', r) \<longrightarrow>
      t' = t \<or> t' = DefaultTenant \<and> d' = DecodeSegment t \<and> hd (Split (CHR ''/'') u) \<in> set deviceSuffixHeads)"
  using device_default device_other device_namespace assms by (cases "t = DefaultTenant") auto

text \<open>The store refuses three of the four reserved words as tenant names, but not \<open>relay\<close>: no
  topic of a bridge of such a tenant is ever parsed.\<close>

lemma tenant_relay_unreachable:
  "set reservedSecond - set ReservedTenantIDs = {''relay''}"
  "ParseBridgeTopic (BridgeTopic ''relay'' b s) = None"
proof -
  show "set reservedSecond - set ReservedTenantIDs = {''relay''}"
    by (auto simp: reservedSecond_def ReservedTenantIDs_def)
  have "BridgeTopic ''relay'' b s =
      Namespace DefaultTenant @ ''/'' @ ''relay/'' @ ''bridge/'' @ EncodeSegment b @ ''/'' @ s"
    by (simp add: BridgeTopic_def Namespace_def DefaultTenant_def)
  then have "Split (CHR ''/'') (BridgeTopic ''relay'' b s) =
      [''meshsat''] @ ''relay'' # ''bridge'' # EncodeSegment b # Split (CHR ''/'') s"
    by (simp only: Split_Namespace [OF default_ok] Split_fixed Split_segment simp_thms if_True)
  then show "ParseBridgeTopic (BridgeTopic ''relay'' b s) = None"
    by (simp add: ParseBridgeTopic_def reservedSecond_def)
qed

end
