(* ===== verification/HubIds.thy ===== *)
theory HubIds
  imports Topics
begin

text \<open>
  The identities and the content digest of the app route \<open>hub_msg\<close>
  (\<open>internal/hubmsg/ids.go\<close>, \<open>digest.go\<close>). SHA-1, SHA-256 and random bytes are arguments; the
  clock is an argument in milliseconds. A UUID is a list of 16 bytes. The lower-case test of
  \<open>parseCanonical\<close> uses the ASCII mapping: a text with any other letter is refused by the
  hexadecimal decoder that follows.
\<close>

definition uuid_Namespace :: string where
  "uuid_Namespace = ''a389cf74-e475-53d9-b656-d994a485fe0a''"

record IDContext =
  ic_Sender :: string
  ic_Name :: string
  ic_BridgeID :: string
  ic_RunStartMs :: int

definition parseCanonical :: "string \<Rightarrow> bytes option" where
  "parseCanonical s =
     (if length s \<noteq> 36 \<or> s ! 8 \<noteq> CHR ''-'' \<or> s ! 13 \<noteq> CHR ''-'' \<or> s ! 18 \<noteq> CHR ''-'' \<or> s ! 23 \<noteq> CHR ''-'' then None
      else let hexs = slice 0 8 s @ slice 9 13 s @ slice 14 18 s @ slice 19 23 s @ slice 24 36 s
           in if ToLower hexs \<noteq> hexs then None else hex_DecodeString hexs)"

definition uuid_format :: "bytes \<Rightarrow> string" where
  "uuid_format b =
     (let h = hex_EncodeToString b
      in slice 0 8 h @ ''-'' @ slice 8 12 h @ ''-'' @ slice 12 16 h @ ''-'' @ slice 16 20 h @ ''-'' @ slice 20 32 h)"

definition ValidV7 :: "string \<Rightarrow> bool" where
  "ValidV7 s = (case parseCanonical s of None \<Rightarrow> False | Some b \<Rightarrow> drop_bit 6 (b ! 8) = 2 \<and> drop_bit 4 (b ! 6) = 7)"

definition TimeOfV7 :: "bytes \<Rightarrow> int" where
  "TimeOfV7 b = sint (get_u64_be ([0, 0] @ slice 0 6 b))"

definition set_version :: "byte \<Rightarrow> bytes \<Rightarrow> bytes" where
  "set_version v b = (let b = b[6 := v OR (b ! 6 AND 0x0F)] in b[8 := 0x80 OR (b ! 8 AND 0x3F)])"

definition UUIDv5 :: "(bytes \<Rightarrow> bytes) \<Rightarrow> string \<Rightarrow> string" where
  "UUIDv5 sha1 name =
     (let ns = (case parseCanonical uuid_Namespace of Some b \<Rightarrow> b | None \<Rightarrow> replicate 16 0)
      in uuid_format (set_version 0x50 (take 16 (sha1 (ns @ str_bytes name)))))"

definition FormatInt :: "int \<Rightarrow> string" where
  "FormatInt i = (if i < 0 then ''-'' @ dec_digits (nat (- i)) else dec_digits (nat i))"

definition IDValid :: "(bytes \<Rightarrow> bytes) \<Rightarrow> string \<Rightarrow> string \<Rightarrow> IDContext \<Rightarrow> bool" where
  "IDValid sha1 s field c =
     (case parseCanonical s of
        None \<Rightarrow> False
      | Some b \<Rightarrow>
          if drop_bit 6 (b ! 8) \<noteq> 2 then False
          else if drop_bit 4 (b ! 6) = 7 then
            (if field = ''sos_id'' then ic_RunStartMs c \<ge> 0 \<and> TimeOfV7 b = ic_RunStartMs c else True)
          else if drop_bit 4 (b ! 6) = 5 then
            (if field = ''mid'' \<and> ic_Sender c = ''hub'' \<and> ic_Name c \<noteq> [] then UUIDv5 sha1 (ic_Name c) = s
             else if field = ''sos_id'' \<and> ic_BridgeID c \<noteq> [] \<and> ic_RunStartMs c \<ge> 0
             then UUIDv5 sha1 (ic_BridgeID c @ '':'' @ FormatInt (ic_RunStartMs c)) = s
             else False)
          else False)"

definition no_context :: IDContext where
  "no_context = \<lparr>ic_Sender = [], ic_Name = [], ic_BridgeID = [], ic_RunStartMs = 0\<rparr>"

definition SOSIDValid :: "(bytes \<Rightarrow> bytes) \<Rightarrow> string \<Rightarrow> string \<Rightarrow> int \<Rightarrow> bool" where
  "SOSIDValid sha1 sosID bridgeID runStartMs =
     IDValid sha1 sosID ''sos_id'' (no_context\<lparr>ic_BridgeID := bridgeID, ic_RunStartMs := runStartMs\<rparr>)"

definition v7_time :: "int \<Rightarrow> bytes" where
  "v7_time ms = slice 2 8 (put_u64_be (of_int (max ms 0)))"

definition NewV7 :: "bytes \<Rightarrow> int \<Rightarrow> string" where
  "NewV7 rnd ms = uuid_format (set_version 0x70 (v7_time ms @ rnd))"

section \<open>The content digest\<close>

definition ContentTag :: string where "ContentTag = ''meshsat.content/1''"

datatype pre_err = MidNotCanonical | NegativeExpiry | FieldTooLong

fun put_fields :: "bytes list \<Rightarrow> pre_err + bytes" where
  "put_fields [] = Inr []"
| "put_fields (f # fs) =
     (if 2 ^ 32 - 1 < length f then Inl FieldTooLong
      else case put_fields fs of Inl e \<Rightarrow> Inl e | Inr out \<Rightarrow> Inr (put_u32_be (of_nat (length f)) @ f @ out))"

definition ContentPreimage :: "string \<Rightarrow> string \<Rightarrow> string \<Rightarrow> int \<Rightarrow> bytes \<Rightarrow> pre_err + bytes" where
  "ContentPreimage mid recipient contentType midExpiresAt body =
     (case parseCanonical mid of
        None \<Rightarrow> Inl MidNotCanonical
      | Some m \<Rightarrow>
          if midExpiresAt < 0 then Inl NegativeExpiry
          else put_fields [str_bytes ContentTag, m, str_bytes recipient, str_bytes contentType,
                           put_u64_be (of_int midExpiresAt), body])"

definition ContentSHA256 :: "(bytes \<Rightarrow> bytes) \<Rightarrow> string \<Rightarrow> string \<Rightarrow> string \<Rightarrow> int \<Rightarrow> bytes \<Rightarrow> pre_err + string" where
  "ContentSHA256 sha256 mid recipient contentType midExpiresAt body =
     (case ContentPreimage mid recipient contentType midExpiresAt body of
        Inl e \<Rightarrow> Inl e | Inr p \<Rightarrow> Inr (hex_EncodeToString (sha256 p)))"

section \<open>The canonical text\<close>

lemma code_inject [simp]: "code c = code d \<longleftrightarrow> c = d"
  by (simp add: code_def)

lemma hex_digits_code: "v < 16 \<Longrightarrow> code (hex_digits ! v) = (if v < 10 then 48 + v else 87 + v)"
proof -
  assume "v < 16"
  then have "v \<in> {0, 1, 2, 3, 4, 5, 6, 7, 8, 9, 10, 11, 12, 13, 14, 15}"
    by (simp only: insert_iff empty_iff) presburger
  then show ?thesis by (elim insertE emptyE) (simp_all add: hex_digits_def code_def)
qed

lemma hex_digit_back:
  assumes "hex_val c = Some v" "lower_char c = c"
  shows "hex_digits ! v = c" "v < 16"
proof -
  have "\<not> in_range CHR ''A'' CHR ''Z'' c"
  proof
    assume up: "in_range CHR ''A'' CHR ''Z'' c"
    then have "code (lower_char c) = code c + 32"
      by (simp add: lower_char_def in_range_def code_def of_char_def [of "CHR ''Z''"])
    with assms(2) show False by simp
  qed
  then have "code c = (if v < 10 then 48 + v else 87 + v) \<and> v < 16"
    using assms(1) by (auto simp: hex_val_def in_range_def code_def split: if_splits)
  then show "hex_digits ! v = c" "v < 16" using hex_digits_code [of v] code_inject by metis+
qed

lemma hex_Encode_Decode:
  "hex_DecodeString s = Some b \<Longrightarrow> ToLower s = s \<Longrightarrow> hex_EncodeToString b = s"
proof (induction s arbitrary: b rule: hex_DecodeString.induct)
  case (3 c d s)
  then obtain h l b' where hl: "hex_val c = Some h" "hex_val d = Some l" and b': "hex_DecodeString s = Some b'"
    and b: "b = of_nat (16 * h + l) # b'"
    by (auto split: option.splits)
  note dig = hex_digit_back [OF hl(1)] hex_digit_back [OF hl(2)]
  have lo: "lower_char c = c" "lower_char d = d" "ToLower s = s" using "3.prems" by (simp_all add: ToLower_def)
  have "hex_byte (of_nat (16 * h + l)) = [c, d]"
    using dig lo by (simp add: hex_byte_def unat_of_nat del: of_nat_add of_nat_mult)
  moreover have "hex_EncodeToString b' = s" using "3.IH" hl b' lo(3) by auto
  ultimately show ?case by (simp add: b hex_EncodeToString_def)
qed (auto simp: hex_EncodeToString_def)

lemma length_hex_Encode [simp]: "length (hex_EncodeToString b) = 2 * length b"
  by (induction b) (simp_all add: hex_EncodeToString_def hex_byte_def)

lemma length_hex_Decode: "hex_DecodeString s = Some b \<Longrightarrow> length s = 2 * length b"
  by (induction s arbitrary: b rule: hex_DecodeString.induct) (auto split: option.splits)

lemma lower_hex_Encode: "ToLower (hex_EncodeToString b) = hex_EncodeToString b"
proof -
  have "lower_char (hex_digits ! d) = hex_digits ! d" if "d < 16" for d
    using hex_digits_code [OF that] that by (auto simp: lower_char_def in_range_def code_def [of "CHR ''A''"] code_def [of "CHR ''Z''"])
  moreover have "unat (x :: byte) div 16 < 16" "unat x mod 16 < 16" for x
    using unat_byte_less [of x] by (simp_all add: less_mult_imp_div_less)
  ultimately show ?thesis by (induction b) (simp_all add: hex_EncodeToString_def hex_byte_def ToLower_def)
qed



lemma parse_uuid_format:
  assumes "length b = 16"
  shows "parseCanonical (uuid_format b) = Some b"
proof -
  define h where "h = hex_EncodeToString b"
  have len: "length h = 32" using assms by (simp add: h_def)
  have parts: "slice 0 8 h @ slice 8 12 h @ slice 12 16 h @ slice 16 20 h @ slice 20 32 h = h"
    using len take_append_slice [of 8 12 h] take_append_slice [of 12 16 h] take_append_slice [of 16 20 h]
      take_append_slice [of 20 32 h]
    by (simp flip: append_assoc)
  have f: "uuid_format b = slice 0 8 h @ CHR ''-'' # slice 8 12 h @ CHR ''-'' # slice 12 16 h @ CHR ''-'' #
      slice 16 20 h @ CHR ''-'' # slice 20 32 h"
    by (simp add: uuid_format_def h_def Let_def)
  obtain a c d e g where acd: "a = slice 0 8 h" "c = slice 8 12 h" "d = slice 12 16 h" "e = slice 16 20 h" "g = slice 20 32 h"
    by blast
  have lens: "length a = 8" "length c = 4" "length d = 4" "length e = 4" "length g = 12"
    using len by (simp_all add: acd)
  have "slice 0 8 (uuid_format b) @ slice 9 13 (uuid_format b) @ slice 14 18 (uuid_format b) @
      slice 19 23 (uuid_format b) @ slice 24 36 (uuid_format b) = a @ c @ d @ e @ g"
    unfolding f acd [symmetric] using lens by (simp add: slice_def)
  moreover have "a @ c @ d @ e @ g = h" using parts by (simp add: acd)
  moreover have "length (uuid_format b) = 36" "uuid_format b ! 8 = CHR ''-''" "uuid_format b ! 13 = CHR ''-''"
    "uuid_format b ! 18 = CHR ''-''" "uuid_format b ! 23 = CHR ''-''"
    unfolding f acd [symmetric] using lens by (simp_all add: nth_append)
  ultimately show ?thesis
    by (simp add: parseCanonical_def Let_def h_def lower_hex_Encode hex_Decode_Encode)
qed

lemma canonical_cut:
  assumes "length s = 36" "s ! 8 = CHR ''-''" "s ! 13 = CHR ''-''" "s ! 18 = CHR ''-''" "s ! 23 = CHR ''-''"
  obtains a c d e g where "length a = 8" "length c = 4" "length d = 4" "length e = 4" "length g = 12"
    "s = a @ CHR ''-'' # c @ CHR ''-'' # d @ CHR ''-'' # e @ CHR ''-'' # g"
proof -
  have cut: "drop i s = slice i j s @ CHR ''-'' # drop (Suc j) s" if "i \<le> j" "j < 36" "s ! j = CHR ''-''" for i j
    using that assms(1) drop_eq_slice [of i j s] by (simp add: Cons_nth_drop_Suc [symmetric])
  have "s = slice 0 8 s @ CHR ''-'' # slice 9 13 s @ CHR ''-'' # slice 14 18 s @ CHR ''-'' # slice 19 23 s @ CHR ''-'' # drop 24 s"
    using cut [of 0 8] cut [of 9 13] cut [of 14 18] cut [of 19 23] assms by simp
  moreover have "length (slice 0 8 s) = 8" "length (slice 9 13 s) = 4" "length (slice 14 18 s) = 4"
    "length (slice 19 23 s) = 4" "length (drop 24 s) = 12" using assms(1) by simp_all
  ultimately show thesis using that by blast
qed

lemma parseCanonical_SomeD:
  assumes "parseCanonical s = Some b"
  shows "length b = 16" "uuid_format b = s"
proof -
  have form: "length s = 36" "s ! 8 = CHR ''-''" "s ! 13 = CHR ''-''" "s ! 18 = CHR ''-''" "s ! 23 = CHR ''-''"
    using assms by (auto simp: parseCanonical_def split: if_splits)
  obtain a c d e g where lens: "length a = 8" "length c = 4" "length d = 4" "length e = 4" "length g = 12"
    and s: "s = a @ CHR ''-'' # c @ CHR ''-'' # d @ CHR ''-'' # e @ CHR ''-'' # g"
    using canonical_cut [OF form] by blast
  have "slice 0 8 s @ slice 9 13 s @ slice 14 18 s @ slice 19 23 s @ slice 24 36 s = a @ c @ d @ e @ g"
    unfolding s using lens by (simp add: slice_def)
  then have dec: "hex_DecodeString (a @ c @ d @ e @ g) = Some b" "ToLower (a @ c @ d @ e @ g) = a @ c @ d @ e @ g"
    using assms form by (auto simp: parseCanonical_def Let_def split: if_splits)
  have "length (a @ c @ d @ e @ g) = 2 * length b" by (rule length_hex_Decode [OF dec(1)])
  then show "length b = 16" using lens by simp
  have "hex_EncodeToString b = a @ c @ d @ e @ g" by (rule hex_Encode_Decode [OF dec])
  then show "uuid_format b = s" unfolding uuid_format_def s Let_def using lens by (simp add: slice_def)
qed

section \<open>Versions and times\<close>

lemma set_version_simps:
  assumes "length b = 16"
  shows "length (set_version v b) = 16" "take 6 (set_version v b) = take 6 b"
    "set_version v b ! 6 = v OR (b ! 6 AND 0x0F)" "set_version v b ! 8 = 0x80 OR (b ! 8 AND 0x3F)"
  using assms by (simp_all add: set_version_def Let_def)

lemma set_version_bits:
  assumes "length b = 16" "v \<in> {0x50, 0x70}"
  shows "drop_bit 6 (set_version v b ! 8) = 2" "drop_bit 4 (set_version v b ! 6) = drop_bit 4 v"
  using assms by (auto simp: set_version_simps drop_bit_or drop_bit_and)

lemma take_le_bytes: "k \<le> n \<Longrightarrow> take k (le_bytes n v) = le_bytes k v"
proof (induction n arbitrary: k v)
  case (Suc n)
  then show ?case by (cases k) auto
qed simp

lemma le_val_zeros: "le_val (bs @ replicate n 0) = le_val bs"
proof (induction bs)
  case Nil
  show ?case by (induction n) auto
qed auto

lemma v7_time_val:
  assumes "0 \<le> ms" "ms < 2 ^ 48"
  shows "sint (get_u64_be ([0, 0] @ v7_time ms)) = ms"
proof -
  define n where "n = nat ms"
  have n: "ms = int n" "n < 2 ^ 48" using assms by (simp_all add: n_def nat_less_iff)
  have u: "unat (of_int (max ms 0) :: 64 word) = n" using n by (simp add: unat_of_nat)
  have "v7_time ms = drop 2 (rev (le_bytes 8 n))"
    unfolding v7_time_def put_u64_be_def u by (simp add: be_bytes_def slice_def)
  then have "rev (v7_time ms) = le_bytes 6 n" by (simp add: rev_drop take_le_bytes)
  then have "be_val ([0, 0] @ v7_time ms) = n"
    using le_val_zeros [of "le_bytes 6 n" "Suc (Suc 0)"] n(2) by (simp add: be_val_def)
  then have "get_u64_be ([0, 0] @ v7_time ms) = of_int ms" by (simp add: get_u64_be_def n(1))
  then show ?thesis using assms by (simp add: signed_of_int signed_take_bit_int_eq_self)
qed

lemma length_v7_time [simp]: "length (v7_time ms) = 6"
  by (simp add: v7_time_def)

lemma parse_NewV7:
  assumes "length rnd = 10"
  shows "parseCanonical (NewV7 rnd ms) = Some (set_version 0x70 (v7_time ms @ rnd))"
  unfolding NewV7_def using assms by (intro parse_uuid_format) (simp add: set_version_simps)

lemma parse_UUIDv5:
  assumes "\<forall>m. length (sha1 m) = 20"
  obtains b where "length b = 16" "parseCanonical (UUIDv5 sha1 name) = Some (set_version 0x50 b)"
proof -
  have len: "length (take 16 (sha1 m)) = 16" for m using assms by simp
  show thesis
    unfolding UUIDv5_def Let_def
    by (rule that [OF len], unfold UUIDv5_def Let_def, rule parse_uuid_format, simp only: set_version_simps [OF len])
qed

section \<open>Injectivity of the preimage\<close>

lemma put_fields_inject:
  "put_fields fs = Inr out \<Longrightarrow> put_fields gs = Inr out \<Longrightarrow> length fs = length gs \<Longrightarrow> fs = gs"
proof (induction fs arbitrary: gs out)
  case (Cons f fs)
  then obtain g gs' where gs: "gs = g # gs'" by (cases gs) auto
  obtain o1 o2 where o: "put_fields fs = Inr o1" "put_fields gs' = Inr o2"
    and out: "out = put_u32_be (of_nat (length f)) @ f @ o1" "out = put_u32_be (of_nat (length g)) @ g @ o2"
    and len: "length f < 2 ^ 32" "length g < 2 ^ 32"
    using Cons.prems by (auto simp: gs split: if_splits sum.splits)
  have eq: "put_u32_be (of_nat (length f)) = put_u32_be (of_nat (length g))" "f @ o1 = g @ o2"
    using out by simp_all
  then have "(of_nat (length f) :: 32 word) = of_nat (length g)" using get_put_be(2) by metis
  then have "unat (of_nat (length f) :: 32 word) = unat (of_nat (length g) :: 32 word)" by simp
  then have "length f = length g" using len by (simp add: unat_of_nat)
  then show ?case using eq(2) Cons.IH [of o1 gs'] o Cons.prems(3) by (simp add: gs)
qed simp

lemma v5_bits:
  assumes "\<forall>m. length (sha1 m) = 20"
  shows "\<exists>c. parseCanonical (UUIDv5 sha1 nm) = Some c \<and> drop_bit 6 (c ! 8) = 2 \<and> drop_bit 4 (c ! 6) = 5"
  by (rule parse_UUIDv5 [OF assms, of nm]) (use set_version_bits in auto)

lemma SOSIDValid_v5:
  assumes "\<forall>m. length (sha1 m) = 20" "bridge \<noteq> []" "0 \<le> start"
  shows "SOSIDValid sha1 (UUIDv5 sha1 (bridge @ '':'' @ FormatInt start)) bridge start"
  using v5_bits [OF assms(1), of "bridge @ '':'' @ FormatInt start"] assms(2,3) by (auto simp: SOSIDValid_def IDValid_def)

section \<open>Properties\<close>



text \<open>C40: The preimage of the content digest determines everything it covers: two messages with
  the same preimage have the same id, recipient, content type, deadline and body, so the digests
  of two different messages differ unless SHA-256 collides.\<close>

theorem content_preimage_injective:
  assumes "ContentPreimage mid recipient ctype expires body = Inr p"
    and "ContentPreimage mid' recipient' ctype' expires' body' = Inr p"
    and "expires < 2 ^ 63" "expires' < 2 ^ 63"
  shows "mid = mid' \<and> recipient = recipient' \<and> ctype = ctype' \<and> expires = expires' \<and> body = body'"
proof -
  obtain m m' where m: "parseCanonical mid = Some m" "parseCanonical mid' = Some m'"
    and pos: "0 \<le> expires" "0 \<le> expires'"
    and f: "put_fields [str_bytes ContentTag, m, str_bytes recipient, str_bytes ctype, put_u64_be (of_int expires), body] = Inr p"
      "put_fields [str_bytes ContentTag, m', str_bytes recipient', str_bytes ctype', put_u64_be (of_int expires'), body'] = Inr p"
    using assms(1,2) unfolding ContentPreimage_def by (auto simp only: split: option.splits if_splits)
  have eq: "m = m'" "recipient = recipient'" "ctype = ctype'" "put_u64_be (of_int expires) = put_u64_be (of_int expires')" "body = body'"
    using put_fields_inject [OF f] by simp_all
  have "mid = mid'" using parseCanonical_SomeD(2) m eq(1) by metis
  moreover have "(of_int expires :: 64 word) = of_int expires'" using eq(4) get_put_be(3) by metis
  then have "uint (of_int expires :: 64 word) = uint (of_int expires' :: 64 word)" by simp
  then have "expires = expires'"
    using pos assms(3,4) by (simp add: uint_word_of_int_eq take_bit_int_eq_self)
  ultimately show ?thesis using eq by simp
qed

theorem content_preimage_injective_witness:
  "let mid = uuid_format (replicate 16 0) in
   \<exists>p. ContentPreimage mid ''bridge:a'' ''t'' 5 [1] = Inr p \<and> ContentPreimage mid ''bridge:'' ''at'' 5 [1] \<noteq> Inr p"
proof -
  have "parseCanonical (uuid_format (replicate 16 0)) = Some (replicate 16 0)" by (rule parse_uuid_format) simp
  then obtain p where "ContentPreimage (uuid_format (replicate 16 0)) ''bridge:a'' ''t'' 5 [1] = Inr p"
    by (simp add: ContentPreimage_def ContentTag_def)
  then show ?thesis
    using content_preimage_injective [of "uuid_format (replicate 16 0)" "''bridge:a''" "''t''" 5 "[1]" p
        "uuid_format (replicate 16 0)" "''bridge:''" "''at''" 5 "[1]"]
    by (auto simp: Let_def)
qed

end
