(* ===== verification/HubStore.thy ===== *)
theory HubStore
  imports Prelude
begin

text \<open>
  The tables of the app route \<open>hub_msg\<close> and their operations
  (\<open>internal/store/msgops.go\<close>, \<open>internal/store/sqlite/msgops.go\<close>). A table is the list of
  its rows in the order of insertion; each operation is one transaction, given the database's
  clock where it reads it. Time columns hold whole seconds. Rows that a query leaves in no
  particular order come in the order of insertion. Failures of the database are not modelled,
  except for the uniqueness of the revisions of an operation.
\<close>

section \<open>Rows\<close>

text \<open>What a time is after \<open>fmtTime\<close> and \<open>parseTime\<close>: whole seconds.\<close>

definition col_time :: "instant \<Rightarrow> instant" where
  "col_time t = t div 1000000000 * 1000000000"

definition UnixMilli :: "instant \<Rightarrow> int" where
  "UnixMilli t = t div 1000000"

text \<open>Go's zero time, the first of January of the year 1.\<close>

definition zero_time :: instant where
  "zero_time = - 62135596800 * 1000000000"

record MsgOp =
  mo_TenantID :: string
  mo_Sender :: string
  mo_OpID :: string
  mo_Mid :: string
  mo_Recipient :: string
  mo_ContentType :: string
  mo_MidExpiresAt :: int
  mo_ExpiresAt :: int
  mo_ContentSHA256 :: string
  mo_Body :: bytes
  mo_State :: string
  mo_Conflict :: bool
  mo_Rev :: nat
  mo_Attempts :: nat
  mo_NextAttemptAt :: instant
  mo_LeasedUntil :: instant
  mo_RecipientAnswer :: string
  mo_CreatedAt :: instant
  mo_UpdatedAt :: instant

record MsgOpEvent =
  me_TenantID :: string
  me_Sender :: string
  me_OpID :: string
  me_EventID :: string
  me_Rev :: nat
  me_Class :: string
  me_Kind :: string
  me_Reason :: string
  me_Authority :: string
  me_Scope :: string
  me_Detail :: string
  me_At :: instant
  me_PublishedAt :: "instant option"

record MsgMid =
  mm_TenantID :: string
  mm_Sender :: string
  mm_Mid :: string
  mm_ContentSHA256 :: string
  mm_CreatedAt :: instant

record MsgTables =
  msg_operations :: "MsgOp list"
  msg_mids :: "MsgMid list"
  msg_op_events :: "MsgOpEvent list"

definition no_tables :: MsgTables where
  "no_tables = \<lparr>msg_operations = [], msg_mids = [], msg_op_events = []\<rparr>"

type_synonym op_key = "string \<times> string \<times> string"

definition mo_key :: "MsgOp \<Rightarrow> op_key" where
  "mo_key o1 = (mo_TenantID o1, mo_Sender o1, mo_OpID o1)"

definition me_key :: "MsgOpEvent \<Rightarrow> op_key" where
  "me_key e = (me_TenantID e, me_Sender e, me_OpID e)"

definition MsgOpTerminal :: "string \<Rightarrow> bool" where
  "MsgOpTerminal state \<longleftrightarrow> state = ''completed'' \<or> state = ''failed'' \<or> state = ''expired''"

section \<open>Operations\<close>

definition GetMsgOp :: "op_key \<Rightarrow> MsgTables \<Rightarrow> MsgOp option" where
  "GetMsgOp k d = find (\<lambda>o1. mo_key o1 = k) (msg_operations d)"

definition upd_op :: "op_key \<Rightarrow> (MsgOp \<Rightarrow> MsgOp) \<Rightarrow> MsgTables \<Rightarrow> MsgTables" where
  "upd_op k f d = d\<lparr>msg_operations := map (\<lambda>o1. if mo_key o1 = k then f o1 else o1) (msg_operations d)\<rparr>"

definition mid_row :: "string \<Rightarrow> string \<Rightarrow> string \<Rightarrow> MsgMid list \<Rightarrow> MsgMid option" where
  "mid_row tenant sender mid rows = find (\<lambda>m. mm_TenantID m = tenant \<and> mm_Sender m = sender \<and> mm_Mid m = mid) rows"

datatype MsgOpAdmission = MsgOpAdmitted MsgOp | MsgOpExisting MsgOp | MsgOpMidConflict

text \<open>\<open>AdmitMsgOp\<close>: the sender's mid, then the key, in one transaction; only an admitted
  operation is committed.\<close>

definition AdmitMsgOp :: "instant \<Rightarrow> MsgOp \<Rightarrow> MsgTables \<Rightarrow> MsgOpAdmission \<times> MsgTables" where
  "AdmitMsgOp dbnow op d =
     (let mids = (case mid_row (mo_TenantID op) (mo_Sender op) (mo_Mid op) (msg_mids d) of
                    Some m \<Rightarrow> msg_mids d
                  | None \<Rightarrow> msg_mids d @ [\<lparr>mm_TenantID = mo_TenantID op, mm_Sender = mo_Sender op, mm_Mid = mo_Mid op,
                      mm_ContentSHA256 = mo_ContentSHA256 op, mm_CreatedAt = col_time dbnow\<rparr>])
      in case GetMsgOp (mo_key op) d of
           Some existing \<Rightarrow> (MsgOpExisting existing, d)
         | None \<Rightarrow>
             if map_option mm_ContentSHA256 (mid_row (mo_TenantID op) (mo_Sender op) (mo_Mid op) mids) \<noteq> Some (mo_ContentSHA256 op)
             then (MsgOpMidConflict, d)
             else let op = op\<lparr>mo_State := (if mo_State op = [] then ''pending'' else mo_State op),
                        mo_NextAttemptAt := (if mo_NextAttemptAt op = zero_time then dbnow else mo_NextAttemptAt op),
                        mo_CreatedAt := dbnow, mo_UpdatedAt := dbnow\<rparr>
                  in (MsgOpAdmitted op,
                      d\<lparr>msg_mids := mids,
                        msg_operations := msg_operations d @ [op\<lparr>mo_NextAttemptAt := col_time (mo_NextAttemptAt op),
                          mo_LeasedUntil := 0, mo_CreatedAt := col_time dbnow, mo_UpdatedAt := col_time dbnow\<rparr>]\<rparr>))"

definition ListMsgOpEvents :: "op_key \<Rightarrow> MsgTables \<Rightarrow> MsgOpEvent list" where
  "ListMsgOpEvents k d = sort_key me_Rev (filter (\<lambda>e. me_key e = k) (msg_op_events d))"

datatype add_result = OpNotFound | EventKnown | RevTaken | EventAdded

text \<open>\<open>AddMsgOpEvent\<close>: the event gets the operation's next revision, and the projection of all
  its events becomes the operation's state.\<close>

definition AddMsgOpEvent :: "instant \<Rightarrow> MsgOpEvent \<Rightarrow> (MsgOpEvent list \<Rightarrow> string \<times> bool) \<Rightarrow> MsgTables \<Rightarrow> add_result \<times> MsgTables" where
  "AddMsgOpEvent dbnow ev project d =
     (case GetMsgOp (me_key ev) d of
        None \<Rightarrow> (OpNotFound, d)
      | Some o1 \<Rightarrow>
          if \<exists>e \<in> set (msg_op_events d). me_EventID e = me_EventID ev then (EventKnown, d)
          else let ev = ev\<lparr>me_Rev := mo_Rev o1 + 1, me_At := col_time (if me_At ev = zero_time then dbnow else me_At ev),
                          me_PublishedAt := None\<rparr>
               in if \<exists>e \<in> set (msg_op_events d). me_key e = me_key ev \<and> me_Rev e = me_Rev ev then (RevTaken, d)
                  else let d = d\<lparr>msg_op_events := msg_op_events d @ [ev]\<rparr>;
                           (state, conflict) = project (ListMsgOpEvents (me_key ev) d)
                       in (EventAdded, upd_op (me_key ev)
                            (\<lambda>o1. o1\<lparr>mo_State := state, mo_Conflict := conflict, mo_Rev := me_Rev ev,
                                   mo_UpdatedAt := col_time dbnow\<rparr>) d))"

definition row_limit :: "int \<Rightarrow> nat \<Rightarrow> nat" where
  "row_limit limit dflt = (if limit \<le> 0 then dflt else nat limit)"

definition due :: "instant \<Rightarrow> MsgOp \<Rightarrow> bool" where
  "due now o1 \<longleftrightarrow> mo_RecipientAnswer o1 = [] \<and> \<not> MsgOpTerminal (mo_State o1) \<and> mo_NextAttemptAt o1 \<le> col_time now \<and>
     mo_LeasedUntil o1 < col_time now \<and> UnixMilli now < mo_ExpiresAt o1"

definition ListDueMsgOps :: "instant \<Rightarrow> int \<Rightarrow> MsgTables \<Rightarrow> MsgOp list" where
  "ListDueMsgOps now limit d =
     take (row_limit limit 50) (sort_key mo_NextAttemptAt (sort_key mo_CreatedAt (filter (due now) (msg_operations d))))"

definition ClaimMsgOp :: "instant \<Rightarrow> op_key \<Rightarrow> instant \<Rightarrow> instant \<Rightarrow> MsgTables \<Rightarrow> bool \<times> MsgTables" where
  "ClaimMsgOp dbnow k now until d =
     (let free = (\<lambda>o1. mo_key o1 = k \<and> mo_LeasedUntil o1 < col_time now)
      in (length (filter free (msg_operations d)) = 1,
          d\<lparr>msg_operations := map (\<lambda>o1. if free o1 then o1\<lparr>mo_LeasedUntil := col_time until, mo_UpdatedAt := col_time dbnow\<rparr>
                                     else o1) (msg_operations d)\<rparr>))"

definition MarkMsgOpAttempt :: "instant \<Rightarrow> op_key \<Rightarrow> instant \<Rightarrow> MsgTables \<Rightarrow> MsgTables" where
  "MarkMsgOpAttempt dbnow k nxt d =
     upd_op k (\<lambda>o1. o1\<lparr>mo_Attempts := mo_Attempts o1 + 1, mo_NextAttemptAt := col_time nxt, mo_LeasedUntil := 0,
                     mo_UpdatedAt := col_time dbnow\<rparr>) d"

definition SetMsgOpRecipientAnswer :: "instant \<Rightarrow> op_key \<Rightarrow> string \<Rightarrow> MsgTables \<Rightarrow> MsgTables" where
  "SetMsgOpRecipientAnswer dbnow k answer d =
     upd_op k (\<lambda>o1. o1\<lparr>mo_RecipientAnswer := answer, mo_UpdatedAt := col_time dbnow\<rparr>) d"

definition overdue :: "instant \<Rightarrow> MsgOp \<Rightarrow> bool" where
  "overdue now o1 \<longleftrightarrow> \<not> MsgOpTerminal (mo_State o1) \<and> mo_ExpiresAt o1 \<le> UnixMilli now"

definition ListExpiredMsgOps :: "instant \<Rightarrow> int \<Rightarrow> MsgTables \<Rightarrow> MsgOp list" where
  "ListExpiredMsgOps now limit d =
     take (row_limit limit 50) (sort_key mo_ExpiresAt (filter (overdue now) (msg_operations d)))"

definition ListUnpublishedMsgOpEvents :: "int \<Rightarrow> MsgTables \<Rightarrow> MsgOpEvent list" where
  "ListUnpublishedMsgOpEvents limit d =
     take (row_limit limit 100) (sort_key me_At (sort_key me_Rev (filter (\<lambda>e. me_PublishedAt e = None) (msg_op_events d))))"

definition MarkMsgOpEventsPublished :: "string list \<Rightarrow> instant \<Rightarrow> MsgTables \<Rightarrow> MsgTables" where
  "MarkMsgOpEventsPublished ids at d =
     d\<lparr>msg_op_events := map (\<lambda>e. if me_EventID e \<in> set ids then e\<lparr>me_PublishedAt := Some (col_time at)\<rparr> else e) (msg_op_events d)\<rparr>"

definition ReplayMsgOpEvents :: "op_key \<Rightarrow> MsgTables \<Rightarrow> nat \<times> MsgTables" where
  "ReplayMsgOpEvents k d =
     (length (filter (\<lambda>e. me_key e = k) (msg_op_events d)),
      d\<lparr>msg_op_events := map (\<lambda>e. if me_key e = k then e\<lparr>me_PublishedAt := None\<rparr> else e) (msg_op_events d)\<rparr>)"

definition PruneMsgOps :: "instant \<Rightarrow> MsgTables \<Rightarrow> nat \<times> MsgTables" where
  "PruneMsgOps cutoff d =
     (let old = (\<lambda>o1. mo_ExpiresAt o1 < UnixMilli cutoff);
          events = filter (\<lambda>e. \<not> (\<exists>o1 \<in> set (msg_operations d). mo_key o1 = me_key e \<and> old o1)) (msg_op_events d);
          ops = filter (\<lambda>o1. \<not> old o1) (msg_operations d);
          mids = filter (\<lambda>m. \<not> (mm_CreatedAt m < col_time cutoff \<and>
            \<not> (\<exists>o1 \<in> set ops. mo_TenantID o1 = mm_TenantID m \<and> mo_Sender o1 = mm_Sender m \<and> mo_Mid o1 = mm_Mid m))) (msg_mids d)
      in (length (filter old (msg_operations d)), \<lparr>msg_operations = ops, msg_mids = mids, msg_op_events = events\<rparr>))"

section \<open>Rows and keys\<close>

text \<open>An operation without the columns the outbox and the evidence change.\<close>

definition core :: "MsgOp \<Rightarrow> MsgOp" where
  "core o1 = o1\<lparr>mo_State := [], mo_Conflict := False, mo_Rev := 0, mo_Attempts := 0, mo_NextAttemptAt := 0,
     mo_LeasedUntil := 0, mo_RecipientAnswer := [], mo_UpdatedAt := 0\<rparr>"

lemma core_fields:
  assumes "core o1 = core o2"
  shows "mo_TenantID o1 = mo_TenantID o2" "mo_Sender o1 = mo_Sender o2" "mo_OpID o1 = mo_OpID o2" "mo_Mid o1 = mo_Mid o2"
    "mo_Recipient o1 = mo_Recipient o2" "mo_ContentType o1 = mo_ContentType o2" "mo_MidExpiresAt o1 = mo_MidExpiresAt o2"
    "mo_ExpiresAt o1 = mo_ExpiresAt o2" "mo_ContentSHA256 o1 = mo_ContentSHA256 o2" "mo_Body o1 = mo_Body o2"
    "mo_CreatedAt o1 = mo_CreatedAt o2" "mo_key o1 = mo_key o2"
  using assms by (cases o1; cases o2; simp add: core_def mo_key_def)+

text \<open>An update that leaves the core, the state, the conflict mark and the revision alone.\<close>

definition soft :: "(MsgOp \<Rightarrow> MsgOp) \<Rightarrow> bool" where
  "soft f \<longleftrightarrow> (\<forall>o1. core (f o1) = core o1 \<and> mo_State (f o1) = mo_State o1 \<and> mo_Conflict (f o1) = mo_Conflict o1 \<and>
     mo_Rev (f o1) = mo_Rev o1)"

lemma GetMsgOp_SomeD: "GetMsgOp k d = Some o1 \<Longrightarrow> o1 \<in> set (msg_operations d) \<and> mo_key o1 = k"
  by (auto simp: GetMsgOp_def find_Some_iff)

lemma GetMsgOp_None: "GetMsgOp k d = None \<longleftrightarrow> k \<notin> mo_key ` set (msg_operations d)"
  by (auto simp: GetMsgOp_def find_None_iff)

lemma GetMsgOp_eq:
  assumes "distinct (map mo_key (msg_operations d))" "o1 \<in> set (msg_operations d)"
  shows "GetMsgOp (mo_key o1) d = Some o1"
proof (cases "GetMsgOp (mo_key o1) d")
  case None
  then show ?thesis using assms(2) by (simp add: GetMsgOp_None)
next
  case (Some o2)
  then show ?thesis using GetMsgOp_SomeD [OF Some] assms by (simp add: distinct_map inj_on_def)
qed

lemma upd_op_simps [simp]:
  "msg_op_events (upd_op k f d) = msg_op_events d" "msg_mids (upd_op k f d) = msg_mids d"
  "msg_operations (upd_op k f d) = map (\<lambda>o1. if mo_key o1 = k then f o1 else o1) (msg_operations d)"
  by (simp_all add: upd_op_def)

lemma ListMsgOpEvents_sorted:
  assumes "map me_Rev (filter (\<lambda>e. me_key e = k) (msg_op_events d)) = [1..<n]"
  shows "ListMsgOpEvents k d = filter (\<lambda>e. me_key e = k) (msg_op_events d)"
proof -
  have "sorted (map me_Rev (filter (\<lambda>e. me_key e = k) (msg_op_events d)))" unfolding assms by simp
  then show ?thesis by (simp add: ListMsgOpEvents_def sort_key_id_if_sorted)
qed

lemma row_limit_pos: "0 < limit \<Longrightarrow> row_limit limit n = nat limit"
  by (simp add: row_limit_def)

lemma set_ListDue: "set (ListDueMsgOps now limit d) \<subseteq> {o1 \<in> set (msg_operations d). due now o1}"
  unfolding ListDueMsgOps_def using set_take_subset by fastforce

lemma set_ListExpired: "set (ListExpiredMsgOps now limit d) \<subseteq> {o1 \<in> set (msg_operations d). overdue now o1}"
  unfolding ListExpiredMsgOps_def using set_take_subset by fastforce

lemma set_ListUnpublished: "set (ListUnpublishedMsgOpEvents limit d) \<subseteq> set (msg_op_events d)"
  unfolding ListUnpublishedMsgOpEvents_def using set_take_subset by fastforce

end
