(* ===== verification/HubEvidence.thy ===== *)
theory HubEvidence
  imports HubIds HubStore "HOL-Library.Char_ord" "HOL-Library.List_Lexorder"
begin

text \<open>
  The evidence about an operation of \<open>hub_msg\<close> (\<open>internal/hubmsg/reducer.go\<close>,
  \<open>events.go\<close>): which events may join it, the state they reduce to, and the events the hub
  itself records. SHA-256 is an argument. \<open>held\<close> is the list of the events kept, the first
  one per id; sets of strings are lists without repetition.
\<close>

section \<open>The reducer\<close>

record Event =
  ev_V :: int
  ev_Source :: string
  ev_OpID :: string
  ev_Mid :: string
  ev_Recipient :: string
  ev_EventID :: string
  ev_Rev :: nat
  ev_Class :: string
  ev_Kind :: string
  ev_Reason :: string
  ev_Authority :: string
  ev_Scope :: string
  ev_Detail :: string
  ev_At :: instant

record Operation =
  opn_OpID :: string
  opn_Mid :: string
  opn_Recipient :: string

record Projection =
  pj_State :: string
  pj_Conflict :: bool
  pj_FailedReasons :: "string list"
  pj_Evidence :: "string list"
  pj_Rejected :: "string list"

definition allowedKinds :: "(string \<times> string \<times> string) list" where
  "allowedKinds =
    [(''hub_broker_puback'', ''accepted'', ''local''), (''hub_forwarded'', ''forwarded'', ''hub''),
     (''recipient_app_stored'', ''completed'', ''recipient''), (''recipient_refused'', ''failed'', ''recipient''),
     (''recipient_refused'', ''expired'', ''recipient''), (''hub_refused'', ''failed'', ''hub''),
     (''hub_expired'', ''expired'', ''hub''), (''hub_unknown'', ''unknown'', ''hub''),
     (''recipient_busy'', ''unknown'', ''recipient'')]"

definition SourceOf :: "string \<Rightarrow> string" where
  "SourceOf authority =
     (if authority = ''local'' then ''local''
      else if authority = ''hub'' \<or> authority = ''recipient'' then ''status_topic'' else [])"

definition ProjectionOrder :: "string list" where
  "ProjectionOrder = [''completed'', ''failed'', ''expired'', ''forwarded'', ''unknown'', ''accepted'', ''pending'']"

definition Valid :: "Operation \<Rightarrow> Event \<Rightarrow> bool" where
  "Valid op e \<longleftrightarrow> ev_OpID e = opn_OpID op \<and> ev_Mid e = opn_Mid op \<and> ev_Recipient e = opn_Recipient op \<and>
     (ev_Kind e, ev_Class e, ev_Authority e) \<in> set allowedKinds \<and> SourceOf (ev_Authority e) \<noteq> [] \<and>
     SourceOf (ev_Authority e) = ev_Source e \<and> ValidV7 (ev_EventID e)"

definition collect_event :: "Operation \<Rightarrow> Event \<Rightarrow> Event list \<times> string list \<Rightarrow> Event list \<times> string list" where
  "collect_event op e hr =
     (let (held, rejected) = hr
      in if Valid op e then (if ev_EventID e \<in> ev_EventID ` set held then (held, rejected) else (held @ [e], rejected))
         else (held, List.insert (ev_EventID e) rejected))"

definition sort_Strings :: "string list \<Rightarrow> string list" where
  "sort_Strings xs = sort (remdups xs)"

definition strongest :: "string list \<Rightarrow> string" where
  "strongest classes = (case find (\<lambda>c. c \<in> set classes) ProjectionOrder of Some c \<Rightarrow> c | None \<Rightarrow> ''pending'')"

definition failure_reasons :: "Event list \<Rightarrow> string list" where
  "failure_reasons held = map ev_Reason (filter (\<lambda>e. (ev_Class e = ''failed'' \<or> ev_Class e = ''expired'') \<and> ev_Reason e \<noteq> []) held)"

definition Reduce :: "Operation \<Rightarrow> Event list \<Rightarrow> Projection" where
  "Reduce op events =
     (let (held, rejected) = fold (collect_event op) events ([], []);
          classes = map ev_Class held
      in \<lparr>pj_State = strongest classes, pj_Conflict = (''completed'' \<in> set classes \<and> ''failed'' \<in> set classes),
          pj_FailedReasons = sort_Strings (failure_reasons held),
          pj_Evidence = sort_Strings (map ev_EventID held),
          pj_Rejected = sort_Strings (filter (\<lambda>i. i \<notin> ev_EventID ` set held) rejected)\<rparr>)"

section \<open>The hub's events\<close>

definition scopeHub :: string where "scopeHub = ''the Hub''"
definition scopeRecipient :: string where "scopeRecipient = ''the recipient's MeshSat app''"

text \<open>Each field with its length in front (the length fits: ids and codes are short).\<close>

definition id_field :: "string \<Rightarrow> bytes" where
  "id_field f = put_u32_be (of_nat (min (length f) (2 ^ 32 - 1))) @ str_bytes f"

definition EventIDFor :: "(bytes \<Rightarrow> bytes) \<Rightarrow> MsgOp \<Rightarrow> string \<Rightarrow> string \<Rightarrow> string \<Rightarrow> string" where
  "EventIDFor sha256 op kind class reason =
     (let sum = sha256 (concat (map id_field [mo_TenantID op, mo_Sender op, mo_OpID op, kind, class, reason]))
      in uuid_format (set_version 0x70 (v7_time (UnixMilli (mo_CreatedAt op)) @ take 10 sum)))"

definition NewEvent :: "(bytes \<Rightarrow> bytes) \<Rightarrow> MsgOp \<Rightarrow> string \<Rightarrow> string \<Rightarrow> string \<Rightarrow> string \<Rightarrow> string \<Rightarrow> instant \<Rightarrow> MsgOpEvent" where
  "NewEvent sha256 op kind class authority reason detail at =
     \<lparr>me_TenantID = mo_TenantID op, me_Sender = mo_Sender op, me_OpID = mo_OpID op,
      me_EventID = EventIDFor sha256 op kind class reason, me_Rev = 0, me_Class = class, me_Kind = kind,
      me_Reason = reason, me_Authority = authority,
      me_Scope = (if authority = ''recipient'' then scopeRecipient else scopeHub), me_Detail = detail, me_At = at,
      me_PublishedAt = None\<rparr>"

definition Wire :: "MsgOp \<Rightarrow> MsgOpEvent \<Rightarrow> Event" where
  "Wire op e =
     \<lparr>ev_V = 1, ev_Source = [], ev_OpID = me_OpID e, ev_Mid = mo_Mid op, ev_Recipient = mo_Recipient op,
      ev_EventID = me_EventID e, ev_Rev = me_Rev e, ev_Class = me_Class e, ev_Kind = me_Kind e, ev_Reason = me_Reason e,
      ev_Authority = me_Authority e, ev_Scope = me_Scope e, ev_Detail = me_Detail e, ev_At = me_At e\<rparr>"

definition Project :: "MsgOp \<Rightarrow> MsgOpEvent list \<Rightarrow> string \<times> bool" where
  "Project op evs =
     (let ref = \<lparr>opn_OpID = mo_OpID op, opn_Mid = mo_Mid op, opn_Recipient = mo_Recipient op\<rparr>;
          p = Reduce ref (map (\<lambda>e. (Wire op e)\<lparr>ev_Source := SourceOf (me_Authority e)\<rparr>) evs)
      in (pj_State p, pj_Conflict p))"

record Refusal =
  rf_OpID :: string
  rf_Mid :: string
  rf_Reason :: string

record Delivery =
  dl_OpID :: string
  dl_Mid :: string
  dl_From :: string
  dl_To :: string
  dl_ContentType :: string
  dl_MidExpiresAt :: int
  dl_ExpiresAt :: int
  dl_ContentSHA256 :: string
  dl_Body :: bytes

definition DeliveryOf :: "MsgOp \<Rightarrow> Delivery" where
  "DeliveryOf op =
     \<lparr>dl_OpID = mo_OpID op, dl_Mid = mo_Mid op, dl_From = mo_Sender op, dl_To = mo_Recipient op,
      dl_ContentType = mo_ContentType op, dl_MidExpiresAt = mo_MidExpiresAt op, dl_ExpiresAt = mo_ExpiresAt op,
      dl_ContentSHA256 = mo_ContentSHA256 op, dl_Body = mo_Body op\<rparr>"

record Ack =
  ak_V :: int
  ak_OpID :: string
  ak_Mid :: string
  ak_From :: string
  ak_Result :: string
  ak_Reason :: string

definition recipientReasons :: "string list" where
  "recipientReasons = [''op_conflict'', ''mid_conflict'', ''digest_mismatch'', ''bad_expiry'', ''bad_id'',
     ''expired_at_recipient'', ''receiver_busy'']"

text \<open>Kind, class, reason and the answer the outbox records; \<open>None\<close> for an answer that is not
  one of the contract's.\<close>

definition AckEvidence :: "Ack \<Rightarrow> (string \<times> string \<times> string \<times> string) option" where
  "AckEvidence a =
     (if ak_Result a = ''stored'' \<and> ak_Reason a = [] then Some (''recipient_app_stored'', ''completed'', [], ''stored'')
      else if ak_Result a = ''refused'' \<and> ak_Reason a = ''receiver_busy''
      then Some (''recipient_busy'', ''unknown'', ''receiver_busy'', [])
      else if ak_Result a = ''refused'' \<and> ak_Reason a = ''expired_at_recipient''
      then Some (''recipient_refused'', ''expired'', ak_Reason a, ''refused'')
      else if ak_Result a = ''refused'' \<and> ak_Reason a \<in> set recipientReasons
      then Some (''recipient_refused'', ''failed'', ak_Reason a, ''refused'')
      else None)"

section \<open>What the reducer computes\<close>

text \<open>The specification: only the set of events counts.\<close>

definition evidence :: "Operation \<Rightarrow> Event set \<Rightarrow> Event set" where
  "evidence op E = {e \<in> E. Valid op e}"

definition reduce_spec :: "Operation \<Rightarrow> Event set \<Rightarrow> Projection" where
  "reduce_spec op E =
     (let V = evidence op E
      in \<lparr>pj_State = (case find (\<lambda>c. c \<in> ev_Class ` V) ProjectionOrder of Some c \<Rightarrow> c | None \<Rightarrow> ''pending''),
          pj_Conflict = (''completed'' \<in> ev_Class ` V \<and> ''failed'' \<in> ev_Class ` V),
          pj_FailedReasons = sorted_list_of_set {ev_Reason e | e. e \<in> V \<and> ev_Class e \<in> {''failed'', ''expired''} \<and> ev_Reason e \<noteq> []},
          pj_Evidence = sorted_list_of_set (ev_EventID ` V),
          pj_Rejected = sorted_list_of_set (ev_EventID ` (E - V) - ev_EventID ` V)\<rparr>)"

text \<open>No two valid events of the same id differ in class or reason.\<close>

definition coherent :: "Operation \<Rightarrow> Event set \<Rightarrow> bool" where
  "coherent op E \<longleftrightarrow> (\<forall>e \<in> evidence op E. \<forall>e' \<in> evidence op E. ev_EventID e = ev_EventID e' \<longrightarrow>
     ev_Class e = ev_Class e' \<and> ev_Reason e = ev_Reason e')"

lemma sort_Strings_set: "sort_Strings xs = sorted_list_of_set (set xs)"
  by (simp add: sort_Strings_def sorted_list_of_set_sort_remdups)

lemma fold_collect:
  assumes "fold (collect_event op) es (h, r) = (h', r')" "set h \<subseteq> evidence op E" "set es \<subseteq> E"
  shows "set h' \<subseteq> evidence op E \<and> ev_EventID ` set h' = ev_EventID ` (set h \<union> evidence op (set es)) \<and>
    set r' = set r \<union> ev_EventID ` (set es - evidence op (set es))"
  using assms
proof (induction es arbitrary: h r)
  case (Cons e es)
  obtain h1 r1 where st: "collect_event op e (h, r) = (h1, r1)" by fastforce
  have h1: "set h1 \<subseteq> evidence op E" "ev_EventID ` set h1 = ev_EventID ` (set h \<union> evidence op {e})"
    "set r1 = set r \<union> ev_EventID ` ({e} - evidence op {e})"
    using st Cons.prems(2,3) by (auto simp: collect_event_def evidence_def split: if_splits)
  have "set h' \<subseteq> evidence op E \<and> ev_EventID ` set h' = ev_EventID ` (set h1 \<union> evidence op (set es)) \<and>
      set r' = set r1 \<union> ev_EventID ` (set es - evidence op (set es))"
    using Cons.IH [OF _ h1(1)] Cons.prems st by simp
  moreover have "evidence op (set (e # es)) = evidence op {e} \<union> evidence op (set es)"
    "set (e # es) - evidence op (set (e # es)) = ({e} - evidence op {e}) \<union> (set es - evidence op (set es))"
    by (auto simp: evidence_def)
  ultimately show ?case using h1(2,3) by (simp add: image_Un Un_ac)
qed (auto simp: evidence_def)

lemma coherent_image:
  assumes "coherent op E" "H \<subseteq> evidence op E" "ev_EventID ` H = ev_EventID ` evidence op E"
  shows "(\<lambda>e. (ev_EventID e, ev_Class e, ev_Reason e)) ` H = (\<lambda>e. (ev_EventID e, ev_Class e, ev_Reason e)) ` evidence op E"
proof (intro equalityI subsetI)
  fix x assume "x \<in> (\<lambda>e. (ev_EventID e, ev_Class e, ev_Reason e)) ` evidence op E"
  then obtain e where e: "e \<in> evidence op E" "x = (ev_EventID e, ev_Class e, ev_Reason e)" by blast
  then obtain h where h: "h \<in> H" "ev_EventID h = ev_EventID e" using assms(3) by (metis image_iff)
  then have "ev_Class h = ev_Class e \<and> ev_Reason h = ev_Reason e"
    using assms(1,2) e(1) unfolding coherent_def by blast
  with e h show "x \<in> (\<lambda>e. (ev_EventID e, ev_Class e, ev_Reason e)) ` H" by (intro image_eqI [of _ _ h]) simp_all
qed (use assms(2) in blast)

lemma Reduce_spec:
  assumes "coherent op (set es)"
  shows "Reduce op es = reduce_spec op (set es)"
proof -
  obtain h r where f: "fold (collect_event op) es ([], []) = (h, r)" by fastforce
  let ?V = "evidence op (set es)" and ?t = "\<lambda>e. (ev_EventID e, ev_Class e, ev_Reason e)"
  have h: "set h \<subseteq> ?V" "ev_EventID ` set h = ev_EventID ` ?V" "set r = ev_EventID ` (set es - ?V)"
    using fold_collect [OF f, of "set es"] by auto
  have t: "?t ` set h = ?t ` ?V" by (rule coherent_image [OF assms h(1,2)])
  have cls: "ev_Class ` set h = ev_Class ` ?V"
    using arg_cong [OF t, of "\<lambda>A. (\<lambda>x. fst (snd x)) ` A"] by (simp add: image_image)
  let ?R = "\<lambda>A. {ev_Reason e | e. e \<in> A \<and> ev_Class e \<in> {''failed'', ''expired''} \<and> ev_Reason e \<noteq> []}"
  have form: "?R A = (\<lambda>x. snd (snd x)) ` {x \<in> ?t ` A. fst (snd x) \<in> {''failed'', ''expired''} \<and> snd (snd x) \<noteq> []}" for A
    by force
  have "set (failure_reasons h) = ?R (set h)" by (auto simp: failure_reasons_def)
  then have rs: "set (failure_reasons h) = ?R ?V" unfolding form t .
  have rj: "set (filter (\<lambda>i. i \<notin> ev_EventID ` ?V) r) = ev_EventID ` (set es - ?V) - ev_EventID ` ?V"
    using h(3) by auto
  show ?thesis
    unfolding Reduce_def f reduce_spec_def Let_def strongest_def prod.case sort_Strings_set rs set_map h(2) cls rj
    by simp
qed

lemma Valid_class: "Valid op e \<Longrightarrow> ev_Class e \<in> set ProjectionOrder"
  by (auto simp: Valid_def allowedKinds_def ProjectionOrder_def)

definition rank :: "string \<Rightarrow> nat" where
  "rank c = length (takeWhile (\<lambda>d. d \<noteq> c) ProjectionOrder)"

lemma rank_find:
  "rank (case find P ProjectionOrder of Some c \<Rightarrow> c | None \<Rightarrow> ''pending'') =
    (case find P ProjectionOrder of Some c \<Rightarrow> length (takeWhile (\<lambda>d. \<not> P d) ProjectionOrder) | None \<Rightarrow> 6)"
  by (simp add: ProjectionOrder_def rank_def)

lemma rank_find_mono:
  assumes "\<And>c. P c \<Longrightarrow> Q c"
  shows "rank (case find Q ProjectionOrder of Some c \<Rightarrow> c | None \<Rightarrow> ''pending'') \<le>
    rank (case find P ProjectionOrder of Some c \<Rightarrow> c | None \<Rightarrow> ''pending'')"
  using assms by (auto simp: ProjectionOrder_def rank_def)

lemma reduce_spec_mono:
  "E \<subseteq> F \<Longrightarrow> rank (pj_State (reduce_spec op F)) \<le> rank (pj_State (reduce_spec op E))"
  unfolding reduce_spec_def Let_def Projection.simps by (rule rank_find_mono) (auto simp: evidence_def)

section \<open>The hub's own events\<close>

lemma EventIDFor_valid:
  assumes "\<forall>m. length (sha256 m) = 32"
  shows "ValidV7 (EventIDFor sha256 op kind class reason)"
proof -
  define b where "b = v7_time (UnixMilli (mo_CreatedAt op)) @
    take 10 (sha256 (concat (map id_field [mo_TenantID op, mo_Sender op, mo_OpID op, kind, class, reason])))"
  have len: "length b = 16" using assms by (simp add: b_def)
  have eq: "EventIDFor sha256 op kind class reason = uuid_format (set_version 0x70 b)"
    by (simp add: EventIDFor_def b_def Let_def)
  have "parseCanonical (EventIDFor sha256 op kind class reason) = Some (set_version 0x70 b)"
    unfolding eq by (rule parse_uuid_format) (rule set_version_simps(1) [OF len])
  then show ?thesis using set_version_bits [OF len, of "0x70"] by (simp add: ValidV7_def)
qed

lemma AckEvidence_allowed:
  "AckEvidence a = Some (kind, class, reason, answer) \<Longrightarrow> (kind, class, ''recipient'') \<in> set allowedKinds"
  by (auto simp: AckEvidence_def allowedKinds_def split: if_splits)

section \<open>Properties\<close>

text \<open>C24: The reducer depends on the set of the events only. Whatever the order and however
  often each event arrives, it gives the strongest class among the events that may join the
  operation's evidence, the conflict mark exactly when one completed and another one failed it,
  and the sorted lists of the failure reasons, of the ids of the evidence and of the ids that
  were refused and are not in the evidence; and more evidence never gives a weaker state. The
  hypothesis is that valid events of the same id agree in class and reason.\<close>

theorem reduce_order_independent:
  assumes "coherent op (set es)"
  shows "Reduce op es = reduce_spec op (set es) \<and>
    (set es' \<subseteq> set es \<longrightarrow> rank (pj_State (Reduce op es)) \<le> rank (pj_State (Reduce op es')))"
proof -
  have "rank (pj_State (Reduce op es)) \<le> rank (pj_State (Reduce op es'))" if sub: "set es' \<subseteq> set es"
  proof -
    have "coherent op (set es')" using assms sub unfolding coherent_def evidence_def by blast
    with assms sub show ?thesis by (simp only: Reduce_spec reduce_spec_mono)
  qed
  with Reduce_spec [OF assms] show ?thesis by blast
qed

definition demo_event :: "string \<Rightarrow> string \<Rightarrow> Event" where
  "demo_event kind class =
     \<lparr>ev_V = 1, ev_Source = ''status_topic'', ev_OpID = ''op'', ev_Mid = ''m'', ev_Recipient = ''bridge:b'',
      ev_EventID = NewV7 (replicate 10 0) 5, ev_Rev = 1, ev_Class = class, ev_Kind = kind, ev_Reason = [],
      ev_Authority = ''recipient'', ev_Scope = [], ev_Detail = [], ev_At = 0\<rparr>"

definition demo_operation :: Operation where
  "demo_operation = \<lparr>opn_OpID = ''op'', opn_Mid = ''m'', opn_Recipient = ''bridge:b''\<rparr>"

lemma ValidV7_NewV7: "length rnd = 10 \<Longrightarrow> ValidV7 (NewV7 rnd ms)"
  unfolding ValidV7_def parse_NewV7 using set_version_bits [of "v7_time ms @ rnd" "0x70"] by simp

lemma demo_event_simps:
  "ev_EventID (demo_event kind class) = NewV7 (replicate 10 0) 5" "ev_Class (demo_event kind class) = class"
  by (simp_all add: demo_event_def)

lemma demo_valid:
  "(kind, class, ''recipient'') \<in> set allowedKinds \<Longrightarrow> Valid demo_operation (demo_event kind class)"
  by (simp add: Valid_def demo_event_def demo_operation_def SourceOf_def ValidV7_NewV7)

theorem reduce_order_independent_witness:
  "pj_State (Reduce demo_operation
     [demo_event ''recipient_app_stored'' ''completed'', demo_event ''recipient_app_stored'' ''completed'']) = ''completed''"
proof -
  let ?e = "demo_event ''recipient_app_stored'' ''completed''"
  have v: "Valid demo_operation ?e" by (rule demo_valid) (simp add: allowedKinds_def)
  then have "evidence demo_operation {?e} = {?e}" by (auto simp: evidence_def)
  moreover have "coherent demo_operation (set [?e, ?e])" by (simp add: coherent_def evidence_def)
  ultimately show ?thesis
    using reduce_order_independent [of demo_operation "[?e, ?e]"]
    by (simp add: reduce_spec_def ProjectionOrder_def demo_event_def)
qed

text \<open>Without the hypothesis the order counts: of two valid events with one id the first wins.\<close>

lemma reduce_first_wins:
  "let e = demo_event ''recipient_app_stored'' ''completed''; f = demo_event ''recipient_refused'' ''failed''
   in pj_State (Reduce demo_operation [e, f]) = ''completed'' \<and> pj_State (Reduce demo_operation [f, e]) = ''failed''"
proof -
  have "Valid demo_operation (demo_event ''recipient_app_stored'' ''completed'')"
    "Valid demo_operation (demo_event ''recipient_refused'' ''failed'')"
    by (rule demo_valid, simp add: allowedKinds_def)+
  then have "fold (collect_event demo_operation) [demo_event ''recipient_app_stored'' ''completed'',
        demo_event ''recipient_refused'' ''failed''] ([], []) = ([demo_event ''recipient_app_stored'' ''completed''], [])"
    "fold (collect_event demo_operation) [demo_event ''recipient_refused'' ''failed'',
        demo_event ''recipient_app_stored'' ''completed''] ([], []) = ([demo_event ''recipient_refused'' ''failed''], [])"
    by (simp_all add: collect_event_def demo_event_simps)
  then show ?thesis
    unfolding Let_def Reduce_def by (simp only: prod.case Projection.simps list.map demo_event_simps) (simp add: strongest_def ProjectionOrder_def)
qed

end
