(* ===== verification/HubMsg.thy ===== *)
theory HubMsg
  imports HubEvidence
begin

text \<open>
  The app route \<open>hub_msg\<close> (\<open>internal/hubmsg/submission.go\<close>, \<open>service.go\<close>): the ingress rules of
  a submission, the recipient's answer, and the outbox that expires, delivers and reports. A
  step is one call of a handler or one pass of the outbox. What a step meets is its
  environment: the hub's and the database's clock, read once per step, which bridges exist (or
  that the lookup fails), and on which topics the broker takes a publication. Payloads are
  values, and JSON that does not parse is \<open>None\<close>; logging, metrics and timeouts are left out.
\<close>

section \<open>Submissions\<close>

record hashes =
  sha1 :: "bytes \<Rightarrow> bytes"
  sha256 :: "bytes \<Rightarrow> bytes"

definition ContentTypeText :: string where "ContentTypeText = ''text/plain;charset=utf-8''"
definition MaxBody :: nat where "MaxBody = 16 * 1024"

record Submission =
  sb_V :: int
  sb_OpID :: string
  sb_Mid :: string
  sb_To :: string
  sb_ContentType :: string
  sb_MidExpiresAt :: int
  sb_ExpiresAt :: int
  sb_ContentSHA256 :: string
  sb_Body :: bytes

record Verdict =
  vd_Result :: string
  vd_Reason :: string

definition refused :: "string \<Rightarrow> Verdict" where
  "refused reason = \<lparr>vd_Result = ''refused'', vd_Reason = reason\<rparr>"

definition BridgeOf :: "string \<Rightarrow> string" where
  "BridgeOf pr =
     (if take 7 pr \<noteq> ''bridge:'' then []
      else let b = drop 7 pr
           in if b = [] \<or> CHR ''/'' \<in> set b \<or> CHR ''+'' \<in> set b \<or> CHR ''#'' \<in> set b then [] else b)"

definition Check :: "hashes \<Rightarrow> Submission \<Rightarrow> string" where
  "Check H s =
     (if \<not> IDValid (sha1 H) (sb_OpID s) ''op_id'' no_context \<or> \<not> IDValid (sha1 H) (sb_Mid s) ''mid'' no_context then ''bad_id''
      else if ContentSHA256 (sha256 H) (sb_Mid s) (sb_To s) (sb_ContentType s) (sb_MidExpiresAt s) (sb_Body s)
        \<noteq> Inr (sb_ContentSHA256 s) then ''digest_mismatch''
      else if sb_ExpiresAt s > sb_MidExpiresAt s then ''bad_expiry''
      else if sb_V s \<noteq> 1 then ''bad_version''
      else if BridgeOf (sb_To s) = [] then ''bad_recipient''
      else if sb_ContentType s \<noteq> ContentTypeText then ''bad_content_type''
      else if length (sb_Body s) > MaxBody then ''too_large''
      else [])"

definition sameImmutable :: "MsgOp \<Rightarrow> Submission \<Rightarrow> bool" where
  "sameImmutable o1 s \<longleftrightarrow> mo_Recipient o1 = sb_To s \<and> mo_Mid o1 = sb_Mid s \<and> mo_ContentSHA256 o1 = sb_ContentSHA256 s \<and>
     mo_ExpiresAt o1 = sb_ExpiresAt s"

definition repeatVerdict :: "MsgOp \<Rightarrow> Submission \<Rightarrow> Verdict" where
  "repeatVerdict o1 s = (if sameImmutable o1 s then \<lparr>vd_Result = ''replay_all_events'', vd_Reason = []\<rparr> else refused ''op_conflict'')"

definition new_op :: "string \<Rightarrow> string \<Rightarrow> Submission \<Rightarrow> instant \<Rightarrow> MsgOp" where
  "new_op tenant sender s now =
     \<lparr>mo_TenantID = tenant, mo_Sender = sender, mo_OpID = sb_OpID s, mo_Mid = sb_Mid s, mo_Recipient = sb_To s,
      mo_ContentType = sb_ContentType s, mo_MidExpiresAt = sb_MidExpiresAt s, mo_ExpiresAt = sb_ExpiresAt s,
      mo_ContentSHA256 = sb_ContentSHA256 s, mo_Body = sb_Body s, mo_State = ''pending'', mo_Conflict = False, mo_Rev = 0,
      mo_Attempts = 0, mo_NextAttemptAt = now, mo_LeasedUntil = zero_time, mo_RecipientAnswer = [],
      mo_CreatedAt = zero_time, mo_UpdatedAt = zero_time\<rparr>"

text \<open>\<open>None\<close> is an error: nothing was decided.\<close>

definition Submit :: "hashes \<Rightarrow> string \<Rightarrow> string \<Rightarrow> Submission \<Rightarrow> instant \<Rightarrow> instant \<Rightarrow> (string \<Rightarrow> bool option) \<Rightarrow> MsgTables
    \<Rightarrow> (Verdict \<times> MsgOp option) option \<times> MsgTables" where
  "Submit H tenant sender s now dbnow known d =
     (if Check H s \<noteq> [] then (Some (refused (Check H s), None), d)
      else case GetMsgOp (tenant, sender, sb_OpID s) d of
        Some o1 \<Rightarrow> (Some (repeatVerdict o1 s, Some o1), d)
      | None \<Rightarrow>
          if UnixMilli now > sb_ExpiresAt s then (Some (refused ''expired_at_hub'', None), d)
          else case known (sb_To s) of
            None \<Rightarrow> (None, d)
          | Some False \<Rightarrow> (Some (refused ''refused_unknown_recipient'', None), d)
          | Some True \<Rightarrow>
              (case AdmitMsgOp dbnow (new_op tenant sender s now) d of
                 (MsgOpAdmitted op, d) \<Rightarrow> (Some (\<lparr>vd_Result = ''admitted'', vd_Reason = []\<rparr>, Some op), d)
               | (MsgOpMidConflict, d) \<Rightarrow> (Some (refused ''mid_conflict'', None), d)
               | (MsgOpExisting o1, d) \<Rightarrow> (Some (repeatVerdict o1 s, Some o1), d)))"

section \<open>The service\<close>

datatype payload = PRefusal Refusal | PDelivery Delivery | PEvent Event

record Hub =
  hb_tables :: MsgTables
  hb_published :: "(string \<times> payload) list"

record environment =
  en_now :: instant
  en_db :: instant
  en_bridge :: "string \<Rightarrow> string \<Rightarrow> bool option"
  en_bus :: "string \<Rightarrow> bool"

abbreviation (input) "second \<equiv> 1000000000 :: int"

definition SkewAllowance :: int where "SkewAllowance = 120 * second"
definition KeepAfter :: int where "KeepAfter = 24 * 3600 * second"
definition Lease :: int where "Lease = 30 * second"

function backoff_loop :: "int \<Rightarrow> int \<Rightarrow> int \<Rightarrow> int" where
  "backoff_loop i n d = (if i < n \<and> d < 5 * 60 * second then backoff_loop (i + 1) n (d * 2) else d)"
  by pat_completeness auto
termination by (relation "measure (\<lambda>(i, n, d). nat (n - i))") auto

definition Backoff :: "int \<Rightarrow> int" where
  "Backoff n = (let d = backoff_loop 1 n (15 * second) in if d > 5 * 60 * second then 5 * 60 * second else d)"

text \<open>The waits in seconds. The fifth is 240 s, where the comment of \<open>Backoff\<close> has the cap of five
  minutes follow the 120 s.\<close>

lemma Backoff_values: "map (\<lambda>n. Backoff n div second) [1, 2, 3, 4, 5, 6] = [15, 30, 60, 120, 240, 300]"
  by (simp add: Backoff_def Let_def)

definition bridge_principal :: "string \<Rightarrow> string" where
  "bridge_principal bridgeID = ''bridge:'' @ bridgeID"

definition publish :: "environment \<Rightarrow> string \<Rightarrow> payload \<Rightarrow> Hub \<Rightarrow> bool \<times> Hub" where
  "publish E topic p h = (if en_bus E topic then (True, h\<lparr>hb_published := hb_published h @ [(topic, p)]\<rparr>) else (False, h))"

definition refuse :: "environment \<Rightarrow> string \<Rightarrow> string \<Rightarrow> string \<Rightarrow> string \<Rightarrow> string \<Rightarrow> Hub \<Rightarrow> Hub" where
  "refuse E tenant bridgeID opID mid reason h =
     snd (publish E (TopicMsgStatusFor tenant bridgeID) (PRefusal \<lparr>rf_OpID = opID, rf_Mid = mid, rf_Reason = reason\<rparr>) h)"

definition HandleOut :: "hashes \<Rightarrow> environment \<Rightarrow> string \<Rightarrow> Submission option \<Rightarrow> Hub \<Rightarrow> Hub" where
  "HandleOut H E topic json h =
     (case ParseMsgTopic topic of
        None \<Rightarrow> h
      | Some (tenant, bridgeID, kind) \<Rightarrow>
          if kind \<noteq> ''out'' then h
          else case json of
            None \<Rightarrow> refuse E tenant bridgeID [] [] ''bad_json'' h
          | Some sub \<Rightarrow>
              let (v, d) = Submit H tenant (bridge_principal bridgeID) sub (en_now E) (en_db E)
                    (\<lambda>recipient. en_bridge E tenant (BridgeOf recipient)) (hb_tables h);
                  h = h\<lparr>hb_tables := d\<rparr>
              in case v of
                   None \<Rightarrow> h
                 | Some (v, o1) \<Rightarrow>
                     if vd_Result v = ''replay_all_events'' then
                       h\<lparr>hb_tables := snd (ReplayMsgOpEvents (tenant, bridge_principal bridgeID, sb_OpID sub) d)\<rparr>
                     else if vd_Result v = ''refused'' then refuse E tenant bridgeID (sb_OpID sub) (sb_Mid sub) (vd_Reason v) h
                     else h)"

definition record_event :: "hashes \<Rightarrow> environment \<Rightarrow> MsgOp \<Rightarrow> string \<Rightarrow> string \<Rightarrow> string \<Rightarrow> string \<Rightarrow> MsgTables
    \<Rightarrow> add_result \<times> MsgTables" where
  "record_event H E op kind class authority reason d =
     AddMsgOpEvent (en_db E) (NewEvent (sha256 H) op kind class authority reason [] (en_now E)) (Project op) d"

definition HandleAck :: "hashes \<Rightarrow> environment \<Rightarrow> string \<Rightarrow> Ack option \<Rightarrow> Hub \<Rightarrow> Hub" where
  "HandleAck H E topic json h =
     (case ParseMsgTopic topic of
        None \<Rightarrow> h
      | Some (tenant, bridgeID, kind) \<Rightarrow>
          if kind \<noteq> ''ack'' then h
          else case json of
            None \<Rightarrow> h
          | Some a \<Rightarrow>
              if ak_V a \<noteq> 1 then h
              else case GetMsgOp (tenant, ak_From a, ak_OpID a) (hb_tables h) of
                None \<Rightarrow> h
              | Some op \<Rightarrow>
                  if mo_Recipient op \<noteq> bridge_principal bridgeID \<or> mo_Mid op \<noteq> ak_Mid a then h
                  else case AckEvidence a of
                    None \<Rightarrow> h
                  | Some (evKind, class, reason, answer) \<Rightarrow>
                      let (res, d) = record_event H E op evKind class ''recipient'' reason (hb_tables h)
                      in if res = OpNotFound \<or> res = RevTaken then h
                         else h\<lparr>hb_tables := (if answer \<noteq> []
                                then SetMsgOpRecipientAnswer (en_db E) (mo_key op) answer d else d)\<rparr>)"

definition expire :: "hashes \<Rightarrow> environment \<Rightarrow> Hub \<Rightarrow> Hub" where
  "expire H E h =
     h\<lparr>hb_tables := fold (\<lambda>op d. snd (record_event H E op ''hub_expired'' ''expired'' ''hub'' ''expired'' d))
        (ListExpiredMsgOps (en_now E) 100 (hb_tables h)) (hb_tables h)\<rparr>"

definition deliver_op :: "hashes \<Rightarrow> environment \<Rightarrow> MsgOp \<Rightarrow> Hub \<Rightarrow> Hub" where
  "deliver_op H E op h =
     (let k = mo_key op; now = en_now E;
          (won, d) = ClaimMsgOp (en_db E) k now (now + Lease) (hb_tables h);
          h = h\<lparr>hb_tables := d\<rparr>
      in if \<not> won then h
         else let rid = BridgeOf (mo_Recipient op)
              in case en_bridge E (mo_TenantID op) rid of
                   None \<Rightarrow> h\<lparr>hb_tables := MarkMsgOpAttempt (en_db E) k (now + Backoff 1) d\<rparr>
                 | Some False \<Rightarrow>
                     h\<lparr>hb_tables := MarkMsgOpAttempt (en_db E) k (now + 3600 * second)
                        (snd (record_event H E op ''hub_refused'' ''failed'' ''hub'' ''refused_unknown_recipient'' d))\<rparr>
                 | Some True \<Rightarrow>
                     (case publish E (TopicMsgInFor (mo_TenantID op) rid) (PDelivery (DeliveryOf op)) h of
                        (False, h) \<Rightarrow> h\<lparr>hb_tables := MarkMsgOpAttempt (en_db E) k (now + Backoff 1) d\<rparr>
                      | (True, h) \<Rightarrow>
                          h\<lparr>hb_tables := MarkMsgOpAttempt (en_db E) k (now + Backoff (int (mo_Attempts op) + 1))
                             (snd (record_event H E op ''hub_forwarded'' ''forwarded'' ''hub'' [] d))\<rparr>))"

definition deliver :: "hashes \<Rightarrow> environment \<Rightarrow> Hub \<Rightarrow> Hub" where
  "deliver H E h = fold (deliver_op H E) (ListDueMsgOps (en_now E) 50 (hb_tables h)) h"

fun publish_events :: "environment \<Rightarrow> MsgOpEvent list \<Rightarrow> Hub \<Rightarrow> string list \<times> Hub" where
  "publish_events E [] h = ([], h)"
| "publish_events E (e # evs) h =
     (case GetMsgOp (me_key e) (hb_tables h) of
        None \<Rightarrow> publish_events E evs h
      | Some op \<Rightarrow>
          (case publish E (TopicMsgStatusFor (me_TenantID e) (BridgeOf (me_Sender e))) (PEvent (Wire op e)) h of
             (False, h) \<Rightarrow> ([], h)
           | (True, h) \<Rightarrow> (let (ids, h) = publish_events E evs h in (me_EventID e # ids, h))))"

definition publishStatus :: "environment \<Rightarrow> Hub \<Rightarrow> Hub" where
  "publishStatus E h =
     (let (ids, h) = publish_events E (ListUnpublishedMsgOpEvents 200 (hb_tables h)) h
      in h\<lparr>hb_tables := MarkMsgOpEventsPublished ids (en_now E) (hb_tables h)\<rparr>)"

definition prune :: "environment \<Rightarrow> Hub \<Rightarrow> Hub" where
  "prune E h = h\<lparr>hb_tables := snd (PruneMsgOps (en_now E - KeepAfter - SkewAllowance) (hb_tables h))\<rparr>"

text \<open>One step of the hub.\<close>

datatype hub_event = OutMsg string "Submission option" | AckMsg string "Ack option"
  | ExpirePass | DeliverPass | StatusPass | PrunePass

definition hub_step :: "hashes \<Rightarrow> environment \<times> hub_event \<Rightarrow> Hub \<Rightarrow> Hub" where
  "hub_step H ee h =
     (let (E, ev) = ee
      in case ev of
           OutMsg topic json \<Rightarrow> HandleOut H E topic json h
         | AckMsg topic json \<Rightarrow> HandleAck H E topic json h
         | ExpirePass \<Rightarrow> expire H E h
         | DeliverPass \<Rightarrow> deliver H E h
         | StatusPass \<Rightarrow> publishStatus E h
         | PrunePass \<Rightarrow> prune E h)"

definition new_hub :: Hub where
  "new_hub = \<lparr>hb_tables = no_tables, hb_published = []\<rparr>"

end
