(* ===== verification/HubRun.thy ===== *)
theory HubRun
  imports HubMsg
begin

text \<open>
  Runs of the app route \<open>hub_msg\<close>. The abstract view is a transition relation on the tables:
  an operation is admitted, evidence is recorded, columns of the outbox are touched,
  publication marks change, old rows are pruned. Every step of the hub is a sequence of such
  transitions, an invariant of the tables holds along them, and so do the properties of every
  run. \<open>subs\<close> and \<open>acks\<close> are the submissions and answers seen so far, with the principal the
  topic names.
\<close>

section \<open>Transitions of the tables\<close>

text \<open>The operation is what the submission asked for.\<close>

definition op_from :: "hashes \<Rightarrow> Submission \<Rightarrow> MsgOp \<Rightarrow> bool" where
  "op_from H s o1 \<longleftrightarrow> Check H s = [] \<and> mo_OpID o1 = sb_OpID s \<and> mo_Mid o1 = sb_Mid s \<and> mo_Recipient o1 = sb_To s \<and>
     mo_ContentType o1 = sb_ContentType s \<and> mo_MidExpiresAt o1 = sb_MidExpiresAt s \<and> mo_ExpiresAt o1 = sb_ExpiresAt s \<and>
     mo_ContentSHA256 o1 = sb_ContentSHA256 s \<and> mo_Body o1 = sb_Body s"

text \<open>The answer names the operation and says that the recipient stored it.\<close>

definition stored_ack :: "MsgOp \<Rightarrow> Ack \<Rightarrow> bool" where
  "stored_ack o1 a \<longleftrightarrow> ak_From a = mo_Sender o1 \<and> ak_OpID a = mo_OpID o1 \<and> ak_Mid a = mo_Mid o1 \<and> ak_Result a = ''stored''"

type_synonym subs = "(string \<times> string \<times> Submission) set"
type_synonym acks = "(string \<times> string \<times> Ack) set"

definition submitted :: "hashes \<Rightarrow> subs \<Rightarrow> MsgOp \<Rightarrow> bool" where
  "submitted H subs o1 \<longleftrightarrow> (\<exists>s. (mo_TenantID o1, mo_Sender o1, s) \<in> subs \<and> op_from H s o1)"

definition acknowledged :: "acks \<Rightarrow> MsgOp \<Rightarrow> bool" where
  "acknowledged acks o1 \<longleftrightarrow> (\<exists>a. (mo_TenantID o1, mo_Recipient o1, a) \<in> acks \<and> stored_ack o1 a)"

definition mm_key :: "MsgMid \<Rightarrow> string \<times> string \<times> string" where
  "mm_key m = (mm_TenantID m, mm_Sender m, mm_Mid m)"

definition mid_has :: "MsgMid list \<Rightarrow> MsgOp \<Rightarrow> bool" where
  "mid_has mids o1 \<longleftrightarrow> (\<exists>m \<in> set mids. mm_key m = (mo_TenantID o1, mo_Sender o1, mo_Mid o1) \<and>
     mm_ContentSHA256 m = mo_ContentSHA256 o1)"

inductive table_step :: "hashes \<Rightarrow> subs \<Rightarrow> acks \<Rightarrow> MsgTables \<Rightarrow> MsgTables \<Rightarrow> bool" for H subs acks where
  admit: "submitted H subs o1 \<Longrightarrow> mo_State o1 = ''pending'' \<Longrightarrow> \<not> mo_Conflict o1 \<Longrightarrow> mo_Rev o1 = 0 \<Longrightarrow>
    GetMsgOp (mo_key o1) d = None \<Longrightarrow> set (msg_mids d) \<subseteq> set mids \<Longrightarrow>
    (distinct (map mm_key (msg_mids d)) \<longrightarrow> distinct (map mm_key mids)) \<Longrightarrow> mid_has mids o1 \<Longrightarrow>
    table_step H subs acks d (d\<lparr>msg_mids := mids, msg_operations := msg_operations d @ [o1]\<rparr>)"
| evidenced: "core op \<in> core ` set (msg_operations d) \<Longrightarrow> (kind, class, authority) \<in> set allowedKinds \<Longrightarrow>
    authority \<noteq> ''local'' \<Longrightarrow> (class = ''completed'' \<longrightarrow> acknowledged acks op) \<Longrightarrow>
    table_step H subs acks d (snd (AddMsgOpEvent db (NewEvent (sha256 H) op kind class authority reason detail at) (Project op) d))"
| touch: "soft f \<Longrightarrow> table_step H subs acks d (d\<lparr>msg_operations := map f (msg_operations d)\<rparr>)"
| flag: "table_step H subs acks d (d\<lparr>msg_op_events := map (\<lambda>e. e\<lparr>me_PublishedAt := p e\<rparr>) (msg_op_events d)\<rparr>)"
| prune_old: "table_step H subs acks d (snd (PruneMsgOps cutoff d))"

section \<open>The invariant\<close>

definition event_ok :: "hashes \<Rightarrow> acks \<Rightarrow> MsgOp \<Rightarrow> MsgOpEvent \<Rightarrow> bool" where
  "event_ok H acks o1 e \<longleftrightarrow> me_key e = mo_key o1 \<and>
     me_EventID e = EventIDFor (sha256 H) o1 (me_Kind e) (me_Class e) (me_Reason e) \<and>
     (me_Kind e, me_Class e, me_Authority e) \<in> set allowedKinds \<and> me_Authority e \<noteq> ''local'' \<and>
     (me_Class e = ''completed'' \<longrightarrow> acknowledged acks o1)"

definition op_events :: "op_key \<Rightarrow> MsgTables \<Rightarrow> MsgOpEvent list" where
  "op_events k d = filter (\<lambda>e. me_key e = k) (msg_op_events d)"

definition op_ok :: "hashes \<Rightarrow> subs \<Rightarrow> MsgTables \<Rightarrow> MsgOp \<Rightarrow> bool" where
  "op_ok H subs d o1 \<longleftrightarrow> submitted H subs o1 \<and> mid_has (msg_mids d) o1 \<and>
     (mo_State o1, mo_Conflict o1) = Project o1 (op_events (mo_key o1) d) \<and>
     map me_Rev (op_events (mo_key o1) d) = [1..<Suc (mo_Rev o1)]"

definition tables_inv :: "hashes \<Rightarrow> subs \<Rightarrow> acks \<Rightarrow> MsgTables \<Rightarrow> bool" where
  "tables_inv H subs acks d \<longleftrightarrow>
     distinct (map mo_key (msg_operations d)) \<and> distinct (map mm_key (msg_mids d)) \<and>
     distinct (map me_EventID (msg_op_events d)) \<and>
     (\<forall>o1 \<in> set (msg_operations d). op_ok H subs d o1) \<and>
     (\<forall>e \<in> set (msg_op_events d). \<exists>o1 \<in> set (msg_operations d). event_ok H acks o1 e)"

lemma inv_event_key:
  "tables_inv H subs acks d \<Longrightarrow> e \<in> set (msg_op_events d) \<Longrightarrow> me_key e \<in> mo_key ` set (msg_operations d)"
  unfolding tables_inv_def event_ok_def by blast

lemma core_cong:
  assumes "core o1 = core o2"
  shows "Project o1 = Project o2" "EventIDFor h o1 = EventIDFor h o2" "submitted H subs o1 = submitted H subs o2"
    "acknowledged acks o1 = acknowledged acks o2" "mid_has mids o1 = mid_has mids o2" "event_ok H acks o1 e = event_ok H acks o2 e"
    "DeliveryOf o1 = DeliveryOf o2" "Wire o1 e = Wire o2 e"
proof -
  note f = core_fields [OF assms]
  show E: "EventIDFor h o1 = EventIDFor h o2" for h by (simp add: EventIDFor_def f fun_eq_iff)
  show W: "Wire o1 e = Wire o2 e" for e by (simp add: Wire_def f)
  show A: "acknowledged acks o1 = acknowledged acks o2" by (simp add: acknowledged_def stored_ack_def f)
  show "Project o1 = Project o2" by (simp add: Project_def W f fun_eq_iff)
  show "submitted H subs o1 = submitted H subs o2" by (simp add: submitted_def op_from_def f)
  show "mid_has mids o1 = mid_has mids o2" by (simp add: mid_has_def f)
  show "event_ok H acks o1 e = event_ok H acks o2 e" by (simp add: event_ok_def E A f)
  show "DeliveryOf o1 = DeliveryOf o2" by (simp add: DeliveryOf_def f)
qed

lemma inv_admit:
  assumes inv: "tables_inv H subs acks d"
    and o1: "submitted H subs o1" "mo_State o1 = ''pending''" "\<not> mo_Conflict o1" "mo_Rev o1 = 0" "GetMsgOp (mo_key o1) d = None"
    and mids: "set (msg_mids d) \<subseteq> set mids" "distinct (map mm_key mids)" "mid_has mids o1"
  shows "tables_inv H subs acks (d\<lparr>msg_mids := mids, msg_operations := msg_operations d @ [o1]\<rparr>)" (is "tables_inv _ _ _ ?d")
proof -
  have new: "mo_key o1 \<notin> mo_key ` set (msg_operations d)" using o1(5) by (simp add: GetMsgOp_None)
  have ev: "op_events k ?d = op_events k d" for k by (simp add: op_events_def)
  have none: "op_events (mo_key o1) d = []"
    using inv_event_key [OF inv] new unfolding op_events_def filter_empty_conv by metis
  have "op_ok H subs ?d o1"
    using o1 mids(3) by (simp add: op_ok_def ev none) (simp add: Project_def Reduce_def strongest_def ProjectionOrder_def)
  moreover have "op_ok H subs ?d o2" if "o2 \<in> set (msg_operations d)" for o2
  proof -
    have "op_ok H subs d o2" using inv that by (simp add: tables_inv_def)
    moreover have "mid_has mids o2" if "mid_has (msg_mids d) o2" using that mids(1) unfolding mid_has_def by blast
    ultimately show ?thesis by (simp add: op_ok_def ev)
  qed
  ultimately show ?thesis using inv new mids(2) by (auto simp: tables_inv_def)
qed

lemma inv_touch:
  assumes inv: "tables_inv H subs acks d" and "soft f"
  shows "tables_inv H subs acks (d\<lparr>msg_operations := map f (msg_operations d)\<rparr>)"
proof -
  have f: "core (f o1) = core o1" "mo_State (f o1) = mo_State o1" "mo_Conflict (f o1) = mo_Conflict o1" "mo_Rev (f o1) = mo_Rev o1" for o1
    using assms(2) by (simp_all add: soft_def)
  have k: "mo_key (f o1) = mo_key o1" for o1 using core_fields(12) [OF f(1)] .
  have "map (\<lambda>o1. mo_key (f o1)) (msg_operations d) = map mo_key (msg_operations d)" using k by simp
  then show ?thesis
    using inv unfolding tables_inv_def op_ok_def op_events_def
    by (auto simp: k f(2-4) core_cong [OF f(1)] o_def)
qed

lemma inv_flag:
  assumes inv: "tables_inv H subs acks d"
  shows "tables_inv H subs acks (d\<lparr>msg_op_events := map (\<lambda>e. e\<lparr>me_PublishedAt := p e\<rparr>) (msg_op_events d)\<rparr>)" (is "tables_inv _ _ _ ?d")
proof -
  let ?g = "\<lambda>e. e\<lparr>me_PublishedAt := p e\<rparr>"
  have key: "me_key (?g e) = me_key e" for e by (simp add: me_key_def)
  have ev: "op_events k ?d = map ?g (op_events k d)" for k
    by (simp add: op_events_def filter_map o_def key)
  have "Wire o1 (?g e) = Wire o1 e" for o1 e by (simp add: Wire_def)
  then have pr: "Project o1 (map ?g es) = Project o1 es" for o1 es by (simp add: Project_def o_def)
  have "event_ok H acks o1 (?g e) = event_ok H acks o1 e" for o1 e by (simp add: event_ok_def key)
  then show ?thesis using inv unfolding tables_inv_def op_ok_def ev pr by (simp add: o_def)
qed

lemma inv_prune:
  assumes inv: "tables_inv H subs acks d"
  shows "tables_inv H subs acks (snd (PruneMsgOps cutoff d))" (is "tables_inv _ _ _ ?d")
proof -
  define old where "old o1 \<longleftrightarrow> mo_ExpiresAt o1 < UnixMilli cutoff" for o1 :: MsgOp
  define gone where "gone e \<longleftrightarrow> (\<exists>o1 \<in> set (msg_operations d). mo_key o1 = me_key e \<and> old o1)" for e
  have ops: "msg_operations ?d = filter (\<lambda>o1. \<not> old o1) (msg_operations d)"
    and evs: "msg_op_events ?d = filter (\<lambda>e. \<not> gone e) (msg_op_events d)"
    by (simp_all add: PruneMsgOps_def Let_def old_def gone_def)
  have uniq: "o1 = o2" if "o1 \<in> set (msg_operations d)" "o2 \<in> set (msg_operations d)" "mo_key o1 = mo_key o2" for o1 o2
    using inv that by (auto simp: tables_inv_def distinct_map inj_on_def)
  have keep: "op_events (mo_key o1) ?d = op_events (mo_key o1) d" if "o1 \<in> set (msg_operations ?d)" for o1
  proof -
    have "\<not> gone e" if "me_key e = mo_key o1" for e
      using uniq \<open>o1 \<in> set (msg_operations ?d)\<close> that unfolding gone_def ops by auto
    then show ?thesis unfolding op_events_def evs filter_filter by (metis (no_types, lifting) filter_cong)
  qed
  have mids: "mid_has (msg_mids ?d) o1" if "o1 \<in> set (msg_operations ?d)" "mid_has (msg_mids d) o1" for o1
    using that unfolding mid_has_def PruneMsgOps_def by (fastforce simp: Let_def mm_key_def)
  have "op_ok H subs ?d o1" if "o1 \<in> set (msg_operations ?d)" for o1
  proof -
    have "op_ok H subs d o1" using inv that by (simp add: tables_inv_def ops)
    then show ?thesis using keep [OF that] mids [OF that] by (simp add: op_ok_def)
  qed
  moreover have "\<exists>o1 \<in> set (msg_operations ?d). event_ok H acks o1 e" if "e \<in> set (msg_op_events ?d)" for e
  proof -
    have "e \<in> set (msg_op_events d)" using that by (simp add: evs)
    then obtain o1 where "o1 \<in> set (msg_operations d)" "event_ok H acks o1 e" using inv unfolding tables_inv_def by blast
    moreover have "\<not> old o1" using calculation that by (auto simp: evs gone_def event_ok_def)
    ultimately show ?thesis by (auto simp: ops)
  qed
  moreover have "distinct (map mm_key (msg_mids ?d))"
    using inv by (simp add: tables_inv_def PruneMsgOps_def Let_def distinct_map_filter)
  ultimately show ?thesis using inv by (simp add: tables_inv_def ops evs distinct_map_filter)
qed

text \<open>Recording evidence: the revision is always free, and the operation gets the projection of
  all its events.\<close>

lemma AddMsgOpEvent_cases:
  assumes inv: "tables_inv H subs acks d" and op: "o1 \<in> set (msg_operations d)" "core op = core o1"
    and ev_def: "ev = NewEvent (sha256 H) op kind class authority reason detail at"
  shows "AddMsgOpEvent db ev (Project op) d = (EventKnown, d) \<and> me_EventID ev \<in> me_EventID ` set (msg_op_events d) \<or>
    me_EventID ev \<notin> me_EventID ` set (msg_op_events d) \<and>
    (\<exists>at'. let ev' = ev\<lparr>me_Rev := mo_Rev o1 + 1, me_At := at', me_PublishedAt := None\<rparr>; es = op_events (mo_key o1) d @ [ev']
      in AddMsgOpEvent db ev (Project op) d =
        (EventAdded, upd_op (mo_key o1) (\<lambda>r. r\<lparr>mo_State := fst (Project op es), mo_Conflict := snd (Project op es),
             mo_Rev := me_Rev ev', mo_UpdatedAt := col_time db\<rparr>) (d\<lparr>msg_op_events := msg_op_events d @ [ev']\<rparr>)))"
proof -
  have key: "me_key ev = mo_key o1" using core_fields(12) [OF op(2)] by (simp add: ev_def NewEvent_def me_key_def mo_key_def)
  have get: "GetMsgOp (me_key ev) d = Some o1" using inv op(1) by (simp add: key GetMsgOp_eq tables_inv_def)
  have revs: "map me_Rev (op_events (mo_key o1) d) = [1..<Suc (mo_Rev o1)]" using inv op(1) by (simp add: tables_inv_def op_ok_def)
  have free: "\<not> (\<exists>e \<in> set (msg_op_events d). me_key e = mo_key o1 \<and> me_Rev e = mo_Rev o1 + 1)"
  proof
    assume "\<exists>e \<in> set (msg_op_events d). me_key e = mo_key o1 \<and> me_Rev e = mo_Rev o1 + 1"
    then have "mo_Rev o1 + 1 \<in> set (map me_Rev (op_events (mo_key o1) d))" by (auto simp: op_events_def image_iff)
    then show False unfolding revs by simp
  qed
  show ?thesis
  proof (cases "me_EventID ev \<in> me_EventID ` set (msg_op_events d)")
    case True
    then have "\<exists>e \<in> set (msg_op_events d). me_EventID e = me_EventID ev" by (metis imageE)
    then show ?thesis using True get by (simp add: AddMsgOpEvent_def)
  next
    case False
    define at' where "at' = col_time (if me_At ev = zero_time then db else me_At ev)"
    define ev' where "ev' = ev\<lparr>me_Rev := mo_Rev o1 + 1, me_At := at', me_PublishedAt := None\<rparr>"
    define d1 where "d1 = d\<lparr>msg_op_events := msg_op_events d @ [ev']\<rparr>"
    have key': "me_key ev' = mo_key o1" "me_Rev ev' = mo_Rev o1 + 1" using key by (simp_all add: ev'_def me_key_def)
    have es: "op_events (mo_key o1) d1 = op_events (mo_key o1) d @ [ev']" by (simp add: op_events_def d1_def key')
    then have "map me_Rev (filter (\<lambda>e. me_key e = mo_key o1) (msg_op_events d1)) = [1..<Suc (Suc (mo_Rev o1))]"
      using revs key'(2) unfolding op_events_def [symmetric] by simp
    then have ls: "ListMsgOpEvents (mo_key o1) d1 = op_events (mo_key o1) d @ [ev']"
      using ListMsgOpEvents_sorted [of "mo_key o1" d1] es unfolding op_events_def by metis
    have unk: "\<not> (\<exists>e \<in> set (msg_op_events d). me_EventID e = me_EventID ev)" using False by (metis imageI)
    have "AddMsgOpEvent db ev (Project op) d =
        (EventAdded, upd_op (mo_key o1) (\<lambda>r. r\<lparr>mo_State := fst (Project op (op_events (mo_key o1) d @ [ev'])),
           mo_Conflict := snd (Project op (op_events (mo_key o1) d @ [ev'])), mo_Rev := me_Rev ev', mo_UpdatedAt := col_time db\<rparr>) d1)"
      unfolding AddMsgOpEvent_def get option.case if_not_P [OF unk] at'_def [symmetric] ev'_def [symmetric] Let_def
        key' if_not_P [OF free] d1_def [symmetric] ls
      by (simp add: case_prod_beta upd_op_def)
    then show ?thesis using False unfolding ev'_def d1_def Let_def by blast
  qed
qed

lemma inv_evidenced:
  assumes inv: "tables_inv H subs acks d"
    and op: "core op \<in> core ` set (msg_operations d)" "(kind, class, authority) \<in> set allowedKinds" "authority \<noteq> ''local''"
      "class = ''completed'' \<longrightarrow> acknowledged acks op"
  shows "tables_inv H subs acks (snd (AddMsgOpEvent db (NewEvent (sha256 H) op kind class authority reason detail at) (Project op) d))"
proof -
  obtain o1 where o1: "o1 \<in> set (msg_operations d)" "core op = core o1" using op(1) by auto
  define ev where "ev = NewEvent (sha256 H) op kind class authority reason detail at"
  from AddMsgOpEvent_cases [OF inv o1 ev_def, of db]
  show ?thesis
  proof (elim disjE conjE exE, goal_cases)
    case 1
    then show ?case using inv by (simp add: ev_def)
  next
    case (2 at')
    define ev' where "ev' = ev\<lparr>me_Rev := mo_Rev o1 + 1, me_At := at', me_PublishedAt := None\<rparr>"
    define es where "es = op_events (mo_key o1) d @ [ev']"
    define f where "f r = r\<lparr>mo_State := fst (Project op es), mo_Conflict := snd (Project op es), mo_Rev := me_Rev ev', mo_UpdatedAt := col_time db\<rparr>"
      for r :: MsgOp
    define d' where "d' = upd_op (mo_key o1) f (d\<lparr>msg_op_events := msg_op_events d @ [ev']\<rparr>)"
    have add: "snd (AddMsgOpEvent db ev (Project op) d) = d'"
      using 2(2) unfolding Let_def ev'_def [symmetric] es_def [symmetric] f_def [symmetric] d'_def [symmetric] by simp
    have kev: "me_key ev' = mo_key o1" and idev: "me_EventID ev' = me_EventID ev" and rev: "me_Rev ev' = Suc (mo_Rev o1)"
      using core_fields(12) [OF o1(2)] by (simp_all add: ev'_def ev_def NewEvent_def me_key_def mo_key_def)
    have c: "core (f r) = core r" for r by (simp add: f_def core_def)
    have kf: "mo_key (f r) = mo_key r" for r by (rule core_fields(12) [OF c])
    have uniq: "r = o1" if "r \<in> set (msg_operations d)" "mo_key r = mo_key o1" for r
      using inv that o1(1) by (auto simp: tables_inv_def distinct_map inj_on_def)
    have evs: "op_events k d' = op_events k d @ (if k = mo_key o1 then [ev'] else [])" for k
      by (simp add: op_events_def d'_def kev)
    have ops: "set (msg_operations d') = (\<lambda>r. if mo_key r = mo_key o1 then f r else r) ` set (msg_operations d)"
      by (simp add: d'_def)
    have ok: "op_ok H subs d r" if "r \<in> set (msg_operations d)" for r using inv that by (simp add: tables_inv_def)
    have mids: "msg_mids d' = msg_mids d" by (simp add: d'_def)
    have es': "op_events (mo_key o1) d' = es" by (simp add: evs es_def)
    have "map me_Rev es = [1..<Suc (Suc (mo_Rev o1))]" using ok [OF o1(1)] by (simp add: op_ok_def es_def rev)
    moreover have "mo_Rev (f o1) = Suc (mo_Rev o1)" "(mo_State (f o1), mo_Conflict (f o1)) = Project op es"
      by (simp_all add: f_def rev)
    ultimately have "op_ok H subs d' (f o1)"
      using ok [OF o1(1)] core_cong [OF c] core_cong(1) [OF o1(2)] unfolding op_ok_def kf es' mids by simp
    moreover have "op_ok H subs d' r" if "r \<in> set (msg_operations d)" "mo_key r \<noteq> mo_key o1" for r
      using ok [OF that(1)] that(2) by (simp add: op_ok_def evs mids)
    ultimately have 1: "\<forall>r \<in> set (msg_operations d'). op_ok H subs d' r" using uniq unfolding ops by auto
    have "event_ok H acks o1 ev'"
      using op o1(2) kev core_cong(2,4) [OF o1(2)] by (simp add: event_ok_def ev'_def ev_def NewEvent_def)
    moreover have "o1 \<in> set (msg_operations d)" by (rule o1(1))
    ultimately have e: "\<forall>e \<in> set (msg_op_events d @ [ev']). \<exists>r \<in> set (msg_operations d). event_ok H acks r e"
      using inv by (auto simp: tables_inv_def)
    have 2: "\<exists>r \<in> set (msg_operations d'). event_ok H acks r e" if "e \<in> set (msg_op_events d')" for e
    proof -
      have "e \<in> set (msg_op_events d @ [ev'])" using that by (simp add: d'_def)
      then obtain r where r: "r \<in> set (msg_operations d)" "event_ok H acks r e" using e by blast
      then have "event_ok H acks (if mo_key r = mo_key o1 then f r else r) e" using core_cong(6) [OF c] by simp
      with r(1) show ?thesis unfolding ops by blast
    qed
    have "map mo_key (msg_operations d') = map mo_key (msg_operations d)" by (simp add: d'_def kf)
    moreover have "distinct (map me_EventID (msg_op_events d'))"
      using inv \<open>me_EventID ev \<notin> me_EventID ` set (msg_op_events d)\<close> idev by (simp add: tables_inv_def d'_def)
    ultimately have "tables_inv H subs acks d'" using inv 1 2 unfolding tables_inv_def mids by simp
    then show ?case unfolding add [symmetric] ev_def .
  qed
qed

theorem table_step_inv:
  "table_step H subs acks d d' \<Longrightarrow> tables_inv H subs acks d \<Longrightarrow> tables_inv H subs acks d'"
proof (induction rule: table_step.induct)
  case (admit o1 d mids)
  then show ?case by (intro inv_admit) (auto simp: tables_inv_def)
qed (auto intro: inv_evidenced inv_touch inv_flag inv_prune)

section \<open>The steps of the hub\<close>

lemma tables_inv_mono:
  assumes "tables_inv H subs acks d" "subs \<subseteq> subs'" "acks \<subseteq> acks'"
  shows "tables_inv H subs' acks' d"
proof -
  have "submitted H subs o1 \<Longrightarrow> submitted H subs' o1" "acknowledged acks o1 \<Longrightarrow> acknowledged acks' o1" for o1
    using assms(2,3) unfolding submitted_def acknowledged_def by blast+
  then show ?thesis using assms(1) unfolding tables_inv_def op_ok_def event_ok_def by blast
qed

text \<open>What the broker was given: a delivery is a submission of the sender it names, on the topic
  of the recipient; a status event goes to the topic of the sender of such a submission.\<close>

fun published_ok :: "hashes \<Rightarrow> subs \<Rightarrow> string \<times> payload \<Rightarrow> bool" where
  "published_ok H subs (topic, PDelivery dl) \<longleftrightarrow>
     (\<exists>tenant s. (tenant, dl_From dl, s) \<in> subs \<and> Check H s = [] \<and> topic = TopicMsgInFor tenant (BridgeOf (sb_To s)) \<and>
        dl = \<lparr>dl_OpID = sb_OpID s, dl_Mid = sb_Mid s, dl_From = dl_From dl, dl_To = sb_To s, dl_ContentType = sb_ContentType s,
              dl_MidExpiresAt = sb_MidExpiresAt s, dl_ExpiresAt = sb_ExpiresAt s, dl_ContentSHA256 = sb_ContentSHA256 s,
              dl_Body = sb_Body s\<rparr>)"
| "published_ok H subs (topic, PEvent e) \<longleftrightarrow>
     (\<exists>tenant sender s. (tenant, sender, s) \<in> subs \<and> topic = TopicMsgStatusFor tenant (BridgeOf sender) \<and>
        ev_OpID e = sb_OpID s \<and> ev_Mid e = sb_Mid s \<and> ev_Recipient e = sb_To s)"
| "published_ok H subs (topic, PRefusal r) \<longleftrightarrow> True"

definition hub_ok :: "hashes \<Rightarrow> subs \<Rightarrow> acks \<Rightarrow> Hub \<Rightarrow> bool" where
  "hub_ok H subs acks h \<longleftrightarrow> tables_inv H subs acks (hb_tables h) \<and> (\<forall>p \<in> set (hb_published h). published_ok H subs p)"

lemma published_ok_mono: "published_ok H subs p \<Longrightarrow> subs \<subseteq> subs' \<Longrightarrow> published_ok H subs' p"
  by (cases "(H, subs, p)" rule: published_ok.cases) (simp_all, blast+)

lemma hub_ok_mono: "hub_ok H subs acks h \<Longrightarrow> subs \<subseteq> subs' \<Longrightarrow> acks \<subseteq> acks' \<Longrightarrow> hub_ok H subs' acks' h"
  unfolding hub_ok_def using tables_inv_mono published_ok_mono by blast

lemma hub_ok_tables:
  "hub_ok H subs acks h \<Longrightarrow> (tables_inv H subs acks (hb_tables h) \<Longrightarrow> tables_inv H subs acks d) \<Longrightarrow> hub_ok H subs acks (h\<lparr>hb_tables := d\<rparr>)"
  by (simp add: hub_ok_def)

lemma hub_ok_publish:
  "hub_ok H subs acks h \<Longrightarrow> published_ok H subs (topic, p) \<Longrightarrow> hub_ok H subs acks (snd (publish E topic p h))"
  by (auto simp: hub_ok_def publish_def)

lemma hub_ok_refuse: "hub_ok H subs acks h \<Longrightarrow> hub_ok H subs acks (refuse E tenant b opID mid reason h)"
  unfolding refuse_def by (rule hub_ok_publish) simp_all

lemma soft_updates:
  "soft (\<lambda>o1. if P o1 then o1\<lparr>mo_LeasedUntil := l, mo_UpdatedAt := u\<rparr> else o1)"
  "soft (\<lambda>o1. if P o1 then o1\<lparr>mo_Attempts := mo_Attempts o1 + 1, mo_NextAttemptAt := x, mo_LeasedUntil := l, mo_UpdatedAt := u\<rparr> else o1)"
  "soft (\<lambda>o1. if P o1 then o1\<lparr>mo_RecipientAnswer := a, mo_UpdatedAt := u\<rparr> else o1)"
  by (simp_all add: soft_def core_def)

lemma inv_outbox:
  assumes "tables_inv H subs acks d"
  shows "tables_inv H subs acks (snd (ClaimMsgOp db k now until d))"
    "tables_inv H subs acks (MarkMsgOpAttempt db k nxt d)"
    "tables_inv H subs acks (SetMsgOpRecipientAnswer db k answer d)"
    "tables_inv H subs acks (snd (ReplayMsgOpEvents k d))"
    "tables_inv H subs acks (MarkMsgOpEventsPublished ids at d)"
proof -
  note t = table_step_inv [OF table_step.touch assms] table_step_inv [OF table_step.flag assms]
  show "tables_inv H subs acks (snd (ClaimMsgOp db k now until d))"
    "tables_inv H subs acks (MarkMsgOpAttempt db k nxt d)"
    "tables_inv H subs acks (SetMsgOpRecipientAnswer db k answer d)"
    unfolding ClaimMsgOp_def MarkMsgOpAttempt_def SetMsgOpRecipientAnswer_def upd_op_def Let_def snd_conv
    by (rule t(1), rule soft_updates)+
  have pub: "(if Q e then e\<lparr>me_PublishedAt := x\<rparr> else e) = e\<lparr>me_PublishedAt := (if Q e then x else me_PublishedAt e)\<rparr>"
    for Q x and e :: MsgOpEvent by simp
  show "tables_inv H subs acks (snd (ReplayMsgOpEvents k d))"
    "tables_inv H subs acks (MarkMsgOpEventsPublished ids at d)"
    unfolding ReplayMsgOpEvents_def MarkMsgOpEventsPublished_def snd_conv pub by (rule t(2))+
qed

lemma inv_record_event:
  assumes "tables_inv H subs acks d" "core op \<in> core ` set (msg_operations d)" "(kind, class, authority) \<in> set allowedKinds"
    "authority \<noteq> ''local''" "class = ''completed'' \<longrightarrow> acknowledged acks op"
  shows "tables_inv H subs acks (snd (record_event H E op kind class authority reason d))"
  unfolding record_event_def by (rule inv_evidenced [OF assms])

text \<open>No step but pruning and admission changes the cores of the rows.\<close>

lemma cores_kept:
  "map core (msg_operations (snd (ClaimMsgOp db k now until d))) = map core (msg_operations d)"
  "map core (msg_operations (MarkMsgOpAttempt db k nxt d)) = map core (msg_operations d)"
  "map core (msg_operations (snd (record_event H E op kind class authority reason d))) = map core (msg_operations d)"
  by (auto simp: ClaimMsgOp_def MarkMsgOpAttempt_def record_event_def AddMsgOpEvent_def Let_def core_def
      split: option.splits prod.splits)

lemma inv_Submit:
  assumes inv: "tables_inv H subs acks d" and sub: "(tenant, sender, s) \<in> subs"
  shows "tables_inv H subs acks (snd (Submit H tenant sender s now db known d))"
proof (cases "Check H s = [] \<and> GetMsgOp (tenant, sender, sb_OpID s) d = None \<and> UnixMilli now \<le> sb_ExpiresAt s \<and> known (sb_To s) = Some True")
  case False
  then show ?thesis using inv by (auto simp: Submit_def split: option.splits bool.splits)
next
  case True
  define op where "op = new_op tenant sender s now"
  define mids where "mids = (case mid_row (mo_TenantID op) (mo_Sender op) (mo_Mid op) (msg_mids d) of
      Some m \<Rightarrow> msg_mids d
    | None \<Rightarrow> msg_mids d @ [\<lparr>mm_TenantID = mo_TenantID op, mm_Sender = mo_Sender op, mm_Mid = mo_Mid op,
        mm_ContentSHA256 = mo_ContentSHA256 op, mm_CreatedAt = col_time db\<rparr>])"
  have key: "mo_key op = (tenant, sender, sb_OpID s)" by (simp add: op_def new_op_def mo_key_def)
  have d: "snd (Submit H tenant sender s now db known d) = snd (AdmitMsgOp db op d)"
    using True by (auto simp: Submit_def op_def split: prod.splits MsgOpAdmission.splits)
  show ?thesis
  proof (cases "map_option mm_ContentSHA256 (mid_row (mo_TenantID op) (mo_Sender op) (mo_Mid op) mids) = Some (mo_ContentSHA256 op)")
    case False
    then show ?thesis using inv True unfolding d AdmitMsgOp_def mids_def [symmetric] Let_def by (simp add: key)
  next
    case has: True
    define row where "row = op\<lparr>mo_State := ''pending'',
        mo_NextAttemptAt := col_time (if mo_NextAttemptAt op = zero_time then db else mo_NextAttemptAt op),
        mo_LeasedUntil := 0, mo_CreatedAt := col_time db, mo_UpdatedAt := col_time db\<rparr>"
    have "snd (AdmitMsgOp db op d) = d\<lparr>msg_mids := mids, msg_operations := msg_operations d @ [row]\<rparr>"
      using has True unfolding AdmitMsgOp_def mids_def [symmetric] Let_def key
      by (simp add: row_def) (simp add: op_def new_op_def)
    moreover have "tables_inv H subs acks (d\<lparr>msg_mids := mids, msg_operations := msg_operations d @ [row]\<rparr>)"
    proof (rule table_step_inv [OF table_step.admit inv])
      show "submitted H subs row" using sub True by (auto simp: submitted_def op_from_def row_def op_def new_op_def)
      show "GetMsgOp (mo_key row) d = None" using True by (simp add: row_def op_def new_op_def mo_key_def)
      show "mid_has mids row" using has
        by (auto simp: mid_has_def mm_key_def mid_row_def find_Some_iff row_def)
      show "distinct (map mm_key (msg_mids d)) \<longrightarrow> distinct (map mm_key mids)"
        by (auto simp: mids_def mid_row_def find_None_iff mm_key_def split: option.splits)
    qed (auto simp: mids_def row_def op_def new_op_def split: option.splits)
    ultimately show ?thesis by (simp add: d)
  qed
qed

definition subs_of :: "(environment \<times> hub_event) list \<Rightarrow> subs" where
  "subs_of es = {(tenant, bridge_principal b, s) | E topic tenant b s.
     (E, OutMsg topic (Some s)) \<in> set es \<and> ParseMsgTopic topic = Some (tenant, b, ''out'')}"

definition acks_of :: "(environment \<times> hub_event) list \<Rightarrow> acks" where
  "acks_of es = {(tenant, bridge_principal b, a) | E topic tenant b a.
     (E, AckMsg topic (Some a)) \<in> set es \<and> ParseMsgTopic topic = Some (tenant, b, ''ack'')}"

lemma seen_mono: "set es \<subseteq> set es' \<Longrightarrow> subs_of es \<subseteq> subs_of es'" "set es \<subseteq> set es' \<Longrightarrow> acks_of es \<subseteq> acks_of es'"
  unfolding subs_of_def acks_of_def by blast+

lemma HandleOut_ok:
  assumes "hub_ok H subs acks h"
    and "\<And>tenant b s. ParseMsgTopic topic = Some (tenant, b, ''out'') \<Longrightarrow> json = Some s \<Longrightarrow> (tenant, bridge_principal b, s) \<in> subs"
  shows "hub_ok H subs acks (HandleOut H E topic json h)"
proof (cases "\<exists>tenant b s. ParseMsgTopic topic = Some (tenant, b, ''out'') \<and> json = Some s")
  case False
  then show ?thesis
    using assms(1) by (auto simp: HandleOut_def hub_ok_refuse split: option.splits)
next
  case True
  then obtain tenant b s where p: "ParseMsgTopic topic = Some (tenant, b, ''out'')" "json = Some s" by blast
  obtain v d where sub: "Submit H tenant (bridge_principal b) s (en_now E) (en_db E)
      (\<lambda>recipient. en_bridge E tenant (BridgeOf recipient)) (hb_tables h) = (v, d)" by fastforce
  have "hub_ok H subs acks (h\<lparr>hb_tables := d\<rparr>)"
    by (rule hub_ok_tables [OF assms(1)]) (use inv_Submit [OF _ assms(2) [OF p]] sub in \<open>metis snd_conv\<close>)
  moreover have "hub_ok H subs acks (h\<lparr>hb_tables := snd (ReplayMsgOpEvents k d)\<rparr>)" for k
    using hub_ok_tables [OF calculation, of "snd (ReplayMsgOpEvents k d)"] inv_outbox(4) by simp
  ultimately show ?thesis
    using p sub by (auto simp: HandleOut_def hub_ok_refuse Let_def split: option.splits)
qed

lemma HandleAck_ok:
  assumes "hub_ok H subs acks h"
    and "\<And>tenant b a. ParseMsgTopic topic = Some (tenant, b, ''ack'') \<Longrightarrow> json = Some a \<Longrightarrow> (tenant, bridge_principal b, a) \<in> acks"
  shows "hub_ok H subs acks (HandleAck H E topic json h)"
proof (cases "HandleAck H E topic json h = h")
  case False
  then obtain tenant b a op evKind cls reason answer
    where p: "ParseMsgTopic topic = Some (tenant, b, ''ack'')" "json = Some a"
      and op: "GetMsgOp (tenant, ak_From a, ak_OpID a) (hb_tables h) = Some op" "mo_Recipient op = bridge_principal b" "mo_Mid op = ak_Mid a"
      and ev: "AckEvidence a = Some (evKind, cls, reason, answer)"
      and h: "HandleAck H E topic json h = (let (res, d) = record_event H E op evKind cls ''recipient'' reason (hb_tables h)
        in if res = OpNotFound \<or> res = RevTaken then h
           else h\<lparr>hb_tables := (if answer \<noteq> [] then SetMsgOpRecipientAnswer (en_db E) (mo_key op) answer d else d)\<rparr>)"
    unfolding HandleAck_def by (auto split: option.splits if_splits)
  note row = GetMsgOp_SomeD [OF op(1)]
  have inv: "tables_inv H subs acks (hb_tables h)" using assms(1) by (simp add: hub_ok_def)
  have "acknowledged acks op" if "cls = ''completed''"
    using assms(2) [OF p] that ev op row
    by (auto simp: acknowledged_def stored_ack_def AckEvidence_def mo_key_def split: if_splits)
  then have "tables_inv H subs acks (snd (record_event H E op evKind cls ''recipient'' reason (hb_tables h)))"
    using row AckEvidence_allowed [OF ev] by (intro inv_record_event [OF inv]) auto
  then show ?thesis
    using assms(1) unfolding h by (auto simp: hub_ok_def Let_def inv_outbox(3) split: prod.splits)
qed (simp add: assms(1))

lemma expire_ok:
  assumes "hub_ok H subs acks h"
  shows "hub_ok H subs acks (expire H E h)"
proof -
  have "tables_inv H subs acks (fold (\<lambda>op d. snd (record_event H E op ''hub_expired'' ''expired'' ''hub'' ''expired'' d)) ops d)"
    if "tables_inv H subs acks d" "core ` set ops \<subseteq> core ` set (msg_operations d)" for ops d
    using that
  proof (induction ops arbitrary: d)
    case (Cons op ops)
    let ?d = "snd (record_event H E op ''hub_expired'' ''expired'' ''hub'' ''expired'' d)"
    have "tables_inv H subs acks ?d"
      by (rule inv_record_event) (use Cons.prems in \<open>auto simp: allowedKinds_def\<close>)
    moreover have "core ` set (msg_operations ?d) = core ` set (msg_operations d)"
      using cores_kept(3) by (metis set_map)
    ultimately show ?case using Cons.IH [of ?d] Cons.prems(2) by simp
  qed simp
  moreover have "core ` set (ListExpiredMsgOps now n d) \<subseteq> core ` set (msg_operations d)" for now n d
    using set_ListExpired [of now n d] by blast
  ultimately show ?thesis using assms by (simp add: expire_def hub_ok_def)
qed

lemma delivery_ok:
  assumes "hub_ok H subs acks h" "core op \<in> core ` set (msg_operations (hb_tables h))"
  shows "published_ok H subs (TopicMsgInFor (mo_TenantID op) (BridgeOf (mo_Recipient op)), PDelivery (DeliveryOf op))"
proof -
  obtain o1 where o1: "o1 \<in> set (msg_operations (hb_tables h))" "core op = core o1" using assms(2) by auto
  then have "submitted H subs o1" using assms(1) by (simp add: hub_ok_def tables_inv_def op_ok_def)
  then obtain s where s: "(mo_TenantID o1, mo_Sender o1, s) \<in> subs" "op_from H s o1" by (auto simp: submitted_def)
  then show ?thesis
    using core_fields [OF o1(2)]
    by (simp add: op_from_def DeliveryOf_def) (intro exI [of _ "mo_TenantID o1"] exI [of _ s], simp)
qed

lemma deliver_op_ok:
  assumes ok: "hub_ok H subs acks h" and op: "core op \<in> core ` set (msg_operations (hb_tables h))"
  shows "hub_ok H subs acks (deliver_op H E op h)"
    "core ` set (msg_operations (hb_tables (deliver_op H E op h))) = core ` set (msg_operations (hb_tables h))"
proof -
  obtain won d where cl: "ClaimMsgOp (en_db E) (mo_key op) (en_now E) (en_now E + Lease) (hb_tables h) = (won, d)" by fastforce
  have d: "tables_inv H subs acks d" "map core (msg_operations d) = map core (msg_operations (hb_tables h))"
    using inv_outbox(1) [of H subs acks "hb_tables h"] cores_kept(1) cl ok by (metis hub_ok_def snd_conv)+
  then have op': "core op \<in> core ` set (msg_operations d)" using op by (metis set_map)
  have rec: "tables_inv H subs acks (snd (record_event H E op ''hub_refused'' ''failed'' ''hub'' r d))"
    "tables_inv H subs acks (snd (record_event H E op ''hub_forwarded'' ''forwarded'' ''hub'' r d))" for r
    using d(1) op' by (auto intro!: inv_record_event simp: allowedKinds_def)
  let ?h = "h\<lparr>hb_tables := d\<rparr>" and ?t = "TopicMsgInFor (mo_TenantID op) (BridgeOf (mo_Recipient op))"
  have h: "hub_ok H subs acks ?h" using ok d(1) by (simp add: hub_ok_def)
  have pub: "hub_ok H subs acks (snd (publish E ?t (PDelivery (DeliveryOf op)) ?h))"
    by (rule hub_ok_publish [OF h delivery_ok [OF ok op]])
  show "hub_ok H subs acks (deliver_op H E op h)"
    using h pub rec d(1) unfolding deliver_op_def Let_def cl
    by (auto simp: hub_ok_def publish_def inv_outbox split: option.splits bool.splits)
  have tab: "hb_tables (snd (publish E ?t p ?h)) = d" for p by (simp add: publish_def)
  have "map core (msg_operations (hb_tables (deliver_op H E op h))) = map core (msg_operations d)"
    unfolding deliver_op_def Let_def cl using tab
    by (auto simp: publish_def cores_kept split: option.splits bool.splits)
  then show "core ` set (msg_operations (hb_tables (deliver_op H E op h))) = core ` set (msg_operations (hb_tables h))"
    using d(2) by (metis set_map)
qed

lemma deliver_ok:
  assumes "hub_ok H subs acks h"
  shows "hub_ok H subs acks (deliver H E h)"
proof -
  have "hub_ok H subs acks (fold (deliver_op H E) ops h)"
    if "hub_ok H subs acks h" "core ` set ops \<subseteq> core ` set (msg_operations (hb_tables h))" for ops h
    using that
  proof (induction ops arbitrary: h)
    case (Cons op ops)
    have op: "core op \<in> core ` set (msg_operations (hb_tables h))" using Cons.prems(2) by auto
    show ?case
      using Cons.IH [OF deliver_op_ok(1) [OF Cons.prems(1) op]] deliver_op_ok(2) [OF Cons.prems(1) op] Cons.prems(2) by simp
  qed simp
  moreover have "core ` set (ListDueMsgOps now n d) \<subseteq> core ` set (msg_operations d)" for now n d
    using set_ListDue [of now n d] by blast
  ultimately show ?thesis using assms by (simp add: deliver_def)
qed

lemma publish_events_ok:
  assumes "hub_ok H subs acks h" "set evs \<subseteq> set (msg_op_events (hb_tables h))"
  shows "hub_ok H subs acks (snd (publish_events E evs h)) \<and> hb_tables (snd (publish_events E evs h)) = hb_tables h"
  using assms
proof (induction evs arbitrary: h)
  case (Cons e evs)
  show ?case
  proof (cases "GetMsgOp (me_key e) (hb_tables h)")
    case None
    then show ?thesis using Cons by simp
  next
    case (Some op)
    obtain ok h' where pub: "publish E (TopicMsgStatusFor (me_TenantID e) (BridgeOf (me_Sender e))) (PEvent (Wire op e)) h = (ok, h')"
      by fastforce
    have tab: "hb_tables h' = hb_tables h" using pub by (auto simp: publish_def split: if_splits)
    have "submitted H subs op" using GetMsgOp_SomeD [OF Some] Cons.prems(1) by (simp add: hub_ok_def tables_inv_def op_ok_def)
    then obtain s where s: "(mo_TenantID op, mo_Sender op, s) \<in> subs" "op_from H s op" by (auto simp: submitted_def)
    have "published_ok H subs (TopicMsgStatusFor (me_TenantID e) (BridgeOf (me_Sender e)), PEvent (Wire op e))"
      using s GetMsgOp_SomeD [OF Some]
      by (simp add: Wire_def op_from_def mo_key_def me_key_def)
        (intro exI [of _ "mo_TenantID op"] exI [of _ "mo_Sender op"] exI [of _ s], simp)
    then have "hub_ok H subs acks h'" using hub_ok_publish [OF Cons.prems(1)] pub by (metis snd_conv)
    then show ?thesis
      using Cons.IH [of h'] Cons.prems(2) tab Some pub by (cases ok) (simp_all add: case_prod_beta)
  qed
qed simp

lemma publishStatus_ok:
  assumes "hub_ok H subs acks h"
  shows "hub_ok H subs acks (publishStatus E h)"
proof -
  obtain ids h' where p: "publish_events E (ListUnpublishedMsgOpEvents 200 (hb_tables h)) h = (ids, h')" by fastforce
  have "hub_ok H subs acks h'" using publish_events_ok [OF assms set_ListUnpublished] p by (metis snd_conv)
  then show ?thesis unfolding publishStatus_def p by (simp add: hub_ok_def inv_outbox)
qed

lemma prune_ok: "hub_ok H subs acks h \<Longrightarrow> hub_ok H subs acks (prune E h)"
  by (simp add: prune_def hub_ok_def inv_prune)

lemma hub_step_ok:
  assumes "hub_ok H (subs_of es) (acks_of es) h"
  shows "hub_ok H (subs_of (es @ [ee])) (acks_of (es @ [ee])) (hub_step H ee h)"
proof -
  obtain E ev where ee: "ee = (E, ev)" by fastforce
  have ok: "hub_ok H (subs_of (es @ [ee])) (acks_of (es @ [ee])) h"
    by (rule hub_ok_mono [OF assms seen_mono(1) seen_mono(2)]) auto
  show ?thesis
  proof (cases ev)
    case (OutMsg topic json)
    have "hub_ok H (subs_of (es @ [ee])) (acks_of (es @ [ee])) (HandleOut H E topic json h)"
      by (rule HandleOut_ok [OF ok]) (auto simp: subs_of_def ee OutMsg)
    then show ?thesis by (simp add: hub_step_def ee OutMsg)
  next
    case (AckMsg topic json)
    have "hub_ok H (subs_of (es @ [ee])) (acks_of (es @ [ee])) (HandleAck H E topic json h)"
      by (rule HandleAck_ok [OF ok]) (auto simp: acks_of_def ee AckMsg)
    then show ?thesis by (simp add: hub_step_def ee AckMsg)
  qed (use ok in \<open>auto simp: hub_step_def ee expire_ok deliver_ok publishStatus_ok prune_ok\<close>)
qed

lemma hub_run_ok: "hub_ok H (subs_of es) (acks_of es) (fold (hub_step H) es new_hub)"
proof (induction es rule: rev_induct)
  case Nil
  show ?case by (simp add: hub_ok_def tables_inv_def new_hub_def no_tables_def)
next
  case (snoc e es)
  then show ?case using hub_step_ok by simp
qed

section \<open>Consequences of the invariant\<close>

lemma inv_events_sorted:
  assumes "tables_inv H subs acks d" "o1 \<in> set (msg_operations d)"
  shows "ListMsgOpEvents (mo_key o1) d = op_events (mo_key o1) d"
proof -
  have "map me_Rev (filter (\<lambda>e. me_key e = mo_key o1) (msg_op_events d)) = [1..<Suc (mo_Rev o1)]"
    using assms by (simp add: tables_inv_def op_ok_def op_events_def)
  then show ?thesis unfolding op_events_def by (rule ListMsgOpEvents_sorted)
qed

lemma inv_one_digest:
  assumes inv: "tables_inv H subs acks d" and o: "o1 \<in> set (msg_operations d)" "o2 \<in> set (msg_operations d)"
    and eq: "mo_TenantID o1 = mo_TenantID o2" "mo_Sender o1 = mo_Sender o2" "mo_Mid o1 = mo_Mid o2"
  shows "mo_ContentSHA256 o1 = mo_ContentSHA256 o2"
proof -
  have "mid_has (msg_mids d) o1" "mid_has (msg_mids d) o2" "inj_on mm_key (set (msg_mids d))"
    using inv o by (auto simp: tables_inv_def op_ok_def distinct_map)
  then show ?thesis using eq unfolding mid_has_def inj_on_def by metis
qed

definition as_evidence :: "MsgOp \<Rightarrow> MsgOpEvent \<Rightarrow> Event" where
  "as_evidence o1 e = (Wire o1 e)\<lparr>ev_Source := SourceOf (me_Authority e)\<rparr>"

definition as_operation :: "MsgOp \<Rightarrow> Operation" where
  "as_operation o1 = \<lparr>opn_OpID = mo_OpID o1, opn_Mid = mo_Mid o1, opn_Recipient = mo_Recipient o1\<rparr>"

lemma Project_Reduce: "Project o1 evs = (let p = Reduce (as_operation o1) (map (as_evidence o1) evs) in (pj_State p, pj_Conflict p))"
  unfolding Project_def as_operation_def as_evidence_def Let_def ..

lemma event_ok_Valid:
  assumes "\<forall>m. length (sha256 H m) = 32" "event_ok H acks o1 e"
  shows "Valid (as_operation o1) (as_evidence o1 e)"
proof -
  have "me_Authority e = ''hub'' \<or> me_Authority e = ''recipient''"
    using assms(2) by (auto simp: event_ok_def allowedKinds_def)
  then show ?thesis
    using assms EventIDFor_valid [OF assms(1), of o1 "me_Kind e" "me_Class e" "me_Reason e"]
    by (auto simp: event_ok_def Valid_def as_operation_def as_evidence_def Wire_def SourceOf_def mo_key_def me_key_def)
qed

lemma Project_completed:
  assumes "fst (Project o1 evs) = ''completed''"
  shows "\<exists>e \<in> set evs. me_Class e = ''completed''"
proof -
  let ?es = "map (as_evidence o1) evs"
  obtain h r where f: "fold (collect_event (as_operation o1)) ?es ([], []) = (h, r)" by fastforce
  have "strongest (map ev_Class h) = ''completed''"
    using assms by (simp add: Project_Reduce Reduce_def f Let_def)
  then have "''completed'' \<in> ev_Class ` set h"
    unfolding strongest_def by (auto simp: ProjectionOrder_def split: if_splits)
  moreover have "set h \<subseteq> set ?es" using fold_collect [OF f, of "set ?es"] by (auto simp: evidence_def)
  ultimately show ?thesis by (force simp: as_evidence_def Wire_def)
qed

lemma inv_completed:
  assumes inv: "tables_inv H subs acks d" and o1: "o1 \<in> set (msg_operations d)" "mo_State o1 = ''completed''"
  shows "acknowledged acks o1"
proof -
  have "fst (Project o1 (op_events (mo_key o1) d)) = ''completed''"
    using inv o1 by (metis fst_conv op_ok_def tables_inv_def)
  then obtain e where e: "e \<in> set (op_events (mo_key o1) d)" "me_Class e = ''completed''" using Project_completed by blast
  then obtain o2 where o2: "o2 \<in> set (msg_operations d)" "event_ok H acks o2 e" "me_key e = mo_key o1"
    using inv by (auto simp: tables_inv_def op_events_def)
  then have "o2 = o1" using inv o1(1) by (auto simp: tables_inv_def event_ok_def distinct_map inj_on_def)
  with o2 e(2) show ?thesis by (simp add: event_ok_def)
qed

end
