(* ===== verification/HubFlow.thy ===== *)
theory HubFlow
  imports HubRun
begin

text \<open>
  What the app route \<open>hub_msg\<close> achieves: properties of every run (consistent tables, authentic
  messages), progress (an admitted operation is delivered by the next pass, overdue operations
  become final), and that handling a message twice, as two replicas do, is handling it once.
\<close>

section \<open>Admission\<close>

definition admitted_row :: "string \<Rightarrow> string \<Rightarrow> Submission \<Rightarrow> instant \<Rightarrow> instant \<Rightarrow> MsgOp" where
  "admitted_row tenant sender s now db =
     (new_op tenant sender s now)\<lparr>mo_NextAttemptAt := col_time (if now = zero_time then db else now), mo_LeasedUntil := 0,
        mo_CreatedAt := col_time db, mo_UpdatedAt := col_time db\<rparr>"

definition mid_free :: "string \<Rightarrow> string \<Rightarrow> Submission \<Rightarrow> MsgTables \<Rightarrow> bool" where
  "mid_free tenant sender s d \<longleftrightarrow>
     (\<forall>m \<in> set (msg_mids d). mm_key m = (tenant, sender, sb_Mid s) \<longrightarrow> mm_ContentSHA256 m = sb_ContentSHA256 s)"

lemma Submit_admits:
  assumes "Check H s = []" "GetMsgOp (tenant, sender, sb_OpID s) d = None" "UnixMilli now \<le> sb_ExpiresAt s"
    and "known (sb_To s) = Some True" "mid_free tenant sender s d"
  obtains op mids where "Submit H tenant sender s now db known d =
    (Some (\<lparr>vd_Result = ''admitted'', vd_Reason = []\<rparr>, Some op),
     d\<lparr>msg_mids := mids, msg_operations := msg_operations d @ [admitted_row tenant sender s now db]\<rparr>)"
proof -
  define op where "op = new_op tenant sender s now"
  define mids where "mids = (case mid_row (mo_TenantID op) (mo_Sender op) (mo_Mid op) (msg_mids d) of
      Some m \<Rightarrow> msg_mids d
    | None \<Rightarrow> msg_mids d @ [\<lparr>mm_TenantID = mo_TenantID op, mm_Sender = mo_Sender op, mm_Mid = mo_Mid op,
        mm_ContentSHA256 = mo_ContentSHA256 op, mm_CreatedAt = col_time db\<rparr>])"
  have key: "mo_key op = (tenant, sender, sb_OpID s)" by (simp add: op_def new_op_def mo_key_def)
  have find_app: "find P (xs @ [x]) = Some x" if "find P xs = None" "P x" for P xs and x :: MsgMid
    using that by (induction xs) (auto split: if_splits)
  have dig: "map_option mm_ContentSHA256 (mid_row (mo_TenantID op) (mo_Sender op) (mo_Mid op) mids) = Some (mo_ContentSHA256 op)"
  proof (cases "mid_row (mo_TenantID op) (mo_Sender op) (mo_Mid op) (msg_mids d)")
    case None
    then show ?thesis unfolding mids_def by (simp add: mid_row_def find_app)
  next
    case (Some m)
    then have "m \<in> set (msg_mids d)" "mm_key m = (tenant, sender, sb_Mid s)"
      by (auto simp: mid_row_def find_Some_iff mm_key_def op_def new_op_def)
    then show ?thesis using assms(5) Some by (simp add: mids_def mid_free_def op_def new_op_def)
  qed
  have "AdmitMsgOp db op d = (MsgOpAdmitted (op\<lparr>mo_NextAttemptAt := (if now = zero_time then db else now), mo_CreatedAt := db, mo_UpdatedAt := db\<rparr>),
      d\<lparr>msg_mids := mids, msg_operations := msg_operations d @ [admitted_row tenant sender s now db]\<rparr>)"
    using dig assms(2) unfolding AdmitMsgOp_def mids_def [symmetric] Let_def key
    by (simp add: admitted_row_def op_def [symmetric]) (simp add: op_def new_op_def)
  then show thesis using that assms(1-4) by (simp add: Submit_def op_def)
qed

lemma HandleOut_admits:
  assumes "ParseMsgTopic topic = Some (tenant, b, ''out'')" "Check H s = []"
    and "GetMsgOp (tenant, bridge_principal b, sb_OpID s) (hb_tables h) = None" "UnixMilli (en_now E) \<le> sb_ExpiresAt s"
    and "en_bridge E tenant (BridgeOf (sb_To s)) = Some True" "mid_free tenant (bridge_principal b) s (hb_tables h)"
  obtains mids where "HandleOut H E topic (Some s) h = h\<lparr>hb_tables := (hb_tables h)\<lparr>msg_mids := mids,
    msg_operations := msg_operations (hb_tables h) @ [admitted_row tenant (bridge_principal b) s (en_now E) (en_db E)]\<rparr>\<rparr>"
proof -
  obtain op mids where sub: "Submit H tenant (bridge_principal b) s (en_now E) (en_db E)
      (\<lambda>recipient. en_bridge E tenant (BridgeOf recipient)) (hb_tables h) =
    (Some (\<lparr>vd_Result = ''admitted'', vd_Reason = []\<rparr>, Some op),
     (hb_tables h)\<lparr>msg_mids := mids, msg_operations := msg_operations (hb_tables h) @ [admitted_row tenant (bridge_principal b) s (en_now E) (en_db E)]\<rparr>)"
    using Submit_admits [OF assms(2-4) _ assms(6), of "\<lambda>recipient. en_bridge E tenant (BridgeOf recipient)" "en_db E"]
      assms(5) by blast
  show thesis using that assms(1) by (simp add: HandleOut_def sub)
qed

section \<open>Delivery\<close>

lemma find_map_other:
  "(\<And>x. x \<in> set xs \<Longrightarrow> P (f x) = P x) \<Longrightarrow> (\<And>x. x \<in> set xs \<Longrightarrow> P x \<Longrightarrow> f x = x) \<Longrightarrow> find P (map f xs) = find P xs"
  by (induction xs) auto

lemma GetMsgOp_upd_other: "k' \<noteq> k \<Longrightarrow> (\<And>r. mo_key (f r) = mo_key r) \<Longrightarrow> GetMsgOp k' (upd_op k f d) = GetMsgOp k' d"
  unfolding GetMsgOp_def upd_op_simps by (rule find_map_other) auto

lemma GetMsgOp_other:
  assumes "mo_key op \<noteq> k"
  shows "GetMsgOp k (snd (ClaimMsgOp db (mo_key op) now until d)) = GetMsgOp k d"
    "GetMsgOp k (MarkMsgOpAttempt db (mo_key op) nxt d) = GetMsgOp k d"
    "GetMsgOp k (snd (record_event H E op kind cls authority reason d)) = GetMsgOp k d"
proof -
  show "GetMsgOp k (snd (ClaimMsgOp db (mo_key op) now until d)) = GetMsgOp k d"
    unfolding ClaimMsgOp_def Let_def snd_conv GetMsgOp_def
    by (simp, rule find_map_other) (use assms in \<open>auto simp: mo_key_def\<close>)
  show "GetMsgOp k (MarkMsgOpAttempt db (mo_key op) nxt d) = GetMsgOp k d"
    unfolding MarkMsgOpAttempt_def by (rule GetMsgOp_upd_other) (use assms in \<open>auto simp: mo_key_def\<close>)
  have "me_key (NewEvent (sha256 H) op kind cls authority reason [] (en_now E)) = mo_key op"
    by (simp add: NewEvent_def me_key_def mo_key_def)
  moreover have "GetMsgOp k (d\<lparr>msg_op_events := x\<rparr>) = GetMsgOp k d" for x by (simp add: GetMsgOp_def)
  moreover have "me_key (e\<lparr>me_Rev := i, me_At := t, me_PublishedAt := u\<rparr>) = me_key e" for e :: MsgOpEvent and i t u
    by (simp add: me_key_def)
  ultimately show "GetMsgOp k (snd (record_event H E op kind cls authority reason d)) = GetMsgOp k d"
    unfolding record_event_def AddMsgOpEvent_def Let_def using assms
    by (auto simp: GetMsgOp_upd_other mo_key_def split: option.splits prod.splits)
qed

lemma hb_tables_publish [simp]: "hb_tables (snd (publish E t p h)) = hb_tables h"
  by (simp add: publish_def)

lemma set_publish: "set (hb_published h) \<subseteq> set (hb_published (snd (publish E t p h)))"
  by (auto simp: publish_def)

lemma deliver_op_keeps:
  shows "mo_key op \<noteq> k \<Longrightarrow> GetMsgOp k (hb_tables (deliver_op H E op h)) = GetMsgOp k (hb_tables h)"
    "set (hb_published h) \<subseteq> set (hb_published (deliver_op H E op h))"
    "map core (msg_operations (hb_tables (deliver_op H E op h))) = map core (msg_operations (hb_tables h))"
proof -
  obtain won d where cl: "ClaimMsgOp (en_db E) (mo_key op) (en_now E) (en_now E + Lease) (hb_tables h) = (won, d)" by fastforce
  have d: "map core (msg_operations d) = map core (msg_operations (hb_tables h))"
    "mo_key op \<noteq> k \<Longrightarrow> GetMsgOp k d = GetMsgOp k (hb_tables h)"
    using cores_kept(1) GetMsgOp_other(1) cl by (metis snd_conv)+
  show "mo_key op \<noteq> k \<Longrightarrow> GetMsgOp k (hb_tables (deliver_op H E op h)) = GetMsgOp k (hb_tables h)"
    unfolding deliver_op_def Let_def cl
    by (auto simp: publish_def GetMsgOp_other d split: option.splits bool.splits)
  show "set (hb_published h) \<subseteq> set (hb_published (deliver_op H E op h))"
    "map core (msg_operations (hb_tables (deliver_op H E op h))) = map core (msg_operations (hb_tables h))"
    unfolding deliver_op_def Let_def cl
    by (auto simp: publish_def cores_kept d split: option.splits bool.splits)
qed

lemma deliver_op_delivers:
  assumes get: "GetMsgOp (mo_key op) (hb_tables h) = Some r" "distinct (map mo_key (msg_operations (hb_tables h)))"
    and "mo_LeasedUntil r < col_time (en_now E)" "en_bridge E (mo_TenantID op) (BridgeOf (mo_Recipient op)) = Some True"
    and "en_bus E (TopicMsgInFor (mo_TenantID op) (BridgeOf (mo_Recipient op)))"
  shows "(TopicMsgInFor (mo_TenantID op) (BridgeOf (mo_Recipient op)), PDelivery (DeliveryOf op)) \<in> set (hb_published (deliver_op H E op h))"
proof -
  note r = GetMsgOp_SomeD [OF get(1)]
  have "filter (\<lambda>o1. mo_key o1 = mo_key op \<and> mo_LeasedUntil o1 < col_time (en_now E)) (msg_operations (hb_tables h)) = [r]"
  proof -
    have "filter (\<lambda>o1. mo_key o1 = mo_key op \<and> mo_LeasedUntil o1 < col_time (en_now E)) xs = [r]"
      if "r \<in> set xs" "distinct (map mo_key xs)" for xs
      using that
    proof (induction xs)
      case (Cons x xs)
      show ?case
      proof (cases "x = r")
        case True
        then have "mo_key op \<notin> mo_key ` set xs" using Cons.prems(2) r by auto
        then have "\<forall>y \<in> set xs. mo_key y \<noteq> mo_key op" by (metis imageI)
        then show ?thesis using True r assms(3) by (simp add: filter_empty_conv)
      next
        case False
        then have "r \<in> set xs" using Cons.prems(1) by simp
        then have "mo_key x \<noteq> mo_key op" using Cons.prems(2) r by (metis distinct.simps(2) image_eqI list.simps(9) set_map)
        then show ?thesis using Cons \<open>r \<in> set xs\<close> by simp
      qed
    qed simp
    then show ?thesis using r get(2) by blast
  qed
  then have "fst (ClaimMsgOp (en_db E) (mo_key op) (en_now E) (en_now E + Lease) (hb_tables h))" by (simp add: ClaimMsgOp_def Let_def)
  then obtain d where "ClaimMsgOp (en_db E) (mo_key op) (en_now E) (en_now E + Lease) (hb_tables h) = (True, d)"
    by (metis prod.collapse)
  then show ?thesis using assms(4,5) by (simp add: deliver_op_def Let_def publish_def)
qed

lemma deliver_fold_keeps:
  "k \<notin> mo_key ` set ops \<Longrightarrow> GetMsgOp k (hb_tables (fold (deliver_op H E) ops h)) = GetMsgOp k (hb_tables h)"
  "set (hb_published h) \<subseteq> set (hb_published (fold (deliver_op H E) ops h))"
  "map core (msg_operations (hb_tables (fold (deliver_op H E) ops h))) = map core (msg_operations (hb_tables h))"
proof -
  show "k \<notin> mo_key ` set ops \<Longrightarrow> GetMsgOp k (hb_tables (fold (deliver_op H E) ops h)) = GetMsgOp k (hb_tables h)"
    by (induction ops arbitrary: h) (auto simp: deliver_op_keeps(1))
  show "set (hb_published h) \<subseteq> set (hb_published (fold (deliver_op H E) ops h))"
  proof (induction ops arbitrary: h)
    case (Cons op ops)
    show ?case using deliver_op_keeps(2) Cons.IH by (metis fold_simps(2) subset_trans)
  qed simp
  show "map core (msg_operations (hb_tables (fold (deliver_op H E) ops h))) = map core (msg_operations (hb_tables h))"
    by (induction ops arbitrary: h) (simp_all add: deliver_op_keeps(3))
qed

lemma map_core_keys: "map core xs = map core ys \<Longrightarrow> map mo_key xs = map mo_key ys"
proof (induction xs arbitrary: ys)
  case (Cons x xs)
  then obtain y ys' where ys: "ys = y # ys'" "core x = core y" "map core xs = map core ys'" by auto
  then show ?case using Cons.IH core_fields(12) [OF ys(2)] by simp
qed simp

lemma deliver_fold_delivers:
  assumes "op \<in> set ops" "distinct (map mo_key ops)" "distinct (map mo_key (msg_operations (hb_tables h)))"
    and "GetMsgOp (mo_key op) (hb_tables h) = Some r" "mo_LeasedUntil r < col_time (en_now E)"
    and "en_bridge E (mo_TenantID op) (BridgeOf (mo_Recipient op)) = Some True"
    and "en_bus E (TopicMsgInFor (mo_TenantID op) (BridgeOf (mo_Recipient op)))"
  shows "(TopicMsgInFor (mo_TenantID op) (BridgeOf (mo_Recipient op)), PDelivery (DeliveryOf op)) \<in>
    set (hb_published (fold (deliver_op H E) ops h))"
proof -
  obtain pre post where ops: "ops = pre @ op # post" using assms(1) by (meson split_list)
  define h1 where "h1 = fold (deliver_op H E) pre h"
  have "mo_key op \<notin> mo_key ` set pre" using assms(2) by (simp add: ops)
  then have "GetMsgOp (mo_key op) (hb_tables h1) = Some r" using deliver_fold_keeps(1) assms(4) by (simp add: h1_def)
  moreover have "distinct (map mo_key (msg_operations (hb_tables h1)))"
    using map_core_keys [OF deliver_fold_keeps(3)] assms(3) by (simp add: h1_def)
  ultimately have "(TopicMsgInFor (mo_TenantID op) (BridgeOf (mo_Recipient op)), PDelivery (DeliveryOf op)) \<in>
      set (hb_published (deliver_op H E op h1))" using deliver_op_delivers assms(5-7) by blast
  moreover have "fold (deliver_op H E) ops h = fold (deliver_op H E) post (deliver_op H E op h1)" by (simp add: ops h1_def)
  ultimately show ?thesis using deliver_fold_keeps(2) by (metis subsetD)
qed

lemma ListDue_all:
  assumes "length (filter (due now) (msg_operations d)) \<le> 50"
  shows "set (ListDueMsgOps now 50 d) = set (filter (due now) (msg_operations d))"
    "mset (ListDueMsgOps now 50 d) = mset (filter (due now) (msg_operations d))"
  using assms by (simp_all add: ListDueMsgOps_def row_limit_pos)

lemma deliver_delivers:
  assumes "tables_inv H subs acks (hb_tables h)" "op \<in> set (msg_operations (hb_tables h))" "due (en_now E) op"
    and "length (filter (due (en_now E)) (msg_operations (hb_tables h))) \<le> 50"
    and "en_bridge E (mo_TenantID op) (BridgeOf (mo_Recipient op)) = Some True"
    and "en_bus E (TopicMsgInFor (mo_TenantID op) (BridgeOf (mo_Recipient op)))"
  shows "(TopicMsgInFor (mo_TenantID op) (BridgeOf (mo_Recipient op)), PDelivery (DeliveryOf op)) \<in> set (hb_published (deliver H E h))"
  unfolding deliver_def
proof (rule deliver_fold_delivers)
  have dist: "distinct (map mo_key (msg_operations (hb_tables h)))" using assms(1) by (simp add: tables_inv_def)
  then show "distinct (map mo_key (msg_operations (hb_tables h)))" "GetMsgOp (mo_key op) (hb_tables h) = Some op"
    using assms(2) GetMsgOp_eq by auto
  show "op \<in> set (ListDueMsgOps (en_now E) 50 (hb_tables h))" using ListDue_all(1) [OF assms(4)] assms(2,3) by simp
  have "mset (map mo_key (ListDueMsgOps (en_now E) 50 (hb_tables h))) =
      mset (map mo_key (filter (due (en_now E)) (msg_operations (hb_tables h))))"
    using ListDue_all(2) [OF assms(4)] by simp
  then show "distinct (map mo_key (ListDueMsgOps (en_now E) 50 (hb_tables h)))"
    using mset_eq_imp_distinct_iff distinct_map_filter [OF dist] by metis
  show "mo_LeasedUntil op < col_time (en_now E)" using assms(3) by (simp add: due_def)
qed (use assms(5,6) in auto)

lemma admitted_delivered:
  assumes "h = fold (hub_step H) es new_hub"
    and "ParseMsgTopic topic = Some (tenant, b, ''out'')" "Check H s = []"
    and "GetMsgOp (tenant, bridge_principal b, sb_OpID s) (hb_tables h) = None" "mid_free tenant (bridge_principal b) s (hb_tables h)"
    and "UnixMilli (en_now E) \<le> sb_ExpiresAt s" "en_bridge E tenant (BridgeOf (sb_To s)) = Some True" "en_now E \<noteq> zero_time"
    and "col_time (en_now E) \<le> col_time (en_now E')" "0 < col_time (en_now E')" "UnixMilli (en_now E') < sb_ExpiresAt s"
    and "length (filter (due (en_now E')) (msg_operations (hb_tables h))) < 50"
    and "en_bridge E' tenant (BridgeOf (sb_To s)) = Some True" "en_bus E' (TopicMsgInFor tenant (BridgeOf (sb_To s)))"
  shows "(TopicMsgInFor tenant (BridgeOf (sb_To s)),
      PDelivery (DeliveryOf (admitted_row tenant (bridge_principal b) s (en_now E) (en_db E)))) \<in>
    set (hb_published (deliver H E' (HandleOut H E topic (Some s) h)))"
proof -
  define row where "row = admitted_row tenant (bridge_principal b) s (en_now E) (en_db E)"
  obtain mids where h1: "HandleOut H E topic (Some s) h =
      h\<lparr>hb_tables := (hb_tables h)\<lparr>msg_mids := mids, msg_operations := msg_operations (hb_tables h) @ [row]\<rparr>\<rparr>" (is "_ = ?h")
    unfolding row_def by (rule HandleOut_admits [OF assms(2,3,4,6,7,5)])
  have row: "mo_TenantID row = tenant" "mo_Recipient row = sb_To s" "due (en_now E') row"
    using assms(8-11) by (simp_all add: row_def admitted_row_def new_op_def due_def MsgOpTerminal_def)
  have "hub_ok H (subs_of (es @ [(E, OutMsg topic (Some s))])) (acks_of (es @ [(E, OutMsg topic (Some s))])) ?h"
    using hub_run_ok [of H "es @ [(E, OutMsg topic (Some s))]"] by (simp add: hub_step_def assms(1) [symmetric] h1)
  then have inv: "tables_inv H (subs_of (es @ [(E, OutMsg topic (Some s))])) (acks_of (es @ [(E, OutMsg topic (Some s))])) (hb_tables ?h)"
    by (simp add: hub_ok_def)
  show ?thesis
    unfolding h1 using deliver_delivers [OF inv, of row E'] row assms(12-14) by (simp add: row_def)
qed

section \<open>Handling a message twice\<close>

definition same_but_time :: "MsgTables \<Rightarrow> MsgTables \<Rightarrow> bool" where
  "same_but_time d d' \<longleftrightarrow> map (\<lambda>r. r\<lparr>mo_UpdatedAt := 0\<rparr>) (msg_operations d) = map (\<lambda>r. r\<lparr>mo_UpdatedAt := 0\<rparr>) (msg_operations d') \<and>
     msg_mids d = msg_mids d' \<and> msg_op_events d = msg_op_events d'"

lemma same_but_time_refl [simp]: "same_but_time d d"
  by (simp add: same_but_time_def)

lemma Replay_idem: "snd (ReplayMsgOpEvents k (snd (ReplayMsgOpEvents k d))) = snd (ReplayMsgOpEvents k d)"
  by (simp add: ReplayMsgOpEvents_def me_key_def)

lemma Replay_none:
  assumes "k \<notin> me_key ` set (msg_op_events d)"
  shows "snd (ReplayMsgOpEvents k d) = d"
proof -
  have "map (\<lambda>e. if me_key e = k then e\<lparr>me_PublishedAt := None\<rparr> else e) (msg_op_events d) = msg_op_events d"
    using assms by (intro map_idI) auto
  then show ?thesis by (simp add: ReplayMsgOpEvents_def)
qed

lemma refuse_tables [simp]: "hb_tables (refuse E tenant b op mid reason h) = hb_tables h"
  by (simp add: refuse_def)

lemma HandleOut_stored:
  assumes "ParseMsgTopic topic = Some (tenant, b, ''out'')" "GetMsgOp (tenant, bridge_principal b, sb_OpID s) (hb_tables h) = Some r"
  shows "hb_tables (HandleOut H E topic (Some s) h) =
    (if Check H s = [] \<and> sameImmutable r s then snd (ReplayMsgOpEvents (tenant, bridge_principal b, sb_OpID s) (hb_tables h))
     else hb_tables h)"
  using assms by (simp add: HandleOut_def Submit_def repeatVerdict_def refused_def Let_def)

lemma AdmitMsgOp_events:
  "msg_op_events (snd (AdmitMsgOp db op d)) = msg_op_events d"
  "GetMsgOp (mo_key op) d = None \<Longrightarrow> fst (AdmitMsgOp db op d) \<noteq> MsgOpExisting o1"
  by (simp_all add: AdmitMsgOp_def Let_def split: option.splits)

lemma HandleOut_new:
  assumes "ParseMsgTopic topic = Some (tenant, b, ''out'')" "GetMsgOp (tenant, bridge_principal b, sb_OpID s) (hb_tables h) = None"
  shows "msg_op_events (hb_tables (HandleOut H E topic (Some s) h)) = msg_op_events (hb_tables h)"
proof -
  define op where "op = new_op tenant (bridge_principal b) s (en_now E)"
  obtain res d where adm: "AdmitMsgOp (en_db E) op (hb_tables h) = (res, d)" by fastforce
  have "GetMsgOp (mo_key op) (hb_tables h) = None" using assms(2) by (simp add: op_def new_op_def mo_key_def)
  then have "msg_op_events d = msg_op_events (hb_tables h)" "\<forall>o1. res \<noteq> MsgOpExisting o1"
    using AdmitMsgOp_events(1) [of "en_db E" op "hb_tables h"] AdmitMsgOp_events(2) [of op "hb_tables h" "en_db E"] adm by auto
  then show ?thesis
    using assms adm by (cases res) (simp_all add: HandleOut_def Submit_def refused_def op_def split: option.splits bool.splits)
qed

lemma HandleOut_twice:
  assumes ok: "hub_ok H subs acks h" and p: "ParseMsgTopic topic = Some (tenant, b, ''out'')"
    and st: "GetMsgOp (tenant, bridge_principal b, sb_OpID s) (hb_tables (HandleOut H E topic (Some s) h)) \<noteq> None"
  shows "hb_tables (HandleOut H E' topic (Some s) (HandleOut H E topic (Some s) h)) = hb_tables (HandleOut H E topic (Some s) h)"
proof -
  let ?k = "(tenant, bridge_principal b, sb_OpID s)" and ?h = "HandleOut H E topic (Some s) h"
  obtain r where r: "GetMsgOp ?k (hb_tables ?h) = Some r" using st by blast
  have "snd (ReplayMsgOpEvents ?k (hb_tables ?h)) = hb_tables ?h" if "Check H s = []" "sameImmutable r s"
  proof (cases "GetMsgOp ?k (hb_tables h)")
    case (Some r')
    have "GetMsgOp ?k (hb_tables ?h) = Some r'"
      using Some unfolding HandleOut_stored [OF p Some] by (simp add: GetMsgOp_def ReplayMsgOpEvents_def)
    with r have "r' = r" by simp
    then show ?thesis unfolding HandleOut_stored [OF p Some] using that Replay_idem by simp
  next
    case None
    have "?k \<notin> me_key ` set (msg_op_events (hb_tables h))"
      using inv_event_key [of H subs acks "hb_tables h"] ok None by (auto simp: hub_ok_def GetMsgOp_None)
    then show ?thesis using HandleOut_new [OF p None] by (intro Replay_none) simp
  qed
  then show ?thesis unfolding HandleOut_stored [OF p r] by simp
qed

lemma HandleAck_cases:
  obtains "\<And>E. HandleAck H E topic (Some a) h = h"
  | tenant b op kind cls reason answer where
    "ParseMsgTopic topic = Some (tenant, b, ''ack'')" "ak_V a = 1" "GetMsgOp (tenant, ak_From a, ak_OpID a) (hb_tables h) = Some op"
    "mo_Recipient op = bridge_principal b" "mo_Mid op = ak_Mid a" "AckEvidence a = Some (kind, cls, reason, answer)"
proof (cases "\<forall>E. HandleAck H E topic (Some a) h = h")
  case False
  then show thesis using that(2) by (auto simp: HandleAck_def split: option.splits if_splits)
qed (use that(1) in blast)

lemma HandleAck_eq:
  assumes "ParseMsgTopic topic = Some (tenant, b, ''ack'')" "ak_V a = 1" "GetMsgOp (tenant, ak_From a, ak_OpID a) (hb_tables h) = Some op"
    "mo_Recipient op = bridge_principal b" "mo_Mid op = ak_Mid a" "AckEvidence a = Some (kind, cls, reason, answer)"
  shows "HandleAck H E topic (Some a) h =
    (let (res, d) = record_event H E op kind cls ''recipient'' reason (hb_tables h)
     in if res = OpNotFound \<or> res = RevTaken then h
        else h\<lparr>hb_tables := (if answer \<noteq> [] then SetMsgOpRecipientAnswer (en_db E) (mo_key op) answer d else d)\<rparr>)"
  using assms by (simp add: HandleAck_def)

text \<open>Recorded evidence stays known.\<close>

lemma record_event_known:
  assumes inv: "tables_inv H subs acks d" "op \<in> set (msg_operations d)"
    and rec: "record_event H E op kind cls authority reason d = (res, d')"
  shows "res = EventKnown \<or> res = EventAdded"
    "EventIDFor (sha256 H) op kind cls reason \<in> me_EventID ` set (msg_op_events d')"
proof -
  have evid: "me_EventID (NewEvent (sha256 H) op kind cls authority reason [] (en_now E)) = EventIDFor (sha256 H) op kind cls reason"
    by (simp add: NewEvent_def)
  note cs = AddMsgOpEvent_cases [OF inv refl refl, of "en_db E" kind cls authority reason "[]" "en_now E", unfolded evid]
  show "res = EventKnown \<or> res = EventAdded" using cs rec unfolding record_event_def by (auto simp: Let_def)
  show "EventIDFor (sha256 H) op kind cls reason \<in> me_EventID ` set (msg_op_events d')"
    using cs rec unfolding record_event_def by (auto simp: Let_def NewEvent_def)
qed

lemma record_event_again:
  assumes "tables_inv H subs acks d" "op \<in> set (msg_operations d)"
    and "EventIDFor (sha256 H) op kind cls reason \<in> me_EventID ` set (msg_op_events d)"
  shows "record_event H E op kind cls authority reason d = (EventKnown, d)"
proof -
  have "me_EventID (NewEvent (sha256 H) op kind cls authority reason [] (en_now E)) = EventIDFor (sha256 H) op kind cls reason"
    by (simp add: NewEvent_def)
  then show ?thesis
    using AddMsgOpEvent_cases [OF assms(1,2) refl refl, of "en_db E" kind cls authority reason "[]" "en_now E"] assms(3)
    unfolding record_event_def by (auto simp: Let_def)
qed

lemma cores_answer: "map core (msg_operations (SetMsgOpRecipientAnswer db k answer d)) = map core (msg_operations d)"
  by (auto simp: SetMsgOpRecipientAnswer_def core_def)

lemma HandleAck_twice:
  assumes ok: "hub_ok H subs acks h"
    and acks: "\<And>tenant b. ParseMsgTopic topic = Some (tenant, b, ''ack'') \<Longrightarrow> (tenant, bridge_principal b, a) \<in> acks"
  shows "same_but_time (hb_tables (HandleAck H E' topic (Some a) (HandleAck H E topic (Some a) h))) (hb_tables (HandleAck H E topic (Some a) h))"
proof (cases rule: HandleAck_cases [of H topic a h])
  case 1
  then show ?thesis by simp
next
  case (2 tenant b op kind cls reason answer)
  let ?h = "HandleAck H E topic (Some a) h"
  obtain res d where rec: "record_event H E op kind cls ''recipient'' reason (hb_tables h) = (res, d)" by fastforce
  have inv: "tables_inv H subs acks (hb_tables h)" using ok by (simp add: hub_ok_def)
  note op = GetMsgOp_SomeD [OF 2(3)]
  note known = record_event_known [OF inv op [THEN conjunct1] rec]
  have h1: "hb_tables ?h = (if answer \<noteq> [] then SetMsgOpRecipientAnswer (en_db E) (mo_key op) answer d else d)"
    using known(1) unfolding HandleAck_eq [OF 2] rec by auto
  have inv1: "tables_inv H subs acks (hb_tables ?h)" using HandleAck_ok [OF ok] acks unfolding hub_ok_def by blast
  have "map core (msg_operations (hb_tables ?h)) = map core (msg_operations (hb_tables h))"
    using cores_kept(3) [of H E op kind cls "''recipient''" reason "hb_tables h"] cores_answer unfolding h1 rec by simp
  then have "core op \<in> core ` set (msg_operations (hb_tables ?h))" using op by (metis image_eqI set_map)
  then obtain op' where op': "op' \<in> set (msg_operations (hb_tables ?h))" "core op' = core op" by auto
  note f = core_fields [OF op'(2)]
  have get': "GetMsgOp (tenant, ak_From a, ak_OpID a) (hb_tables ?h) = Some op'"
    using GetMsgOp_eq [OF _ op'(1)] inv1 op f(12) by (simp add: tables_inv_def)
  have ev': "EventIDFor (sha256 H) op' kind cls reason \<in> me_EventID ` set (msg_op_events (hb_tables ?h))"
    using known(2) core_cong(2) [OF op'(2)] unfolding h1 by (simp add: SetMsgOpRecipientAnswer_def)
  have "hb_tables (HandleAck H E' topic (Some a) ?h) =
      (if answer \<noteq> [] then SetMsgOpRecipientAnswer (en_db E') (mo_key op') answer (hb_tables ?h) else hb_tables ?h)"
    using HandleAck_eq [OF 2(1,2) get' _ _ 2(6), of H E'] record_event_again [OF inv1 op'(1) ev'] f 2(4,5) by simp
  then show ?thesis
    unfolding f(12) by (auto simp: h1 same_but_time_def SetMsgOpRecipientAnswer_def mo_key_def)
qed

section \<open>Expiry\<close>

definition expiry_id :: "hashes \<Rightarrow> MsgOp \<Rightarrow> string" where
  "expiry_id H o1 = EventIDFor (sha256 H) o1 ''hub_expired'' ''expired'' ''expired''"

abbreviation (input) "expire_row H E op d \<equiv> snd (record_event H E op ''hub_expired'' ''expired'' ''hub'' ''expired'' d)"

lemma strongest_expired: "MsgOpTerminal (strongest (cs @ [''expired'']))"
  by (auto simp: strongest_def ProjectionOrder_def MsgOpTerminal_def)

lemma Project_expired:
  assumes "Valid (as_operation o1) (as_evidence o1 e)" "me_Class e = ''expired''" "me_EventID e \<notin> me_EventID ` set evs"
  shows "MsgOpTerminal (fst (Project o1 (evs @ [e])))"
proof -
  obtain h r where f: "fold (collect_event (as_operation o1)) (map (as_evidence o1) evs) ([], []) = (h, r)" by fastforce
  have "ev_EventID ` set h \<subseteq> me_EventID ` set evs"
    using fold_collect [OF f, of "set (map (as_evidence o1) evs)"] by (auto simp: evidence_def as_evidence_def Wire_def)
  then have "ev_EventID (as_evidence o1 e) \<notin> ev_EventID ` set h" using assms(3) by (auto simp: as_evidence_def Wire_def)
  then have "fold (collect_event (as_operation o1)) (map (as_evidence o1) (evs @ [e])) ([], []) = (h @ [as_evidence o1 e], r)"
    using f assms(1) by (simp add: collect_event_def)
  moreover have "ev_Class (as_evidence o1 e) = ''expired''" using assms(2) by (simp add: as_evidence_def Wire_def)
  ultimately show ?thesis using strongest_expired [of "map ev_Class h"] by (simp add: Project_Reduce Reduce_def Let_def)
qed

text \<open>One operation is expired: its row becomes final, the other rows stay.\<close>

lemma expire_one:
  fixes E :: environment
  assumes sha: "\<forall>m. length (sha256 H m) = 32" and inv: "tables_inv H subs acks d"
    and op: "o1 \<in> set (msg_operations d)" "core op = core o1" "expiry_id H op \<notin> me_EventID ` set (msg_op_events d)"
  defines "d' \<equiv> expire_row H E op d"
  shows "filter (overdue now) (msg_operations d') = filter (\<lambda>r. mo_key r \<noteq> mo_key op) (filter (overdue now) (msg_operations d))"
    "me_EventID ` set (msg_op_events d') = insert (expiry_id H op) (me_EventID ` set (msg_op_events d))"
proof -
  define ev where "ev = NewEvent (sha256 H) op ''hub_expired'' ''expired'' ''hub'' ''expired'' [] (en_now E)"
  have evid: "me_EventID ev = expiry_id H op" by (simp add: ev_def NewEvent_def expiry_id_def)
  obtain at' where add: "let ev' = ev\<lparr>me_Rev := mo_Rev o1 + 1, me_At := at', me_PublishedAt := None\<rparr>; es = op_events (mo_key o1) d @ [ev']
      in AddMsgOpEvent (en_db E) ev (Project op) d =
        (EventAdded, upd_op (mo_key o1) (\<lambda>r. r\<lparr>mo_State := fst (Project op es), mo_Conflict := snd (Project op es),
             mo_Rev := me_Rev ev', mo_UpdatedAt := col_time (en_db E)\<rparr>) (d\<lparr>msg_op_events := msg_op_events d @ [ev']\<rparr>))"
    using AddMsgOpEvent_cases [OF inv op(1,2) ev_def, of "en_db E"] op(3) unfolding evid by blast
  define ev' where "ev' = ev\<lparr>me_Rev := mo_Rev o1 + 1, me_At := at', me_PublishedAt := None\<rparr>"
  define es where "es = op_events (mo_key o1) d @ [ev']"
  define f where "f r = r\<lparr>mo_State := fst (Project op es), mo_Conflict := snd (Project op es), mo_Rev := me_Rev ev',
      mo_UpdatedAt := col_time (en_db E)\<rparr>" for r :: MsgOp
  have d': "d' = upd_op (mo_key o1) f (d\<lparr>msg_op_events := msg_op_events d @ [ev']\<rparr>)"
    using add unfolding d'_def record_event_def ev_def [symmetric] Let_def ev'_def [symmetric] es_def [symmetric] f_def [symmetric] by simp
  have "event_ok H acks op ev'"
    by (simp add: event_ok_def ev'_def ev_def NewEvent_def me_key_def mo_key_def allowedKinds_def)
  then have "Valid (as_operation op) (as_evidence op ev')" by (rule event_ok_Valid [OF sha])
  moreover have "me_EventID ev' \<notin> me_EventID ` set (op_events (mo_key o1) d)"
    using op(3) evid by (auto simp: ev'_def op_events_def)
  ultimately have "MsgOpTerminal (fst (Project op es))"
    unfolding es_def by (intro Project_expired) (simp_all add: ev'_def ev_def NewEvent_def)
  then have fin: "\<not> overdue now (f r)" for r by (simp add: overdue_def f_def)
  have key: "mo_key op = mo_key o1" by (rule core_fields(12) [OF op(2)])
  have "filter (overdue now) (map (\<lambda>r. if mo_key r = mo_key o1 then f r else r) xs) =
      filter (\<lambda>r. mo_key r \<noteq> mo_key op) (filter (overdue now) xs)" for xs
    using fin by (induction xs) (auto simp: key)
  then show "filter (overdue now) (msg_operations d') = filter (\<lambda>r. mo_key r \<noteq> mo_key op) (filter (overdue now) (msg_operations d))"
    by (simp add: d')
  show "me_EventID ` set (msg_op_events d') = insert (expiry_id H op) (me_EventID ` set (msg_op_events d))"
    using evid by (simp add: d' ev'_def)
qed

lemma expire_many:
  fixes E :: environment
  assumes sha: "\<forall>m. length (sha256 H m) = 32" and inv: "tables_inv H subs acks d"
    and ops: "core ` set ops \<subseteq> core ` set (msg_operations d)" "distinct (map (expiry_id H) ops)"
      "\<forall>op \<in> set ops. expiry_id H op \<notin> me_EventID ` set (msg_op_events d)"
  defines "d' \<equiv> fold (expire_row H E) ops d"
  shows "filter (overdue now) (msg_operations d') = filter (\<lambda>r. mo_key r \<notin> mo_key ` set ops) (filter (overdue now) (msg_operations d))"
    "me_EventID ` set (msg_op_events d') = expiry_id H ` set ops \<union> me_EventID ` set (msg_op_events d)"
proof -
  have "filter (overdue now) (msg_operations (fold (expire_row H E) ops d)) =
      filter (\<lambda>r. mo_key r \<notin> mo_key ` set ops) (filter (overdue now) (msg_operations d)) \<and>
    me_EventID ` set (msg_op_events (fold (expire_row H E) ops d)) =
      expiry_id H ` set ops \<union> me_EventID ` set (msg_op_events d)"
    using inv ops
  proof (induction ops arbitrary: d)
    case (Cons op ops)
    let ?d = "expire_row H E op d"
    have "core op \<in> core ` set (msg_operations d)" using Cons.prems(2) by simp
    then obtain o1 where o1: "o1 \<in> set (msg_operations d)" "core op = core o1" by auto
    have fresh: "expiry_id H op \<notin> me_EventID ` set (msg_op_events d)" using Cons.prems(4) by simp
    note one = expire_one [OF sha Cons.prems(1) o1 fresh, where E = E]
    have inv1: "tables_inv H subs acks ?d"
      by (rule inv_record_event [OF Cons.prems(1)]) (use Cons.prems(2) in \<open>auto simp: allowedKinds_def\<close>)
    have cores: "core ` set (msg_operations ?d) = core ` set (msg_operations d)" using cores_kept(3) by (metis set_map)
    have "\<forall>op' \<in> set ops. expiry_id H op' \<notin> me_EventID ` set (msg_op_events ?d)"
    proof
      fix op' assume "op' \<in> set ops"
      moreover have "expiry_id H op \<notin> expiry_id H ` set ops" using Cons.prems(3) unfolding list.map distinct.simps set_map by blast
      ultimately have "expiry_id H op' \<noteq> expiry_id H op" by (metis image_eqI)
      then show "expiry_id H op' \<notin> me_EventID ` set (msg_op_events ?d)"
        unfolding one(2) using Cons.prems(4) \<open>op' \<in> set ops\<close> by (simp only: insert_iff list.set) blast
    qed
    then have "filter (overdue now) (msg_operations (fold (expire_row H E) ops ?d)) =
        filter (\<lambda>r. mo_key r \<notin> mo_key ` set ops) (filter (overdue now) (msg_operations ?d)) \<and>
      me_EventID ` set (msg_op_events (fold (expire_row H E) ops ?d)) =
        expiry_id H ` set ops \<union> me_EventID ` set (msg_op_events ?d)"
      using Cons.prems(2,3) cores by (intro Cons.IH [OF inv1]) auto
    moreover have "filter (\<lambda>r. mo_key r \<notin> mo_key ` set ops) (filter (\<lambda>r. mo_key r \<noteq> mo_key op) xs) =
        filter (\<lambda>r. mo_key r \<notin> mo_key ` set (op # ops)) xs" for xs
      by (induction xs) simp_all
    ultimately show ?case unfolding one by simp
  qed simp
  then show "filter (overdue now) (msg_operations d') = filter (\<lambda>r. mo_key r \<notin> mo_key ` set ops) (filter (overdue now) (msg_operations d))"
    "me_EventID ` set (msg_op_events d') = expiry_id H ` set ops \<union> me_EventID ` set (msg_op_events d)"
    by (simp_all only: d'_def)
qed

definition expiry_ids_fresh :: "hashes \<Rightarrow> instant \<Rightarrow> MsgTables \<Rightarrow> bool" where
  "expiry_ids_fresh H now d \<longleftrightarrow> distinct (map (expiry_id H) (filter (overdue now) (msg_operations d))) \<and>
     (\<forall>op \<in> set (filter (overdue now) (msg_operations d)). expiry_id H op \<notin> me_EventID ` set (msg_op_events d))"

lemma length_filter_notin:
  assumes "distinct (map f xs)" "set ys \<subseteq> set xs" "distinct ys"
  shows "length (filter (\<lambda>r. f r \<notin> f ` set ys) xs) = length xs - length ys"
proof -
  have inj: "inj_on f (set xs)" and "distinct xs" using assms(1) by (auto simp: distinct_map)
  then have "set (filter (\<lambda>r. f r \<notin> f ` set ys) xs) = set xs - set ys"
    using assms(2) by (auto dest: inj_onD)
  then have "card (set (filter (\<lambda>r. f r \<notin> f ` set ys) xs)) = card (set xs) - card (set ys)"
    using assms(2) by (simp add: card_Diff_subset)
  then show ?thesis using \<open>distinct xs\<close> assms(3) distinct_card [OF distinct_filter [OF \<open>distinct xs\<close>]] by (metis distinct_card)
qed

lemma expire_pass:
  fixes E :: environment
  assumes sha: "\<forall>m. length (sha256 H m) = 32" and inv: "tables_inv H subs acks (hb_tables h)"
    and fresh: "expiry_ids_fresh H (en_now E) (hb_tables h)"
  defines "late h' \<equiv> filter (overdue (en_now E)) (msg_operations (hb_tables h'))"
  shows "expiry_ids_fresh H (en_now E) (hb_tables (expire H E h)) \<and> length (late (expire H E h)) = length (late h) - 100"
proof -
  define ops where "ops = ListExpiredMsgOps (en_now E) 100 (hb_tables h)"
  let ?s = "sort_key mo_ExpiresAt (late h)"
  have ops: "ops = take 100 ?s" by (simp add: ops_def late_def ListExpiredMsgOps_def row_limit_def)
  have sub: "set ops \<subseteq> set (late h)" unfolding ops using set_take_subset [of 100 ?s] by simp
  have ids: "distinct (map (expiry_id H) (late h))" and free: "\<forall>op \<in> set (late h). expiry_id H op \<notin> me_EventID ` set (msg_op_events (hb_tables h))"
    using fresh by (auto simp: expiry_ids_fresh_def late_def)
  have dist: "distinct ops" "distinct (late h)" using ids by (auto simp: ops distinct_map)
  have keys: "distinct (map mo_key (late h))"
    using inv unfolding tables_inv_def late_def by (simp add: distinct_map_filter)
  have inj: "inj_on (expiry_id H) (set (late h))" using ids by (simp add: distinct_map)
  have core: "core ` set ops \<subseteq> core ` set (msg_operations (hb_tables h))" using sub by (auto simp: late_def)
  have "distinct (map (expiry_id H) ops)" using dist(1) inj sub by (simp add: distinct_map inj_on_subset)
  moreover have "\<forall>op \<in> set ops. expiry_id H op \<notin> me_EventID ` set (msg_op_events (hb_tables h))" using free sub by blast
  ultimately have many: "late (expire H E h) = filter (\<lambda>r. mo_key r \<notin> mo_key ` set ops) (late h)"
    "me_EventID ` set (msg_op_events (hb_tables (expire H E h))) = expiry_id H ` set ops \<union> me_EventID ` set (msg_op_events (hb_tables h))"
    using expire_many [OF sha inv core, where E = E] by (simp_all add: late_def expire_def ops_def)
  have "length (late (expire H E h)) = length (late h) - length ops"
    unfolding many(1) by (rule length_filter_notin [OF keys sub dist(1)])
  moreover have "expiry_id H op \<notin> expiry_id H ` set ops" if "op \<in> set (late h)" "mo_key op \<notin> mo_key ` set ops" for op
    using that inj sub by (auto dest: inj_onD)
  then have "\<forall>op \<in> set (late (expire H E h)). expiry_id H op \<notin> me_EventID ` set (msg_op_events (hb_tables (expire H E h)))"
    unfolding many using free by auto
  ultimately show ?thesis using ids
    by (auto simp: expiry_ids_fresh_def late_def [symmetric] ops many(1) distinct_map_filter)
qed

lemma expire_passes:
  assumes "\<forall>m. length (sha256 H m) = 32" "hub_ok H subs acks h" "expiry_ids_fresh H (en_now E) (hb_tables h)"
  shows "hub_ok H subs acks ((expire H E ^^ k) h) \<and> expiry_ids_fresh H (en_now E) (hb_tables ((expire H E ^^ k) h)) \<and>
    length (filter (overdue (en_now E)) (msg_operations (hb_tables ((expire H E ^^ k) h)))) =
      length (filter (overdue (en_now E)) (msg_operations (hb_tables h))) - 100 * k"
proof (induction k)
  case (Suc k)
  let ?h = "(expire H E ^^ k) h"
  have "tables_inv H subs acks (hb_tables ?h)" using Suc by (simp add: hub_ok_def)
  then show ?case using expire_pass [OF assms(1), of subs acks ?h E] Suc expire_ok by simp
qed (use assms in simp)

section \<open>A concrete submission\<close>

definition demo_hashes :: hashes where
  "demo_hashes = \<lparr>sha1 = (\<lambda>m. replicate 20 0), sha256 = (\<lambda>m. replicate 32 0)\<rparr>"

definition demo_sub :: Submission where
  "demo_sub = \<lparr>sb_V = 1, sb_OpID = NewV7 (replicate 10 1) 5, sb_Mid = NewV7 (replicate 10 2) 5, sb_To = ''bridge:b'',
     sb_ContentType = ContentTypeText, sb_MidExpiresAt = 1000000, sb_ExpiresAt = 1000000,
     sb_ContentSHA256 = hex_EncodeToString (replicate 32 0), sb_Body = [72, 105]\<rparr>"

definition demo_env :: "instant \<Rightarrow> environment" where
  "demo_env t = \<lparr>en_now = t, en_db = t, en_bridge = (\<lambda>tenant b. Some True), en_bus = (\<lambda>topic. True)\<rparr>"

definition demo_topic :: string where "demo_topic = BridgeTopic ''default'' ''a'' ''msg/out''"

lemma IDValid_NewV7: "length rnd = 10 \<Longrightarrow> field \<noteq> ''sos_id'' \<Longrightarrow> IDValid hash (NewV7 rnd ms) field c"
  unfolding IDValid_def parse_NewV7 using set_version_bits [of "v7_time ms @ rnd" "0x70"] by simp

lemma put_fields_short: "\<forall>f \<in> set fs. length f < 1000 \<Longrightarrow> \<exists>out. put_fields fs = Inr out"
  by (induction fs) auto

lemma demo_digest: "ContentSHA256 (sha256 demo_hashes) (NewV7 (replicate 10 2) 5) ''bridge:b'' ContentTypeText 1000000 [72, 105] =
    Inr (hex_EncodeToString (replicate 32 0))"
proof -
  define m where "m = set_version 0x70 (v7_time 5 @ replicate 10 2)"
  have "length m = 16" unfolding m_def by (rule set_version_simps) simp
  then have "\<exists>out. put_fields [str_bytes ContentTag, m, str_bytes ''bridge:b'', str_bytes ContentTypeText, put_u64_be (of_int 1000000), [72, 105]] = Inr out"
    by (intro put_fields_short) (simp add: ContentTag_def ContentTypeText_def)
  then obtain out where "ContentPreimage (NewV7 (replicate 10 2) 5) ''bridge:b'' ContentTypeText 1000000 [72, 105] = Inr out"
    unfolding ContentPreimage_def parse_NewV7 [of "replicate 10 2" 5, simplified] m_def by auto
  then show ?thesis by (simp add: ContentSHA256_def demo_hashes_def)
qed

lemma demo_check: "Check demo_hashes demo_sub = []"
  using demo_digest by (simp add: Check_def demo_sub_def IDValid_NewV7 BridgeOf_def MaxBody_def)

lemma demo_parse: "ParseMsgTopic demo_topic = Some (''default'', ''a'', ''out'')"
proof -
  have "Split (CHR ''/'') ''msg/out'' = [''msg'', ''out'']"
    using Split_append_sep [of "CHR ''/''" "''msg''" "''out''"] by (simp add: Split_word)
  then show ?thesis
    using Parse_BridgeTopic [OF default_ok, of "''a''" "''msg/out''"]
    by (simp add: ParseMsgTopic_def demo_topic_def DefaultTenant_def del: Split.simps)
qed

lemmas demo_simps = demo_env_def UnixMilli_def col_time_def

definition demo_run :: "(environment \<times> hub_event) list" where
  "demo_run = [(demo_env 2000000000, OutMsg demo_topic (Some demo_sub)), (demo_env 3000000000, DeliverPass)]"

lemma demo_new:
  "GetMsgOp k (hb_tables new_hub) = None" "mid_free tenant sender s (hb_tables new_hub)"
  "filter P (msg_operations (hb_tables new_hub)) = []"
  by (simp_all add: new_hub_def no_tables_def GetMsgOp_def mid_free_def)

lemma demo_to: "BridgeOf (sb_To demo_sub) = ''b''"
  by (simp add: demo_sub_def BridgeOf_def)

lemma demo_delivered:
  "\<exists>dl. (TopicMsgInFor ''default'' ''b'', PDelivery dl) \<in> set (hb_published (fold (hub_step demo_hashes) demo_run new_hub))"
proof -
  have "fold (hub_step demo_hashes) demo_run new_hub =
      deliver demo_hashes (demo_env 3000000000) (HandleOut demo_hashes (demo_env 2000000000) demo_topic (Some demo_sub) new_hub)"
    by (simp add: demo_run_def hub_step_def)
  moreover have "(TopicMsgInFor ''default'' (BridgeOf (sb_To demo_sub)), PDelivery (DeliveryOf (admitted_row ''default''
        (bridge_principal ''a'') demo_sub (en_now (demo_env 2000000000)) (en_db (demo_env 2000000000))))) \<in> set (hb_published (deliver demo_hashes (demo_env 3000000000)
        (HandleOut demo_hashes (demo_env 2000000000) demo_topic (Some demo_sub) new_hub)))"
    by (rule admitted_delivered [of _ _ "[]", OF _ demo_parse demo_check demo_new(1,2)])
      (simp_all add: demo_new demo_simps zero_time_def, simp_all add: demo_sub_def)
  ultimately show ?thesis unfolding demo_to by metis
qed

section \<open>Properties\<close>

text \<open>C3: In every run of the hub, over any submissions, answers, passes, clocks and failures of
  the bus: no operation and no event id is stored twice; the events of an operation are numbered
  1, 2, 3, ... up to its revision; its state and conflict mark are those its events reduce to;
  every event is evidence that may join its operation; and the operations of one sender under
  one message id have one content digest. Hypothesis: SHA-256 gives 32 bytes.\<close>

theorem hub_tables_consistent:
  assumes "\<forall>m. length (sha256 H m) = 32" "d = hb_tables (fold (hub_step H) es new_hub)"
  shows "distinct (map mo_key (msg_operations d)) \<and> distinct (map me_EventID (msg_op_events d)) \<and>
    (\<forall>o1 \<in> set (msg_operations d). let evs = ListMsgOpEvents (mo_key o1) d in
       map me_Rev evs = [1..<Suc (mo_Rev o1)] \<and> (mo_State o1, mo_Conflict o1) = Project o1 evs) \<and>
    (\<forall>e \<in> set (msg_op_events d). \<exists>o1 \<in> set (msg_operations d).
       mo_key o1 = me_key e \<and> Valid (as_operation o1) (as_evidence o1 e)) \<and>
    (\<forall>o1 \<in> set (msg_operations d). \<forall>o2 \<in> set (msg_operations d).
       mo_TenantID o1 = mo_TenantID o2 \<and> mo_Sender o1 = mo_Sender o2 \<and> mo_Mid o1 = mo_Mid o2 \<longrightarrow>
       mo_ContentSHA256 o1 = mo_ContentSHA256 o2)"
proof -
  have inv: "tables_inv H (subs_of es) (acks_of es) d" using hub_run_ok [of H es] assms(2) by (simp add: hub_ok_def)
  have "\<forall>o1 \<in> set (msg_operations d). let evs = ListMsgOpEvents (mo_key o1) d in
      map me_Rev evs = [1..<Suc (mo_Rev o1)] \<and> (mo_State o1, mo_Conflict o1) = Project o1 evs"
    using inv inv_events_sorted [OF inv] unfolding tables_inv_def op_ok_def Let_def by metis
  moreover have "\<forall>e \<in> set (msg_op_events d). \<exists>o1 \<in> set (msg_operations d).
      mo_key o1 = me_key e \<and> Valid (as_operation o1) (as_evidence o1 e)"
    using inv event_ok_Valid [OF assms(1)] unfolding tables_inv_def event_ok_def by metis
  ultimately show ?thesis using inv inv_one_digest [OF inv] unfolding tables_inv_def by blast
qed

theorem hub_tables_consistent_witness:
  "let d = hb_tables (fold (hub_step demo_hashes) demo_run new_hub)
   in distinct (map mo_key (msg_operations d)) \<and> distinct (map me_EventID (msg_op_events d)) \<and>
    (\<forall>o1 \<in> set (msg_operations d). (mo_State o1, mo_Conflict o1) = Project o1 (ListMsgOpEvents (mo_key o1) d))"
proof -
  have "\<forall>m. length (sha256 demo_hashes m) = 32" by (simp add: demo_hashes_def)
  from hub_tables_consistent [OF this refl, of demo_run] show ?thesis by (simp add: Let_def)
qed

text \<open>C4: In every run, what the hub delivers was submitted by the principal it names: a message
  on a recipient's topic carries exactly the fields of a submission that passed the checks,
  received on the topic of the bridge named as sender, of the same tenant, and goes to the
  bridge it is addressed to. And an operation is completed only if its recipient said so: an
  answer "stored" naming the sender, the operation and the message arrived on the recipient's
  own topic, of the same tenant.\<close>

theorem hub_messages_authentic:
  assumes "h = fold (hub_step H) es new_hub"
  shows "((topic, PDelivery dl) \<in> set (hb_published h) \<longrightarrow>
      (\<exists>E t tenant b s. (E, OutMsg t (Some s)) \<in> set es \<and> ParseMsgTopic t = Some (tenant, b, ''out'') \<and> Check H s = [] \<and>
        topic = TopicMsgInFor tenant (BridgeOf (sb_To s)) \<and>
        dl = \<lparr>dl_OpID = sb_OpID s, dl_Mid = sb_Mid s, dl_From = ''bridge:'' @ b, dl_To = sb_To s,
              dl_ContentType = sb_ContentType s, dl_MidExpiresAt = sb_MidExpiresAt s, dl_ExpiresAt = sb_ExpiresAt s,
              dl_ContentSHA256 = sb_ContentSHA256 s, dl_Body = sb_Body s\<rparr>)) \<and>
    (o1 \<in> set (msg_operations (hb_tables h)) \<and> mo_State o1 = ''completed'' \<longrightarrow>
      (\<exists>E t b a. (E, AckMsg t (Some a)) \<in> set es \<and> ParseMsgTopic t = Some (mo_TenantID o1, b, ''ack'') \<and>
        mo_Recipient o1 = ''bridge:'' @ b \<and> ak_From a = mo_Sender o1 \<and> ak_OpID a = mo_OpID o1 \<and> ak_Mid a = mo_Mid o1 \<and>
        ak_Result a = ''stored''))"
proof -
  have ok: "hub_ok H (subs_of es) (acks_of es) h" using hub_run_ok assms by simp
  have "\<exists>E t b a. (E, AckMsg t (Some a)) \<in> set es \<and> ParseMsgTopic t = Some (mo_TenantID o1, b, ''ack'') \<and>
        mo_Recipient o1 = ''bridge:'' @ b \<and> ak_From a = mo_Sender o1 \<and> ak_OpID a = mo_OpID o1 \<and> ak_Mid a = mo_Mid o1 \<and>
        ak_Result a = ''stored''" if "o1 \<in> set (msg_operations (hb_tables h))" "mo_State o1 = ''completed''"
  proof -
    have "acknowledged (acks_of es) o1" using inv_completed ok that unfolding hub_ok_def by blast
    then show ?thesis unfolding acknowledged_def acks_of_def stored_ack_def bridge_principal_def by blast
  qed
  moreover have "\<exists>E t tenant b s. (E, OutMsg t (Some s)) \<in> set es \<and> ParseMsgTopic t = Some (tenant, b, ''out'') \<and> Check H s = [] \<and>
      topic = TopicMsgInFor tenant (BridgeOf (sb_To s)) \<and>
      dl = \<lparr>dl_OpID = sb_OpID s, dl_Mid = sb_Mid s, dl_From = ''bridge:'' @ b, dl_To = sb_To s,
            dl_ContentType = sb_ContentType s, dl_MidExpiresAt = sb_MidExpiresAt s, dl_ExpiresAt = sb_ExpiresAt s,
            dl_ContentSHA256 = sb_ContentSHA256 s, dl_Body = sb_Body s\<rparr>"
    if "(topic, PDelivery dl) \<in> set (hb_published h)"
  proof -
    have "published_ok H (subs_of es) (topic, PDelivery dl)" using ok that unfolding hub_ok_def by blast
    then obtain tenant s where s: "(tenant, dl_From dl, s) \<in> subs_of es" "Check H s = []"
      "topic = TopicMsgInFor tenant (BridgeOf (sb_To s))"
      "dl = \<lparr>dl_OpID = sb_OpID s, dl_Mid = sb_Mid s, dl_From = dl_From dl, dl_To = sb_To s, dl_ContentType = sb_ContentType s,
              dl_MidExpiresAt = sb_MidExpiresAt s, dl_ExpiresAt = sb_ExpiresAt s, dl_ContentSHA256 = sb_ContentSHA256 s,
              dl_Body = sb_Body s\<rparr>" by auto
    then obtain E t b where "(E, OutMsg t (Some s)) \<in> set es" "ParseMsgTopic t = Some (tenant, b, ''out'')"
      "dl_From dl = ''bridge:'' @ b" by (auto simp: subs_of_def bridge_principal_def)
    with s show ?thesis by metis
  qed
  ultimately show ?thesis by blast
qed

theorem hub_messages_authentic_witness:
  "\<exists>dl E t tenant b s. (TopicMsgInFor ''default'' ''b'', PDelivery dl) \<in>
      set (hb_published (fold (hub_step demo_hashes) demo_run new_hub)) \<and>
    (E, OutMsg t (Some s)) \<in> set demo_run \<and> ParseMsgTopic t = Some (tenant, b, ''out'') \<and> dl_From dl = ''bridge:'' @ b"
proof -
  obtain dl where dl: "(TopicMsgInFor ''default'' ''b'', PDelivery dl) \<in>
      set (hb_published (fold (hub_step demo_hashes) demo_run new_hub))" using demo_delivered by blast
  then obtain E t tenant b s where "(E, OutMsg t (Some s)) \<in> set demo_run" "ParseMsgTopic t = Some (tenant, b, ''out'')"
    "dl_From dl = ''bridge:'' @ b"
    using hub_messages_authentic [OF refl, THEN conjunct1, THEN mp, OF dl] by (metis Delivery.select_convs(3))
  with dl show ?thesis by blast
qed

text \<open>C10: A submission that passes the checks, is new under its key, reuses no message id for other
  content, is not overdue and goes to a known bridge is admitted, and the next delivery pass
  publishes it on the recipient's topic, with the submission's own fields and the sender the
  topic named. This holds from every reachable state in which fewer than 50 operations are due,
  for a pass not earlier than the submission and before the deadline, when the recipient is
  still known and the broker takes the publication.\<close>

theorem hub_delivers:
  assumes "h = fold (hub_step H) es new_hub"
    and "ParseMsgTopic topic = Some (tenant, b, ''out'')" "Check H s = []"
    and "GetMsgOp (tenant, bridge_principal b, sb_OpID s) (hb_tables h) = None" "mid_free tenant (bridge_principal b) s (hb_tables h)"
    and "UnixMilli (en_now E) \<le> sb_ExpiresAt s" "en_bridge E tenant (BridgeOf (sb_To s)) = Some True" "en_now E \<noteq> zero_time"
    and "col_time (en_now E) \<le> col_time (en_now E')" "0 < col_time (en_now E')" "UnixMilli (en_now E') < sb_ExpiresAt s"
    and "length (filter (due (en_now E')) (msg_operations (hb_tables h))) < 50"
    and "en_bridge E' tenant (BridgeOf (sb_To s)) = Some True" "en_bus E' (TopicMsgInFor tenant (BridgeOf (sb_To s)))"
  shows "(TopicMsgInFor tenant (BridgeOf (sb_To s)),
      PDelivery \<lparr>dl_OpID = sb_OpID s, dl_Mid = sb_Mid s, dl_From = ''bridge:'' @ b, dl_To = sb_To s,
        dl_ContentType = sb_ContentType s, dl_MidExpiresAt = sb_MidExpiresAt s, dl_ExpiresAt = sb_ExpiresAt s,
        dl_ContentSHA256 = sb_ContentSHA256 s, dl_Body = sb_Body s\<rparr>) \<in>
    set (hb_published (deliver H E' (HandleOut H E topic (Some s) h)))"
  using admitted_delivered [OF assms] by (simp add: DeliveryOf_def admitted_row_def new_op_def bridge_principal_def)

theorem hub_delivers_witness:
  "(TopicMsgInFor ''default'' ''b'',
      PDelivery \<lparr>dl_OpID = sb_OpID demo_sub, dl_Mid = sb_Mid demo_sub, dl_From = ''bridge:a'', dl_To = ''bridge:b'',
        dl_ContentType = ContentTypeText, dl_MidExpiresAt = 1000000, dl_ExpiresAt = 1000000,
        dl_ContentSHA256 = sb_ContentSHA256 demo_sub, dl_Body = [72, 105]\<rparr>) \<in>
    set (hb_published (deliver demo_hashes (demo_env 3000000000)
      (HandleOut demo_hashes (demo_env 2000000000) demo_topic (Some demo_sub) new_hub)))"
  using hub_delivers [of new_hub demo_hashes "[]", OF _ demo_parse demo_check demo_new(1,2), of "demo_env 2000000000" "demo_env 3000000000"]
  by (simp add: demo_to demo_new demo_simps zero_time_def) (simp add: demo_sub_def)




text \<open>C22: Expiry comes to an end: from every reachable state, repeated expiry passes at one time,
  of at most 100 operations each, leave no overdue operation that is not final once there were
  at least one hundredth as many passes as overdue operations; no pass is stuck on an operation
  it expired before. Hypotheses: SHA-256 gives 32 bytes, and the ids of the expiry events to
  come (ten bytes of a hash) collide neither with each other nor with a stored event id.\<close>

theorem expire_finalises:
  assumes "h = fold (hub_step H) es new_hub" "\<forall>m. length (sha256 H m) = 32"
    and "expiry_ids_fresh H (en_now E) (hb_tables h)"
    and "length (filter (overdue (en_now E)) (msg_operations (hb_tables h))) \<le> 100 * k"
  shows "filter (overdue (en_now E)) (msg_operations (hb_tables ((expire H E ^^ k) h))) = []"
  using expire_passes [OF assms(2) _ assms(3), of "subs_of es" "acks_of es" k] hub_run_ok [of H es] assms(1,4) by simp

theorem expire_finalises_witness:
  "let E = demo_env 2000000000000; h = fold (hub_step demo_hashes) [(demo_env 2000000000, OutMsg demo_topic (Some demo_sub))] new_hub
   in filter (overdue (en_now E)) (msg_operations (hb_tables h)) \<noteq> [] \<and>
     filter (overdue (en_now E)) (msg_operations (hb_tables ((expire demo_hashes E ^^ 1) h))) = []"
proof -
  let ?es = "[(demo_env 2000000000, OutMsg demo_topic (Some demo_sub))]" and ?E = "demo_env 2000000000000"
  let ?h = "fold (hub_step demo_hashes) ?es new_hub"
  let ?r = "admitted_row ''default'' (bridge_principal ''a'') demo_sub (en_now (demo_env 2000000000)) (en_db (demo_env 2000000000))"
  obtain mids where "HandleOut demo_hashes (demo_env 2000000000) demo_topic (Some demo_sub) new_hub =
      new_hub\<lparr>hb_tables := (hb_tables new_hub)\<lparr>msg_mids := mids, msg_operations := msg_operations (hb_tables new_hub) @ [?r]\<rparr>\<rparr>"
    by (rule HandleOut_admits [OF demo_parse demo_check demo_new(1) _ _ demo_new(2), of "demo_env 2000000000"])
      (simp_all add: demo_simps, simp add: demo_sub_def)
  then have h: "msg_operations (hb_tables ?h) = [?r]" "msg_op_events (hb_tables ?h) = []"
    by (simp_all add: hub_step_def new_hub_def no_tables_def)
  have late: "overdue (en_now ?E) ?r"
    by (simp add: overdue_def admitted_row_def new_op_def demo_sub_def demo_simps MsgOpTerminal_def)
  have "\<forall>m. length (sha256 demo_hashes m) = 32" by (simp add: demo_hashes_def)
  then have "filter (overdue (en_now ?E)) (msg_operations (hb_tables ((expire demo_hashes ?E ^^ 1) ?h))) = []"
    by (rule expire_finalises [OF refl]) (use h late in \<open>simp_all add: expiry_ids_fresh_def del: fold.simps\<close>)
  then show ?thesis using h late by (simp add: Let_def del: fold.simps)
qed

end
