(* ===== verification/Prog.thy ===== *)
theory Prog
  imports Main
begin

text \<open>
  Programs that work on a shared store, one operation at a time. A Go function that makes
  several calls to the store is a \<open>prog\<close>: it has returned, or it makes a call and goes on with
  the reply. Programs run alone (\<open>run_prog\<close>) or many at a time (\<open>pool_step\<close>: some program makes
  its next call, or a new program starts; a program that is never picked again is a replica
  that stopped). The locale \<open>protocol\<close> is the contract of a store shared by programs: an
  invariant, what every call may do to the store (\<open>may\<close>), and a set of programs each of
  which keeps both, whatever the others do between its calls. Its lemma gives the invariant
  in every state of every interleaving.
\<close>

section \<open>Programs\<close>

datatype ('o, 'r, 'a) prog = Ret 'a | Call 'o "'r \<Rightarrow> ('o, 'r, 'a) prog"

primrec bind_prog :: "('o, 'r, 'a) prog \<Rightarrow> ('a \<Rightarrow> ('o, 'r, 'b) prog) \<Rightarrow> ('o, 'r, 'b) prog" where
  "bind_prog (Ret a) f = f a"
| "bind_prog (Call c k) f = Call c (\<lambda>r. bind_prog (k r) f)"

fun each :: "('x \<Rightarrow> ('o, 'r, 'a) prog) \<Rightarrow> 'x list \<Rightarrow> ('o, 'r, 'a list) prog" where
  "each f [] = Ret []"
| "each f (x # xs) = bind_prog (f x) (\<lambda>a. bind_prog (each f xs) (\<lambda>as. Ret (a # as)))"

text \<open>A program on its own, with one environment for all its calls.\<close>

primrec run_prog :: "('o \<Rightarrow> 'd \<Rightarrow> 'r \<times> 'd) \<Rightarrow> ('o, 'r, 'a) prog \<Rightarrow> 'd \<Rightarrow> 'a \<times> 'd" where
  "run_prog exec (Ret a) = (\<lambda>d. (a, d))"
| "run_prog exec (Call c k) = (\<lambda>d. let (r, d') = exec c d in run_prog exec (k r) d')"

lemma run_bind [simp]:
  "run_prog exec (bind_prog p f) d = (let (a, d') = run_prog exec p d in run_prog exec (f a) d')"
  by (induction p arbitrary: d) (simp_all add: case_prod_beta Let_def)

section \<open>Interleaving\<close>

inductive pool_step :: "('e \<Rightarrow> 'o \<Rightarrow> 'd \<Rightarrow> 'r \<times> 'd) \<Rightarrow> ('e \<Rightarrow> bool) \<Rightarrow> ('o, 'r, unit) prog set \<Rightarrow>
    ('o, 'r, unit) prog list \<times> 'd \<Rightarrow> ('o, 'r, unit) prog list \<times> 'd \<Rightarrow> bool"
  for exec env_ok progs where
  start: "p \<in> progs \<Longrightarrow> pool_step exec env_ok progs (ps, d) (ps @ [p], d)"
| call: "i < length ps \<Longrightarrow> ps ! i = Call c k \<Longrightarrow> env_ok e \<Longrightarrow> exec e c d = (r, d') \<Longrightarrow>
    pool_step exec env_ok progs (ps, d) (ps[i := k r], d')"

abbreviation "pool_reach exec env_ok progs \<equiv> (pool_step exec env_ok progs)\<^sup>*\<^sup>*"

lemma pool_run:
  assumes "env_ok e"
  shows "pool_reach exec env_ok progs ([p], d) ([Ret (fst (run_prog (exec e) p d))], snd (run_prog (exec e) p d))"
proof (induction p arbitrary: d)
  case (Call c k)
  obtain r d' where r: "exec e c d = (r, d')" by fastforce
  have "pool_step exec env_ok progs ([Call c k], d) ([Call c k][0 := k r], d')"
    by (rule pool_step.call) (use assms r in auto)
  then show ?case using Call.IH [of "k r" d'] r by (simp add: converse_rtranclp_into_rtranclp)
qed simp

text \<open>A program alone is one of the interleavings.\<close>

lemma pool_run_one:
  assumes "env_ok e" "p \<in> progs"
  shows "\<exists>ps. pool_reach exec env_ok progs ([], d) (ps, snd (run_prog (exec e) p d))"
proof -
  have "pool_step exec env_ok progs ([], d) ([] @ [p], d)" using assms(2) by (rule pool_step.start)
  moreover have "pool_reach exec env_ok progs ([p], d) ([Ret (fst (run_prog (exec e) p d))], snd (run_prog (exec e) p d))"
    by (rule pool_run) (fact assms(1))
  ultimately show ?thesis by (metis append_Nil converse_rtranclp_into_rtranclp)
qed

section \<open>Programs that keep a contract\<close>

text \<open>\<open>keeps p Q d\<close>: from the state \<open>d\<close> every call of \<open>p\<close> keeps the invariant and does what
  calls may do, and so on from any state that other programs may leave behind; when \<open>p\<close>
  returns, \<open>Q\<close> holds of its result.\<close>

primrec keeps :: "('e \<Rightarrow> 'o \<Rightarrow> 'd \<Rightarrow> 'r \<times> 'd) \<Rightarrow> ('e \<Rightarrow> bool) \<Rightarrow> ('d \<Rightarrow> bool) \<Rightarrow> ('d \<Rightarrow> 'd \<Rightarrow> bool) \<Rightarrow>
    ('o, 'r, 'a) prog \<Rightarrow> ('a \<Rightarrow> 'd \<Rightarrow> bool) \<Rightarrow> 'd \<Rightarrow> bool" where
  "keeps exec env_ok good may (Ret a) = (\<lambda>Q d. Q a d)"
| "keeps exec env_ok good may (Call c k) = (\<lambda>Q d. \<forall>e r d'. env_ok e \<longrightarrow> exec e c d = (r, d') \<longrightarrow>
     good d' \<and> may d d' \<and> (\<forall>d''. good d'' \<longrightarrow> may d' d'' \<longrightarrow> keeps exec env_ok good may (k r) Q d''))"

definition stable :: "('d \<Rightarrow> bool) \<Rightarrow> ('d \<Rightarrow> 'd \<Rightarrow> bool) \<Rightarrow> ('d \<Rightarrow> bool) \<Rightarrow> bool" where
  "stable good may P \<longleftrightarrow> (\<forall>d d'. P d \<longrightarrow> good d' \<longrightarrow> may d d' \<longrightarrow> P d')"

lemma keeps_mono: "keeps exec env_ok good may p Q d \<Longrightarrow> (\<And>a d. Q a d \<Longrightarrow> Q' a d) \<Longrightarrow> keeps exec env_ok good may p Q' d"
proof (induction p arbitrary: d)
  case (Call c k)
  have "keeps exec env_ok good may (k r) Q' d''" if "keeps exec env_ok good may (k r) Q d''" for r d''
    using Call.IH [OF _ that Call.prems(2)] by simp
  then show ?case using Call.prems(1) by simp
qed simp

lemma keeps_bind:
  assumes "keeps exec env_ok good may p Q d" "\<And>a d. Q a d \<Longrightarrow> keeps exec env_ok good may (f a) R d"
  shows "keeps exec env_ok good may (bind_prog p f) R d"
  using assms(1)
proof (induction p arbitrary: d)
  case (Call c k)
  then show ?case by simp
qed (simp add: assms(2))

text \<open>One call: the invariant holds before it, \<open>P\<close> is what the program knows then, \<open>Q\<close> what it
  knows after the reply.\<close>

lemma keeps_Call:
  assumes "\<And>e r d'. env_ok e \<Longrightarrow> exec e c d = (r, d') \<Longrightarrow> good d' \<and> may d d' \<and> Q r d'"
    and "\<And>r. stable good may (Q r)" "\<And>r d'. good d' \<Longrightarrow> Q r d' \<Longrightarrow> keeps exec env_ok good may (k r) R d'"
  shows "keeps exec env_ok good may (Call c k) R d"
  using assms unfolding stable_def by simp blast

text \<open>What holds before a program and is stable holds after it.\<close>

lemma keeps_frame:
  assumes "keeps exec env_ok good may p Q d" "S d" "good d" "\<And>d d'. S d \<Longrightarrow> may d d' \<Longrightarrow> S d'"
  shows "keeps exec env_ok good may p (\<lambda>a d. Q a d \<and> S d \<and> good d) d"
  using assms(1-3)
proof (induction p arbitrary: d)
  case (Call c k)
  have "good d' \<and> may d d' \<and> (\<forall>d''. good d'' \<longrightarrow> may d' d'' \<longrightarrow> keeps exec env_ok good may (k r) (\<lambda>a d. Q a d \<and> S d \<and> good d) d'')"
    if "env_ok e" "exec e c d = (r, d')" for e r d'
  proof -
    have k: "good d'" "may d d'" "\<forall>d''. good d'' \<longrightarrow> may d' d'' \<longrightarrow> keeps exec env_ok good may (k r) Q d''"
      using Call.prems(1) that by auto
    then have "S d'" using assms(4) Call.prems(2) by blast
    then show ?thesis using k Call.IH [of "k r"] assms(4) by blast
  qed
  then show ?case by simp
qed simp

lemma keeps_seq:
  assumes "keeps exec env_ok good may p Q d" "good d" "S d" "\<forall>d d'. S d \<longrightarrow> may d d' \<longrightarrow> S d'"
    and "\<And>a d'. good d' \<Longrightarrow> S d' \<Longrightarrow> Q a d' \<Longrightarrow> keeps exec env_ok good may (f a) R d'"
  shows "keeps exec env_ok good may (bind_prog p f) R d"
proof (rule keeps_bind)
  show "keeps exec env_ok good may p (\<lambda>a d. Q a d \<and> S d \<and> good d) d"
    by (rule keeps_frame [where S = S]) (use assms(1-4) in blast)+
qed (use assms(5) in blast)

locale protocol =
  fixes exec :: "'e \<Rightarrow> 'o \<Rightarrow> 'd \<Rightarrow> 'r \<times> 'd" and env_ok :: "'e \<Rightarrow> bool"
    and good :: "'d \<Rightarrow> bool" and may :: "'d \<Rightarrow> 'd \<Rightarrow> bool" and progs :: "('o, 'r, unit) prog set"
  assumes may_refl: "may d d" and may_trans: "may d1 d2 \<Longrightarrow> may d2 d3 \<Longrightarrow> may d1 d3"
    and progs_keep: "p \<in> progs \<Longrightarrow> good d \<Longrightarrow> keeps exec env_ok good may p (\<lambda>_ _. True) d"
begin

lemma pool_step_keeps:
  assumes "pool_step exec env_ok progs (ps, d) (ps', d')" "good d"
    and "\<forall>p \<in> set ps. \<forall>d'. good d' \<longrightarrow> may d d' \<longrightarrow> keeps exec env_ok good may p (\<lambda>_ _. True) d'"
  shows "good d' \<and> may d d' \<and> (\<forall>p \<in> set ps'. \<forall>d''. good d'' \<longrightarrow> may d' d'' \<longrightarrow> keeps exec env_ok good may p (\<lambda>_ _. True) d'')"
  using assms(1)
proof cases
  case (start p)
  then show ?thesis using assms(2,3) may_refl progs_keep by auto
next
  case (call i c k e r)
  then have "ps ! i \<in> set ps" using nth_mem by blast
  then have "keeps exec env_ok good may (ps ! i) (\<lambda>_ _. True) d" using assms(2,3) may_refl by blast
  then have k: "good d'" "may d d'" "\<forall>d''. good d'' \<longrightarrow> may d' d'' \<longrightarrow> keeps exec env_ok good may (k r) (\<lambda>_ _. True) d''"
    using call by auto
  have "keeps exec env_ok good may p (\<lambda>_ _. True) d''" if "p \<in> set ps'" "good d''" "may d' d''" for p d''
  proof -
    have "p = k r \<or> p \<in> set ps" using that(1) call(1) by (auto dest: subsetD [OF set_update_subset_insert])
    then show ?thesis using k assms(3) that may_trans by blast
  qed
  then show ?thesis using k by blast
qed

text \<open>Every state of every interleaving keeps the invariant, and what happens later is what
  calls may do.\<close>

lemma pool_keeps:
  assumes "pool_reach exec env_ok progs (ps, d) (ps', d')" "good d"
    and "\<forall>p \<in> set ps. \<forall>d'. good d' \<longrightarrow> may d d' \<longrightarrow> keeps exec env_ok good may p (\<lambda>_ _. True) d'"
  shows "good d' \<and> may d d' \<and> (\<forall>p \<in> set ps'. \<forall>d''. good d'' \<longrightarrow> may d' d'' \<longrightarrow> keeps exec env_ok good may p (\<lambda>_ _. True) d'')"
  using assms(1)
proof (induction rule: rtranclp_induct2)
  case refl
  then show ?case using assms(2,3) may_refl by blast
next
  case (step ps1 d1 ps2 d2)
  then show ?case using pool_step_keeps [OF step(2)] may_trans by blast
qed

lemma pool_good:
  assumes "pool_reach exec env_ok progs ([], d) (ps, d1)" "good d"
  shows "good d1" "may d d1" "pool_reach exec env_ok progs (ps, d1) (ps', d2) \<Longrightarrow> good d2 \<and> may d1 d2"
proof -
  have 1: "good d1 \<and> may d d1 \<and> (\<forall>p \<in> set ps. \<forall>d''. good d'' \<longrightarrow> may d1 d'' \<longrightarrow> keeps exec env_ok good may p (\<lambda>_ _. True) d'')"
    by (rule pool_keeps [OF assms]) simp
  then show "good d1" "may d d1" by blast+
  show "good d2 \<and> may d1 d2" if "pool_reach exec env_ok progs (ps, d1) (ps', d2)"
    using pool_keeps [OF that] 1 by blast
qed

end

declare keeps.simps(2) [simp del]

end
