(* ===== verification/AlertStore.thy ===== *)
theory AlertStore
  imports Prog Strings HubStore "HOL-Library.Char_ord" "HOL-Library.List_Lexorder"
begin

text \<open>
  The part of the store that the escalation engine and the distress runs share
  (\<open>internal/store/store.go\<close>, \<open>internal/store/sosruns.go\<close>, \<open>internal/store/sqlite/sqlite.go\<close>,
  \<open>claims.go\<close>, \<open>sosruns.go\<close>): alerts, escalation chains, notification preferences and SOS runs,
  and the calls the programs of \<open>Escalation\<close> and \<open>SosRuns\<close> make on it, on the bus and on the
  notifier. Each call is one transaction. A call may fail without effect, or take effect and
  report an error (the connection was lost), as the environment of the call decides; the
  environment also has the clock. Tables are lists of rows in the order of insertion; where a
  query leaves the order of rows open they come in that order.
\<close>

section \<open>Rows\<close>

text \<open>Floating-point numbers are only carried: their bit patterns.\<close>

type_synonym float64 = "64 word"

record Alert =
  a_ID :: string
  a_TenantID :: string
  a_ChainID :: string
  a_DeviceIMEI :: string
  a_Type :: string
  a_Detail :: string
  a_State :: string
  a_CurrentTier :: nat
  a_Retries :: int
  a_AckedBy :: string
  a_AckedAt :: instant
  a_NextEscAt :: instant
  a_CreatedAt :: instant
  a_UpdatedAt :: instant

definition AlertStateTriggered :: string where "AlertStateTriggered = ''triggered''"
definition AlertStateEscalating :: string where "AlertStateEscalating = ''escalating''"
definition AlertStateAcknowledged :: string where "AlertStateAcknowledged = ''acknowledged''"
definition AlertStateExhausted :: string where "AlertStateExhausted = ''exhausted''"
definition AlertStateCancelled :: string where "AlertStateCancelled = ''cancelled''"

lemmas alert_states = AlertStateTriggered_def AlertStateEscalating_def AlertStateAcknowledged_def
  AlertStateExhausted_def AlertStateCancelled_def

record EscalationTier =
  et_Name :: string
  et_Targets :: "string list"
  et_WaitSec :: int
  et_MaxRetries :: int

record EscalationChain =
  ec_ID :: string
  ec_Name :: string
  ec_Tiers :: "EscalationTier list"
  ec_CreatedAt :: instant
  ec_UpdatedAt :: instant

record NotificationPref =
  np_DeviceIMEI :: string
  np_URLs :: "string list"
  np_Events :: "string list"
  np_Enabled :: bool

definition SOSRunActive :: string where "SOSRunActive = ''active''"
definition SOSRunCancelled :: string where "SOSRunCancelled = ''cancelled''"
definition SOSEventStart :: string where "SOSEventStart = ''start''"
definition SOSEventCancel :: string where "SOSEventCancel = ''cancel''"

lemmas sos_states = SOSRunActive_def SOSRunCancelled_def SOSEventStart_def SOSEventCancel_def

record SOSRun =
  sr_TenantID :: string
  sr_Origin :: string
  sr_SOSID :: string
  sr_BridgeID :: string
  sr_RunStartMs :: int
  sr_State :: string
  sr_Rev :: int
  sr_Bearers :: string
  sr_DeviceID :: string
  sr_Text :: string
  sr_Lat :: float64
  sr_Lon :: float64
  sr_HasPosition :: bool
  sr_AlertID :: string
  sr_AlertPending :: bool
  sr_StartedAt :: "instant option"
  sr_CancelledAt :: "instant option"
  sr_CancelledBy :: string
  sr_CancelReason :: int
  sr_CreatedAt :: instant
  sr_UpdatedAt :: instant

record SOSRunEvent =
  se_TenantID :: string
  se_Origin :: string
  se_SOSID :: string
  se_BridgeID :: string
  se_RunStartMs :: int
  se_Kind :: string
  se_Bearer :: string
  se_DeviceID :: string
  se_Text :: string
  se_Lat :: float64
  se_Lon :: float64
  se_HasPosition :: bool
  se_By :: string
  se_Reason :: int
  se_At :: instant

record SOSRunApplied =
  sa_Run :: SOSRun
  sa_Created :: bool
  sa_Ended :: bool

section \<open>SOS runs\<close>

definition AddSOSBearer :: "string \<Rightarrow> string \<Rightarrow> string" where
  "AddSOSBearer lst bearer =
     (if bearer = [] then lst
      else if bearer \<in> set (Split (CHR '','') lst) then lst
      else if lst = [] then bearer
      else lst @ '','' @ bearer)"

definition NewSOSRun :: "SOSRunEvent \<Rightarrow> SOSRun" where
  "NewSOSRun ev =
     (let r = \<lparr>sr_TenantID = se_TenantID ev, sr_Origin = se_Origin ev, sr_SOSID = se_SOSID ev, sr_BridgeID = se_BridgeID ev,
               sr_RunStartMs = se_RunStartMs ev, sr_State = [], sr_Rev = 1, sr_Bearers = AddSOSBearer [] (se_Bearer ev),
               sr_DeviceID = [], sr_Text = [], sr_Lat = 0, sr_Lon = 0, sr_HasPosition = False, sr_AlertID = [],
               sr_AlertPending = True, sr_StartedAt = None, sr_CancelledAt = None, sr_CancelledBy = [],
               sr_CancelReason = -1, sr_CreatedAt = se_At ev, sr_UpdatedAt = se_At ev\<rparr>
      in if se_Kind ev = SOSEventCancel then
           r\<lparr>sr_State := SOSRunCancelled, sr_CancelledAt := Some (se_At ev), sr_CancelledBy := se_By ev,
             sr_CancelReason := se_Reason ev\<rparr>
         else
           r\<lparr>sr_State := SOSRunActive, sr_StartedAt := Some (se_At ev), sr_DeviceID := se_DeviceID ev, sr_Text := se_Text ev,
             sr_Lat := se_Lat ev, sr_Lon := se_Lon ev, sr_HasPosition := se_HasPosition ev\<rparr>)"

definition ApplySOSEvent :: "SOSRun \<Rightarrow> SOSRunEvent \<Rightarrow> bool \<times> SOSRun" where
  "ApplySOSEvent r ev =
     (let r = r\<lparr>sr_Rev := sr_Rev r + 1, sr_Bearers := AddSOSBearer (sr_Bearers r) (se_Bearer ev), sr_UpdatedAt := se_At ev\<rparr>
      in if se_Kind ev = SOSEventStart then
           (False, if sr_StartedAt r = None
                   then r\<lparr>sr_StartedAt := Some (se_At ev), sr_DeviceID := se_DeviceID ev, sr_Text := se_Text ev,
                          sr_Lat := se_Lat ev, sr_Lon := se_Lon ev, sr_HasPosition := se_HasPosition ev\<rparr>
                   else r)
         else if se_Kind ev = SOSEventCancel \<and> sr_State r = SOSRunActive then
           (True, r\<lparr>sr_State := SOSRunCancelled, sr_CancelledAt := Some (se_At ev), sr_CancelledBy := se_By ev,
                    sr_CancelReason := se_Reason ev, sr_AlertPending := True\<rparr>)
         else (False, r))"

section \<open>The outside world\<close>

text \<open>What a notification is made from, and what is published on the bus; the texts rendered
  from them are not modelled.\<close>

record AlertData =
  ad_AlertID :: string
  ad_DeviceIMEI :: string
  ad_Type :: string
  ad_Detail :: string
  ad_TierName :: string
  ad_TierNum :: nat
  ad_TierTotal :: nat
  ad_Retry :: int
  ad_MaxRetries :: int
  ad_TriggeredAt :: instant

record RunEvent =
  re_IMEI :: string
  re_Text :: string
  re_SOSID :: string
  re_State :: string
  re_BridgeID :: string
  re_Bearers :: string
  re_Lat :: float64
  re_Lon :: float64

record SosAck =
  sk_V :: int
  sk_SOSID :: string
  sk_Kind :: string
  sk_State :: string
  sk_Rev :: int

record LegacySOS =
  ls_id :: string
  ls_imei :: string
  ls_bridge_id :: string
  ls_text :: string
  ls_timestamp :: instant
  ls_position :: "(float64 \<times> float64) option"

record DetectedSOS =
  ds_IMEI :: string
  ds_Text :: string
  ds_Keyword :: string
  ds_Source :: string

datatype sos_payload = PRunEvent RunEvent | PSosAck SosAck | PLegacy LegacySOS | PDetected DetectedSOS | PCaps "string list"

record world =
  wd_alerts :: "Alert list"
  wd_chains :: "(string \<times> EscalationChain) list"
  wd_prefs :: "(string \<times> NotificationPref) list"
  wd_runs :: "SOSRun list"
  wd_claims :: "string list"
  wd_published :: "(string \<times> sos_payload) list"
  wd_notified :: "(string \<times> string list \<times> AlertData) list"
  wd_audit :: "(string \<times> string \<times> string) list"

definition empty_world :: world where
  "empty_world = \<lparr>wd_alerts = [], wd_chains = [], wd_prefs = [], wd_runs = [], wd_claims = [], wd_published = [],
     wd_notified = [], wd_audit = []\<rparr>"


section \<open>Alerts\<close>

text \<open>An empty tenant id is a wildcard.\<close>

definition of_tenant :: "string \<Rightarrow> Alert \<Rightarrow> bool" where
  "of_tenant tenantID a \<longleftrightarrow> tenantID = [] \<or> a_TenantID a = tenantID"

definition alert_row :: "string \<Rightarrow> Alert \<Rightarrow> Alert" where
  "alert_row tenantID a = a\<lparr>a_TenantID := tenantID, a_AckedAt := col_time (a_AckedAt a), a_NextEscAt := col_time (a_NextEscAt a),
     a_CreatedAt := col_time (a_CreatedAt a), a_UpdatedAt := col_time (a_UpdatedAt a)\<rparr>"

definition CreateAlert :: "string \<Rightarrow> Alert \<Rightarrow> world \<Rightarrow> bool \<times> world" where
  "CreateAlert tenantID a w =
     (if a_ID a \<in> a_ID ` set (wd_alerts w) then (False, w)
      else (True, w\<lparr>wd_alerts := wd_alerts w @ [alert_row tenantID a]\<rparr>))"

definition GetAlert :: "string \<Rightarrow> string \<Rightarrow> world \<Rightarrow> Alert option" where
  "GetAlert tenantID aid w = List.find (\<lambda>a. a_ID a = aid \<and> of_tenant tenantID a) (wd_alerts w)"

definition alert_open :: "Alert \<Rightarrow> bool" where
  "alert_open a \<longleftrightarrow> a_State a = AlertStateTriggered \<or> a_State a = AlertStateEscalating"

definition ListAlerts :: "string \<Rightarrow> bool \<Rightarrow> nat \<Rightarrow> world \<Rightarrow> Alert list" where
  "ListAlerts tenantID activeOnly limit w =
     take limit (rev (sort_key a_CreatedAt (rev
       (filter (\<lambda>a. of_tenant tenantID a \<and> (activeOnly \<longrightarrow> alert_open a)) (wd_alerts w)))))"

text \<open>The columns \<open>UpdateAlert\<close> and \<open>AdvanceAlert\<close> write.\<close>

definition write_alert :: "Alert \<Rightarrow> Alert \<Rightarrow> Alert" where
  "write_alert a row = row\<lparr>a_State := a_State a, a_CurrentTier := a_CurrentTier a, a_Retries := a_Retries a,
     a_AckedBy := a_AckedBy a, a_AckedAt := col_time (a_AckedAt a), a_NextEscAt := col_time (a_NextEscAt a),
     a_UpdatedAt := col_time (a_UpdatedAt a)\<rparr>"

definition UpdateAlert :: "string \<Rightarrow> Alert \<Rightarrow> world \<Rightarrow> world" where
  "UpdateAlert tenantID a w =
     w\<lparr>wd_alerts := map (\<lambda>row. if a_ID row = a_ID a \<and> of_tenant tenantID row then write_alert a row else row) (wd_alerts w)\<rparr>"

definition AdvanceAlert :: "string \<Rightarrow> Alert \<Rightarrow> instant \<Rightarrow> world \<Rightarrow> bool \<times> world" where
  "AdvanceAlert tenantID a expected w =
     (let hit = (\<lambda>row. a_ID row = a_ID a \<and> a_NextEscAt row = col_time expected \<and> alert_open row \<and> of_tenant tenantID row)
      in (length (filter hit (wd_alerts w)) = 1,
          w\<lparr>wd_alerts := map (\<lambda>row. if hit row then write_alert a row else row) (wd_alerts w)\<rparr>))"

section \<open>Chains, preferences and claims\<close>

definition CreateEscalationChain :: "instant \<Rightarrow> string \<Rightarrow> EscalationChain \<Rightarrow> world \<Rightarrow> bool \<times> world" where
  "CreateEscalationChain dbnow tenantID c w =
     (if ec_ID c \<in> (ec_ID \<circ> snd) ` set (wd_chains w) then (False, w)
      else (True, w\<lparr>wd_chains := wd_chains w @
             [(tenantID, c\<lparr>ec_CreatedAt := col_time dbnow, ec_UpdatedAt := col_time dbnow\<rparr>)]\<rparr>))"

definition GetEscalationChain :: "string \<Rightarrow> string \<Rightarrow> world \<Rightarrow> EscalationChain option" where
  "GetEscalationChain tenantID cid w =
     map_option snd (List.find (\<lambda>(t, c). ec_ID c = cid \<and> (tenantID = [] \<or> t = tenantID)) (wd_chains w))"

definition ListEscalationChains :: "string \<Rightarrow> world \<Rightarrow> EscalationChain list" where
  "ListEscalationChains tenantID w =
     rev (sort_key ec_CreatedAt (rev (map snd (filter (\<lambda>(t, c). t = tenantID) (wd_chains w)))))"

definition DeleteEscalationChain :: "string \<Rightarrow> string \<Rightarrow> world \<Rightarrow> world" where
  "DeleteEscalationChain tenantID cid w =
     w\<lparr>wd_chains := filter (\<lambda>(t, c). \<not> (ec_ID c = cid \<and> t = tenantID)) (wd_chains w)\<rparr>"

definition GetNotificationPref :: "string \<Rightarrow> string \<Rightarrow> world \<Rightarrow> NotificationPref option" where
  "GetNotificationPref tenantID deviceIMEI w =
     map_option snd (List.find (\<lambda>(t, p). np_DeviceIMEI p = deviceIMEI \<and> t = tenantID) (wd_prefs w))"

definition SaveNotificationPref :: "string \<Rightarrow> NotificationPref \<Rightarrow> world \<Rightarrow> world" where
  "SaveNotificationPref tenantID p w =
     (if GetNotificationPref tenantID (np_DeviceIMEI p) w = None
      then w\<lparr>wd_prefs := wd_prefs w @ [(tenantID, p)]\<rparr>
      else w\<lparr>wd_prefs := map (\<lambda>(t, q). if np_DeviceIMEI q = np_DeviceIMEI p \<and> t = tenantID then (t, p) else (t, q)) (wd_prefs w)\<rparr>)"

definition DeleteNotificationPref :: "string \<Rightarrow> string \<Rightarrow> world \<Rightarrow> world" where
  "DeleteNotificationPref tenantID deviceIMEI w =
     w\<lparr>wd_prefs := filter (\<lambda>(t, p). \<not> (np_DeviceIMEI p = deviceIMEI \<and> t = tenantID)) (wd_prefs w)\<rparr>"

definition ClaimOnce :: "string \<Rightarrow> world \<Rightarrow> bool \<times> world" where
  "ClaimOnce key w = (if key \<in> set (wd_claims w) then (False, w) else (True, w\<lparr>wd_claims := wd_claims w @ [key]\<rparr>))"

section \<open>The table of runs\<close>

definition col_time_ptr :: "instant option \<Rightarrow> instant option" where
  "col_time_ptr t = (case t of None \<Rightarrow> None | Some t \<Rightarrow> if t = zero_time then None else Some (col_time t))"

definition run_row :: "SOSRun \<Rightarrow> SOSRun" where
  "run_row r = r\<lparr>sr_StartedAt := col_time_ptr (sr_StartedAt r), sr_CancelledAt := col_time_ptr (sr_CancelledAt r),
     sr_CreatedAt := col_time (sr_CreatedAt r), sr_UpdatedAt := col_time (sr_UpdatedAt r)\<rparr>"

type_synonym run_key = "string \<times> string \<times> string"

definition run_key :: "SOSRun \<Rightarrow> run_key" where
  "run_key r = (sr_TenantID r, sr_Origin r, sr_SOSID r)"

definition event_key :: "SOSRunEvent \<Rightarrow> run_key" where
  "event_key ev = (se_TenantID ev, se_Origin ev, se_SOSID ev)"

definition GetSOSRun :: "run_key \<Rightarrow> world \<Rightarrow> SOSRun option" where
  "GetSOSRun key w = List.find (\<lambda>r. run_key r = key) (wd_runs w)"

definition upd_run :: "run_key \<Rightarrow> (SOSRun \<Rightarrow> SOSRun) \<Rightarrow> world \<Rightarrow> world" where
  "upd_run key f w = w\<lparr>wd_runs := map (\<lambda>r. if run_key r = key then f r else r) (wd_runs w)\<rparr>"

definition ApplySOSRunEvent :: "instant \<Rightarrow> SOSRunEvent \<Rightarrow> world \<Rightarrow> SOSRunApplied \<times> world" where
  "ApplySOSRunEvent now ev w =
     (let ev = (if se_At ev = zero_time then ev\<lparr>se_At := now\<rparr> else ev)
      in case GetSOSRun (event_key ev) w of
           None \<Rightarrow> let fresh = NewSOSRun ev
                   in (\<lparr>sa_Run = fresh, sa_Created = True, sa_Ended = False\<rparr>, w\<lparr>wd_runs := wd_runs w @ [run_row fresh]\<rparr>)
         | Some run \<Rightarrow> let (ended, run) = ApplySOSEvent run ev
                       in (\<lparr>sa_Run = run, sa_Created = False, sa_Ended = ended\<rparr>, upd_run (event_key ev) (\<lambda>_. run_row run) w))"

definition FindSOSRuns :: "string \<Rightarrow> string \<Rightarrow> world \<Rightarrow> SOSRun list" where
  "FindSOSRuns tenantID sosID w =
     sort_key sr_CreatedAt (filter (\<lambda>r. sr_TenantID r = tenantID \<and> sr_SOSID r = sosID) (wd_runs w))"

definition SetSOSRunAlert :: "instant \<Rightarrow> run_key \<Rightarrow> string \<Rightarrow> world \<Rightarrow> bool \<times> world" where
  "SetSOSRunAlert now key alertID w =
     (GetSOSRun key w \<noteq> None, upd_run key (\<lambda>r. r\<lparr>sr_AlertID := alertID, sr_UpdatedAt := col_time now\<rparr>) w)"

definition ClearSOSRunAlertPending :: "run_key \<Rightarrow> int \<Rightarrow> world \<Rightarrow> bool \<times> world" where
  "ClearSOSRunAlertPending key rv w =
     (length (filter (\<lambda>r. run_key r = key \<and> sr_Rev r = rv) (wd_runs w)) = 1,
      w\<lparr>wd_runs := map (\<lambda>r. if run_key r = key \<and> sr_Rev r = rv then r\<lparr>sr_AlertPending := False\<rparr> else r) (wd_runs w)\<rparr>)"

definition ListSOSRunsAlertPending :: "int \<Rightarrow> world \<Rightarrow> SOSRun list" where
  "ListSOSRunsAlertPending limit w =
     take (row_limit limit 100) (sort_key sr_UpdatedAt (sort_key sr_SOSID (filter sr_AlertPending (wd_runs w))))"


section \<open>Calls\<close>

datatype call =
    CNow
  | CChainOf string
  | CWait
  | CGetAlert string string
  | CCreateAlert string Alert
  | CUpdateAlert string Alert
  | CAdvanceAlert string Alert instant
  | CListAlerts string bool nat
  | CGetEscalationChain string string
  | CListEscalationChains string
  | CCreateEscalationChain string EscalationChain
  | CDeleteEscalationChain string string
  | CGetNotificationPref string string
  | CSaveNotificationPref string NotificationPref
  | CDeleteNotificationPref string string
  | CClaimOnce string
  | CNotify string "string list" AlertData
  | CPublish string sos_payload
  | CAuditLog string string string
  | CApplySOSRunEvent SOSRunEvent
  | CGetSOSRun run_key
  | CFindSOSRuns string string
  | CSetSOSRunAlert run_key string
  | CClearSOSRunAlertPending run_key int
  | CListSOSRunsAlertPending int

datatype reply =
    RErr bool
  | RDone
  | RTime instant
  | RText string
  | RBool bool
  | RAlert "Alert option"
  | RAlerts "Alert list"
  | RChain "EscalationChain option"
  | RChains "EscalationChain list"
  | RPref "NotificationPref option"
  | RApplied SOSRunApplied
  | RRun "SOSRun option"
  | RRuns "SOSRun list"

text \<open>A call works, fails without effect, or takes effect and reports an error. The boolean
  says whether \<open>dbwrap\<close> takes the error for a transient one.\<close>

datatype fault = Works | Fails bool | Lost bool

record env =
  ev_now :: instant
  ev_chain :: "string \<Rightarrow> string"
  ev_done :: bool
  ev_fault :: fault

definition perform :: "env \<Rightarrow> call \<Rightarrow> world \<Rightarrow> reply \<times> world" where
  "perform E c w =
     (case c of
        CNow \<Rightarrow> (RTime (ev_now E), w)
      | CChainOf t \<Rightarrow> (RText (ev_chain E t), w)
      | CWait \<Rightarrow> (RBool (ev_done E), w)
      | CGetAlert t i \<Rightarrow> (RAlert (GetAlert t i w), w)
      | CCreateAlert t a \<Rightarrow> (case CreateAlert t a w of (True, w) \<Rightarrow> (RDone, w) | (False, w) \<Rightarrow> (RErr False, w))
      | CUpdateAlert t a \<Rightarrow> (RDone, UpdateAlert t a w)
      | CAdvanceAlert t a x \<Rightarrow> (case AdvanceAlert t a x w of (b, w) \<Rightarrow> (RBool b, w))
      | CListAlerts t b n \<Rightarrow> (RAlerts (ListAlerts t b n w), w)
      | CGetEscalationChain t i \<Rightarrow> (RChain (GetEscalationChain t i w), w)
      | CListEscalationChains t \<Rightarrow> (RChains (ListEscalationChains t w), w)
      | CCreateEscalationChain t c \<Rightarrow> (case CreateEscalationChain (ev_now E) t c w of (True, w) \<Rightarrow> (RDone, w) | (False, w) \<Rightarrow> (RErr False, w))
      | CDeleteEscalationChain t i \<Rightarrow> (RDone, DeleteEscalationChain t i w)
      | CGetNotificationPref t i \<Rightarrow> (RPref (GetNotificationPref t i w), w)
      | CSaveNotificationPref t p \<Rightarrow> (RDone, SaveNotificationPref t p w)
      | CDeleteNotificationPref t i \<Rightarrow> (RDone, DeleteNotificationPref t i w)
      | CClaimOnce k \<Rightarrow> (case ClaimOnce k w of (b, w) \<Rightarrow> (RBool b, w))
      | CNotify t ts ad \<Rightarrow> (RDone, w\<lparr>wd_notified := wd_notified w @ [(t, ts, ad)]\<rparr>)
      | CPublish topic p \<Rightarrow> (RDone, w\<lparr>wd_published := wd_published w @ [(topic, p)]\<rparr>)
      | CAuditLog t action by \<Rightarrow> (RDone, w\<lparr>wd_audit := wd_audit w @ [(t, action, by)]\<rparr>)
      | CApplySOSRunEvent ev \<Rightarrow> (case ApplySOSRunEvent (ev_now E) ev w of (sa, w) \<Rightarrow> (RApplied sa, w))
      | CGetSOSRun k \<Rightarrow> (RRun (GetSOSRun k w), w)
      | CFindSOSRuns t s \<Rightarrow> (RRuns (FindSOSRuns t s w), w)
      | CSetSOSRunAlert k i \<Rightarrow> (case SetSOSRunAlert (ev_now E) k i w of (True, w) \<Rightarrow> (RDone, w) | (False, w) \<Rightarrow> (RErr False, w))
      | CClearSOSRunAlertPending k rv \<Rightarrow> (case ClearSOSRunAlertPending k rv w of (b, w) \<Rightarrow> (RBool b, w))
      | CListSOSRunsAlertPending n \<Rightarrow> (RRuns (ListSOSRunsAlertPending n w), w))"

fun local_call :: "call \<Rightarrow> bool" where
  "local_call CNow = True"
| "local_call (CChainOf t) = True"
| "local_call CWait = True"
| "local_call c = False"

definition exec :: "env \<Rightarrow> call \<Rightarrow> world \<Rightarrow> reply \<times> world" where
  "exec E c w =
     (if local_call c then perform E c w
      else case ev_fault E of
             Works \<Rightarrow> perform E c w
           | Fails b \<Rightarrow> (RErr b, w)
           | Lost b \<Rightarrow> (RErr b, snd (perform E c w)))"

text \<open>The calls as programs that give their typed reply; a reply of another type does not occur.\<close>

type_synonym 'a act = "(call, reply, 'a) prog"

definition read_clock :: "instant act" where
  "read_clock = Call CNow (\<lambda>r. Ret (case r of RTime t \<Rightarrow> t | _ \<Rightarrow> 0))"

definition chainOf :: "string \<Rightarrow> string act" where
  "chainOf t = Call (CChainOf t) (\<lambda>r. Ret (case r of RText s \<Rightarrow> s | _ \<Rightarrow> []))"

datatype 'a outcome = Done 'a | Err bool

definition call_done :: "call \<Rightarrow> unit outcome act" where
  "call_done c = Call c (\<lambda>r. Ret (case r of RDone \<Rightarrow> Done () | RErr b \<Rightarrow> Err b | _ \<Rightarrow> Err False))"

definition call_bool :: "call \<Rightarrow> bool outcome act" where
  "call_bool c = Call c (\<lambda>r. Ret (case r of RBool x \<Rightarrow> Done x | RErr b \<Rightarrow> Err b | _ \<Rightarrow> Err False))"

definition get_alert :: "string \<Rightarrow> string \<Rightarrow> Alert option outcome act" where
  "get_alert t i = Call (CGetAlert t i) (\<lambda>r. Ret (case r of RAlert a \<Rightarrow> Done a | RErr b \<Rightarrow> Err b | _ \<Rightarrow> Err False))"

definition list_alerts :: "string \<Rightarrow> bool \<Rightarrow> nat \<Rightarrow> Alert list outcome act" where
  "list_alerts t b n = Call (CListAlerts t b n) (\<lambda>r. Ret (case r of RAlerts as \<Rightarrow> Done as | RErr b \<Rightarrow> Err b | _ \<Rightarrow> Err False))"

definition get_chain :: "string \<Rightarrow> string \<Rightarrow> EscalationChain option outcome act" where
  "get_chain t i = Call (CGetEscalationChain t i) (\<lambda>r. Ret (case r of RChain c \<Rightarrow> Done c | RErr b \<Rightarrow> Err b | _ \<Rightarrow> Err False))"

definition list_chains :: "string \<Rightarrow> EscalationChain list outcome act" where
  "list_chains t = Call (CListEscalationChains t) (\<lambda>r. Ret (case r of RChains c \<Rightarrow> Done c | RErr b \<Rightarrow> Err b | _ \<Rightarrow> Err False))"

definition get_pref :: "string \<Rightarrow> string \<Rightarrow> NotificationPref option outcome act" where
  "get_pref t i = Call (CGetNotificationPref t i) (\<lambda>r. Ret (case r of RPref p \<Rightarrow> Done p | RErr b \<Rightarrow> Err b | _ \<Rightarrow> Err False))"

definition apply_event :: "SOSRunEvent \<Rightarrow> SOSRunApplied outcome act" where
  "apply_event ev = Call (CApplySOSRunEvent ev) (\<lambda>r. Ret (case r of RApplied a \<Rightarrow> Done a | RErr b \<Rightarrow> Err b | _ \<Rightarrow> Err False))"

definition get_run :: "run_key \<Rightarrow> SOSRun option outcome act" where
  "get_run k = Call (CGetSOSRun k) (\<lambda>r. Ret (case r of RRun x \<Rightarrow> Done x | RErr b \<Rightarrow> Err b | _ \<Rightarrow> Err False))"

definition list_runs :: "call \<Rightarrow> SOSRun list outcome act" where
  "list_runs c = Call c (\<lambda>r. Ret (case r of RRuns x \<Rightarrow> Done x | RErr b \<Rightarrow> Err b | _ \<Rightarrow> Err False))"


section \<open>Running alone\<close>

text \<open>What the calls give when they work and nobody interferes.\<close>

lemma run_calls:
  assumes [simp]: "ev_fault E = Works"
  shows "run_prog (exec E) read_clock w = (ev_now E, w)" "run_prog (exec E) (chainOf t) w = (ev_chain E t, w)"
    "run_prog (exec E) (get_alert t i) w = (Done (GetAlert t i w), w)"
    "run_prog (exec E) (list_alerts t b n) w = (Done (ListAlerts t b n w), w)"
    "run_prog (exec E) (get_chain t i) w = (Done (GetEscalationChain t i w), w)"
    "run_prog (exec E) (get_pref t i) w = (Done (GetNotificationPref t i w), w)"
    "run_prog (exec E) (get_run k) w = (Done (GetSOSRun k w), w)"
    "run_prog (exec E) (list_runs (CListSOSRunsAlertPending l)) w = (Done (ListSOSRunsAlertPending l w), w)"
    "run_prog (exec E) (call_done (CCreateAlert t a)) w = (if fst (CreateAlert t a w) then Done () else Err False, snd (CreateAlert t a w))"
    "run_prog (exec E) (call_done (CUpdateAlert t a)) w = (Done (), UpdateAlert t a w)"
    "run_prog (exec E) (call_bool (CAdvanceAlert t a x)) w = (Done (fst (AdvanceAlert t a x w)), snd (AdvanceAlert t a x w))"
    "run_prog (exec E) (call_done (CNotify t ts ad)) w = (Done (), w\<lparr>wd_notified := wd_notified w @ [(t, ts, ad)]\<rparr>)"
    "run_prog (exec E) (call_done (CSetSOSRunAlert k i)) w =
       (if fst (SetSOSRunAlert (ev_now E) k i w) then Done () else Err False, snd (SetSOSRunAlert (ev_now E) k i w))"
    "run_prog (exec E) (call_bool (CClearSOSRunAlertPending k rv)) w =
       (Done (fst (ClearSOSRunAlertPending k rv w)), snd (ClearSOSRunAlertPending k rv w))"
    "run_prog (exec E) (apply_event ev) w = (Done (fst (ApplySOSRunEvent (ev_now E) ev w)), snd (ApplySOSRunEvent (ev_now E) ev w))"
    "run_prog (exec E) (call_done (CPublish topic p)) w = (Done (), w\<lparr>wd_published := wd_published w @ [(topic, p)]\<rparr>)"
    "run_prog (exec E) (call_done (CAuditLog t u v)) w = (Done (), w\<lparr>wd_audit := wd_audit w @ [(t, u, v)]\<rparr>)"
  by (auto simp: exec_def perform_def read_clock_def chainOf_def get_alert_def list_alerts_def get_chain_def get_pref_def get_run_def
      list_runs_def call_done_def call_bool_def apply_event_def CreateAlert_def SetSOSRunAlert_def AdvanceAlert_def
      ClearSOSRunAlertPending_def case_prod_beta Let_def)

end
