(* ===== verification/Escalation.thy ===== *)
theory Escalation
  imports AlertStore HubIds
begin

text \<open>
  The escalation engine (\<open>internal/escalation\<close>): an alert climbs the tiers of a chain, each tier
  notified a number of times, until it is acknowledged, cancelled or exhausted. Every function
  is a program over the store of \<open>AlertStore\<close>, so that the replicas of the hub interleave
  between their store calls.
\<close>

section \<open>Definitions\<close>

text \<open>\<open>time.Duration(n) * time.Second\<close> on 64 bits.\<close>

definition secs :: "int \<Rightarrow> int" where
  "secs n = sint (word_of_int (n * 1000000000) :: 64 word)"

definition escalationLease :: int where "escalationLease = 2 * 60 * 1000000000"

definition Trigger :: "string \<Rightarrow> Alert \<Rightarrow> unit outcome act" where
  "Trigger tenantID alert =
     bind_prog (if a_ID alert = [] then bind_prog read_clock (\<lambda>t. Ret (alert\<lparr>a_ID := ''alert-'' @ FormatInt t\<rparr>)) else Ret alert)
       (\<lambda>alert. bind_prog read_clock (\<lambda>now.
          call_done (CCreateAlert tenantID (alert\<lparr>a_State := AlertStateTriggered, a_CurrentTier := 0, a_Retries := 0,
            a_CreatedAt := now, a_UpdatedAt := now, a_NextEscAt := now\<rparr>))))"

definition Acknowledge :: "string \<Rightarrow> string \<Rightarrow> string \<Rightarrow> unit outcome act" where
  "Acknowledge tenantID alertID ackedBy =
     bind_prog (get_alert tenantID alertID) (\<lambda>r. case r of
        Err b \<Rightarrow> Ret (Err b)
      | Done None \<Rightarrow> Ret (Err False)
      | Done (Some alert) \<Rightarrow>
          if a_State alert = AlertStateAcknowledged then Ret (Done ())
          else bind_prog read_clock (\<lambda>now.
            call_done (CUpdateAlert tenantID (alert\<lparr>a_State := AlertStateAcknowledged, a_AckedBy := ackedBy, a_AckedAt := now,
              a_UpdatedAt := now\<rparr>))))"

definition TriggerOnce :: "string \<Rightarrow> Alert \<Rightarrow> bool outcome act" where
  "TriggerOnce tenantID alert =
     (if a_ID alert = [] then Ret (Err False)
      else bind_prog (get_alert tenantID (a_ID alert)) (\<lambda>r. case r of
        Done (Some _) \<Rightarrow> Ret (Done False)
      | _ \<Rightarrow> bind_prog (Trigger tenantID alert) (\<lambda>t. case t of
          Done _ \<Rightarrow> Ret (Done True)
        | Err b \<Rightarrow> bind_prog (get_alert tenantID (a_ID alert)) (\<lambda>r. case r of
            Done (Some _) \<Rightarrow> Ret (Done False)
          | _ \<Rightarrow> Ret (Err b)))))"

definition cancelAlert :: "string \<Rightarrow> Alert \<Rightarrow> string \<Rightarrow> bool outcome act" where
  "cancelAlert tenantID alert by =
     (if a_State alert = AlertStateCancelled then Ret (Done False)
      else bind_prog read_clock (\<lambda>now.
        bind_prog (call_done (CUpdateAlert tenantID (alert\<lparr>a_State := AlertStateCancelled, a_AckedBy := by, a_AckedAt := now,
            a_UpdatedAt := now\<rparr>)))
          (\<lambda>r. case r of Done _ \<Rightarrow> Ret (Done True) | Err b \<Rightarrow> Ret (Err b))))"

definition Cancel :: "string \<Rightarrow> string \<Rightarrow> string \<Rightarrow> bool outcome act" where
  "Cancel tenantID alertID by =
     bind_prog (get_alert tenantID alertID) (\<lambda>r. case r of
        Done None \<Rightarrow> Ret (Done False)
      | Err b \<Rightarrow> Ret (Err b)
      | Done (Some alert) \<Rightarrow> cancelAlert tenantID alert by)"

definition closeRounds :: nat where "closeRounds = 3"
definition ClosedBeforeRaised :: string where "ClosedBeforeRaised = '' (cancelled before it paged)''"

fun close_rounds :: "nat \<Rightarrow> string \<Rightarrow> Alert \<Rightarrow> string \<Rightarrow> bool outcome act" where
  "close_rounds 0 tenantID alert by = Ret (Err False)"
| "close_rounds (Suc n) tenantID alert by =
     bind_prog (get_alert tenantID (a_ID alert)) (\<lambda>r. case r of
        Done (Some existing) \<Rightarrow> cancelAlert tenantID existing by
      | Err b \<Rightarrow> Ret (Err b)
      | Done None \<Rightarrow> bind_prog read_clock (\<lambda>now.
          bind_prog (call_done (CCreateAlert tenantID (alert\<lparr>a_State := AlertStateCancelled, a_Detail := a_Detail alert @ ClosedBeforeRaised,
              a_CurrentTier := 0, a_Retries := 0, a_AckedBy := by, a_AckedAt := now, a_CreatedAt := now, a_UpdatedAt := now,
              a_NextEscAt := now\<rparr>)))
            (\<lambda>r. case r of Done _ \<Rightarrow> Ret (Done True) | Err _ \<Rightarrow> close_rounds n tenantID alert by)))"

definition Close :: "string \<Rightarrow> Alert \<Rightarrow> string \<Rightarrow> bool outcome act" where
  "Close tenantID alert by = (if a_ID alert = [] then Ret (Err False) else close_rounds closeRounds tenantID alert by)"

section \<open>Steps\<close>

text \<open>The targets of a tier, with those of the device and of the tenant.\<close>

definition pref_targets :: "NotificationPref option outcome \<Rightarrow> string list" where
  "pref_targets r = (case r of Done (Some p) \<Rightarrow> if np_Enabled p then np_URLs p else [] | _ \<Rightarrow> [])"

definition step_targets :: "Alert \<Rightarrow> EscalationTier \<Rightarrow> string list act" where
  "step_targets alert tier =
     (if a_DeviceIMEI alert = [] then Ret (et_Targets tier)
      else bind_prog (get_pref (a_TenantID alert) (a_DeviceIMEI alert)) (\<lambda>p.
           bind_prog (get_pref (a_TenantID alert) ''*'') (\<lambda>q.
             Ret (et_Targets tier @ pref_targets p @ pref_targets q))))"

text \<open>What the alert looks like after a tier was notified once more.\<close>

definition step_backoff :: "int \<Rightarrow> EscalationTier \<Rightarrow> int" where
  "step_backoff retries tier =
     (let shift = (if retries < 0 then 0 else retries);
          shift = (if shift > 16 then 16 else shift);
          backoff = secs (2 ^ nat shift);
          maxWait = secs (et_WaitSec tier)
      in if backoff > maxWait then maxWait else backoff)"

definition after_notify :: "EscalationChain \<Rightarrow> EscalationTier \<Rightarrow> instant \<Rightarrow> Alert \<Rightarrow> Alert" where
  "after_notify chain tier now alert =
     (let alert = alert\<lparr>a_Retries := a_Retries alert + 1\<rparr>;
          alert = (if a_Retries alert \<ge> et_MaxRetries tier then
                     (let alert = alert\<lparr>a_CurrentTier := a_CurrentTier alert + 1, a_Retries := 0\<rparr>
                      in if a_CurrentTier alert \<ge> length (ec_Tiers chain)
                         then alert\<lparr>a_State := AlertStateExhausted, a_NextEscAt := now\<rparr>
                         else alert\<lparr>a_NextEscAt := now + secs (et_WaitSec (ec_Tiers chain ! a_CurrentTier alert))\<rparr>)
                   else alert\<lparr>a_NextEscAt := now + step_backoff (a_Retries alert) tier\<rparr>)
      in alert\<lparr>a_UpdatedAt := now\<rparr>)"

definition alert_data :: "Alert \<Rightarrow> EscalationTier \<Rightarrow> EscalationChain \<Rightarrow> AlertData" where
  "alert_data alert tier chain =
     \<lparr>ad_AlertID = a_ID alert, ad_DeviceIMEI = a_DeviceIMEI alert, ad_Type = a_Type alert, ad_Detail = a_Detail alert,
      ad_TierName = et_Name tier, ad_TierNum = a_CurrentTier alert + 1, ad_TierTotal = length (ec_Tiers chain),
      ad_Retry = a_Retries alert + 1, ad_MaxRetries = et_MaxRetries tier, ad_TriggeredAt = a_CreatedAt alert\<rparr>"

definition exhaust :: "Alert \<Rightarrow> instant \<Rightarrow> unit act" where
  "exhaust alert now =
     bind_prog (call_bool (CAdvanceAlert (a_TenantID alert) (alert\<lparr>a_State := AlertStateExhausted, a_UpdatedAt := now\<rparr>) (a_NextEscAt alert)))
       (\<lambda>_. Ret ())"

definition processAlert :: "Alert \<Rightarrow> instant \<Rightarrow> unit act" where
  "processAlert alert now =
     bind_prog (get_chain (a_TenantID alert) (a_ChainID alert)) (\<lambda>r. case r of
        Done (Some chain) \<Rightarrow>
          if a_CurrentTier alert \<ge> length (ec_Tiers chain) then exhaust alert now
          else let tier = ec_Tiers chain ! a_CurrentTier alert;
                   leased = alert\<lparr>a_State := AlertStateEscalating, a_NextEscAt := now + escalationLease, a_UpdatedAt := now\<rparr>
               in bind_prog (call_bool (CAdvanceAlert (a_TenantID alert) leased (a_NextEscAt alert))) (\<lambda>won. case won of
                    Done True \<Rightarrow>
                      bind_prog (step_targets leased tier) (\<lambda>targets.
                      bind_prog (call_done (CNotify (a_TenantID alert) targets (alert_data leased tier chain))) (\<lambda>_.
                      bind_prog (call_bool (CAdvanceAlert (a_TenantID alert) (after_notify chain tier now leased) (a_NextEscAt leased)))
                        (\<lambda>_. Ret ())))
                  | _ \<Rightarrow> Ret ())
      | _ \<Rightarrow> exhaust alert now)"

definition processAlerts :: "unit act" where
  "processAlerts =
     bind_prog (list_alerts [] True 100) (\<lambda>r. case r of
        Err _ \<Rightarrow> Ret ()
      | Done alerts \<Rightarrow> bind_prog read_clock (\<lambda>now.
          bind_prog (each (\<lambda>alert. if now < a_NextEscAt alert then Ret () else processAlert alert now) alerts) (\<lambda>_. Ret ())))"

end
