(* ===== verification/SosRuns.thy ===== *)
theory SosRuns
  imports Escalation Topics
begin

text \<open>
  Distress calls (\<open>internal/sos\<close>). An SOS raised under its own identity is a run: its starts and
  cancels, from whatever bearer and replica, are applied to one row, and the alert work the row
  owes is done at once or by the reconciler (\<open>runs.go\<close>). Older messages are searched for
  distress words and claimed once (\<open>detector.go\<close>). Every function is a program over the store
  of \<open>AlertStore\<close>. SHA-1 and SHA-256 are arguments, JSON arrives decoded.
\<close>

section \<open>Runs\<close>

record sos_cfg =
  sc_sha1 :: "bytes \<Rightarrow> bytes"
  sc_sha256 :: "bytes \<Rightarrow> bytes"
  sc_engine :: bool

record SosEvent =
  v_TenantID :: string
  v_BridgeID :: string
  v_Bearer :: string
  v_Kind :: string
  v_SOSID :: string
  v_RunStartMs :: int
  v_DeviceID :: string
  v_Text :: string
  v_Lat :: float64
  v_Lon :: float64
  v_HasPosition :: bool
  v_Reason :: int
  v_By :: string

definition Origin :: "string \<Rightarrow> string" where
  "Origin bridgeID = ''bridge:'' @ bridgeID"

definition AlertID :: "(bytes \<Rightarrow> bytes) \<Rightarrow> run_key \<Rightarrow> string" where
  "AlertID sha256 key =
     (case key of (tenantID, origin, sosID) \<Rightarrow>
        ''sos-'' @ hex_EncodeToString (take 20 (sha256 (str_bytes (tenantID @ [CHR 0x00] @ origin @ [CHR 0x00] @ sosID)))))"

definition alert_subject :: "SOSRun \<Rightarrow> string" where
  "alert_subject run = (if sr_DeviceID run = [] \<or> sr_DeviceID run = ''bridge'' then sr_BridgeID run else sr_DeviceID run)"

definition alertFor :: "sos_cfg \<Rightarrow> SOSRun \<Rightarrow> string \<Rightarrow> Alert" where
  "alertFor G run chain =
     \<lparr>a_ID = AlertID (sc_sha256 G) (run_key run), a_TenantID = [], a_ChainID = chain, a_DeviceIMEI = alert_subject run,
      a_Type = ''sos'',
      a_Detail = (if sr_Text run = [] then ''SOS from bridge '' @ sr_BridgeID run @ '' via '' @ sr_Bearers run else sr_Text run),
      a_State = [], a_CurrentTier = 0, a_Retries = 0, a_AckedBy = [], a_AckedAt = zero_time, a_NextEscAt = zero_time,
      a_CreatedAt = zero_time, a_UpdatedAt = zero_time\<rparr>"

definition closeAlert :: "sos_cfg \<Rightarrow> SOSRun \<Rightarrow> unit outcome act" where
  "closeAlert G run =
     (if \<not> sc_engine G then Ret (Done ())
      else let by = (if sr_CancelledBy run = [] then sr_Origin run else sr_CancelledBy run)
           in bind_prog (chainOf (sr_TenantID run)) (\<lambda>chain.
              bind_prog (Close (sr_TenantID run) (alertFor G run chain) by) (\<lambda>r. case r of
                Done _ \<Rightarrow> Ret (Done ()) | Err b \<Rightarrow> Ret (Err b))))"

definition raise :: "sos_cfg \<Rightarrow> SOSRun \<Rightarrow> unit outcome act" where
  "raise G run =
     (if \<not> sc_engine G then Ret (Done ())
      else bind_prog (chainOf (sr_TenantID run)) (\<lambda>chain.
        if chain = [] then Ret (Done ())
        else let alert = alertFor G run chain
             in bind_prog (TriggerOnce (sr_TenantID run) alert) (\<lambda>r. case r of
                  Err b \<Rightarrow> Ret (Err b)
                | Done _ \<Rightarrow> bind_prog (call_done (CSetSOSRunAlert (run_key run) (a_ID alert))) (\<lambda>r. case r of
                    Err b \<Rightarrow> Ret (Err b)
                  | Done _ \<Rightarrow> bind_prog (get_run (run_key run)) (\<lambda>r. case r of
                      Done (Some now) \<Rightarrow> if sr_State now = SOSRunCancelled then closeAlert G now else Ret (Done ())
                    | Done None \<Rightarrow> Ret (Err False)
                    | Err b \<Rightarrow> Ret (Err b))))))"

definition syncAlert :: "sos_cfg \<Rightarrow> SOSRun \<Rightarrow> unit outcome act" where
  "syncAlert G run = (if sr_State run = SOSRunCancelled then closeAlert G run else raise G run)"

definition settle :: "sos_cfg \<Rightarrow> SOSRun \<Rightarrow> bool act" where
  "settle G run =
     bind_prog (syncAlert G run) (\<lambda>r. case r of
        Err _ \<Rightarrow> Ret False
      | Done _ \<Rightarrow> bind_prog (call_bool (CClearSOSRunAlertPending (run_key run) (sr_Rev run))) (\<lambda>ok. Ret (ok = Done True)))"

definition tell :: "SOSRun \<Rightarrow> unit act" where
  "tell run =
     bind_prog (call_done (CPublish (TopicSOSFor (sr_TenantID run) (alert_subject run))
       (PRunEvent \<lparr>re_IMEI = alert_subject run, re_Text = sr_Text run, re_SOSID = sr_SOSID run, re_State = sr_State run,
          re_BridgeID = sr_BridgeID run, re_Bearers = sr_Bearers run,
          re_Lat = (if sr_HasPosition run then sr_Lat run else 0), re_Lon = (if sr_HasPosition run then sr_Lon run else 0)\<rparr>)))
       (\<lambda>_. Ret ())"

definition ack :: "SOSRun \<Rightarrow> string \<Rightarrow> unit act" where
  "ack run kind =
     bind_prog (call_done (CPublish (TopicSOSAckFor (sr_TenantID run) (sr_BridgeID run))
       (PSosAck \<lparr>sk_V = 2, sk_SOSID = sr_SOSID run, sk_Kind = kind, sk_State = sr_State run, sk_Rev = sr_Rev run\<rparr>)))
       (\<lambda>_. Ret ())"

definition log_run :: "SOSRun \<Rightarrow> SosEvent \<Rightarrow> string \<Rightarrow> unit act" where
  "log_run run ev by =
     bind_prog (call_done (CAuditLog (sr_TenantID run) (if v_Kind ev = SOSEventCancel then ''sos_run_cancel'' else ''sos_run_start'') by))
       (\<lambda>_. Ret ())"

text \<open>\<open>dbwrap.RetryShort\<close>: up to three attempts while the error is transient; the wait between
  two attempts may end with the context.\<close>

fun retry_from :: "nat \<Rightarrow> 'a outcome act \<Rightarrow> 'a outcome act" where
  "retry_from 0 f = Ret (Err True)"
| "retry_from (Suc n) f =
     bind_prog f (\<lambda>r. case r of
        Done a \<Rightarrow> Ret (Done a)
      | Err False \<Rightarrow> Ret (Err False)
      | Err True \<Rightarrow> bind_prog (call_bool CWait) (\<lambda>done. if done = Done True then Ret (Err True) else retry_from n f))"

definition RetryShort :: "'a outcome act \<Rightarrow> 'a outcome act" where
  "RetryShort f = retry_from 3 f"

definition run_event :: "SosEvent \<Rightarrow> string \<Rightarrow> string \<Rightarrow> instant \<Rightarrow> SOSRunEvent" where
  "run_event ev origin by at =
     \<lparr>se_TenantID = v_TenantID ev, se_Origin = origin, se_SOSID = v_SOSID ev, se_BridgeID = v_BridgeID ev,
      se_RunStartMs = v_RunStartMs ev, se_Kind = v_Kind ev, se_Bearer = v_Bearer ev, se_DeviceID = v_DeviceID ev,
      se_Text = v_Text ev, se_Lat = v_Lat ev, se_Lon = v_Lon ev, se_HasPosition = v_HasPosition ev, se_By = by,
      se_Reason = v_Reason ev, se_At = at\<rparr>"

definition when_prog :: "bool \<Rightarrow> unit act \<Rightarrow> unit act" where
  "when_prog b p = (if b then p else Ret ())"

definition apply_sos :: "sos_cfg \<Rightarrow> SosEvent \<Rightarrow> string \<Rightarrow> SOSRunApplied outcome act" where
  "apply_sos G ev origin =
     (let by = (if v_By ev = [] then origin else v_By ev)
      in bind_prog (RetryShort (bind_prog read_clock (\<lambda>at. apply_event (run_event ev origin by at)))) (\<lambda>r. case r of
           Err b \<Rightarrow> Ret (Err b)
         | Done applied \<Rightarrow>
             let run = sa_Run applied
             in bind_prog (when_prog (sr_AlertPending run) (bind_prog (settle G run) (\<lambda>_. Ret ()))) (\<lambda>_.
                bind_prog (when_prog (sa_Created applied \<and> sr_State run = SOSRunActive \<or> sa_Ended applied) (tell run)) (\<lambda>_.
                bind_prog (when_prog (v_By ev = []) (ack run (v_Kind ev))) (\<lambda>_.
                bind_prog (log_run run ev by) (\<lambda>_. Ret (Done applied)))))))"

datatype sos_error = UnknownKind | ErrBadSOSID | NotStored

definition Apply :: "sos_cfg \<Rightarrow> SosEvent \<Rightarrow> (sos_error + SOSRunApplied) act" where
  "Apply G ev =
     (if v_Kind ev \<noteq> SOSEventStart \<and> v_Kind ev \<noteq> SOSEventCancel then Ret (Inl UnknownKind)
      else if v_TenantID ev = [] \<or> v_BridgeID ev = [] \<or> \<not> SOSIDValid (sc_sha1 G) (v_SOSID ev) (v_BridgeID ev) (v_RunStartMs ev)
      then Ret (Inl ErrBadSOSID)
      else bind_prog (apply_sos G ev (Origin (v_BridgeID ev))) (\<lambda>r. case r of
             Done applied \<Rightarrow> Ret (Inr applied) | Err _ \<Rightarrow> Ret (Inl NotStored)))"

section \<open>Operators, the reconciler, the fallback\<close>

definition hub_cancel :: "SOSRun \<Rightarrow> string \<Rightarrow> string \<Rightarrow> SosEvent" where
  "hub_cancel run tenantID userID =
     \<lparr>v_TenantID = tenantID, v_BridgeID = sr_BridgeID run, v_Bearer = ''hub'', v_Kind = SOSEventCancel, v_SOSID = sr_SOSID run,
      v_RunStartMs = sr_RunStartMs run, v_DeviceID = [], v_Text = [], v_Lat = 0, v_Lon = 0, v_HasPosition = False,
      v_Reason = 0, v_By = ''user:'' @ userID\<rparr>"

fun cancel_loop :: "sos_cfg \<Rightarrow> string \<Rightarrow> string \<Rightarrow> SOSRun list \<Rightarrow> SOSRun list \<Rightarrow> (SOSRun list \<times> bool) act" where
  "cancel_loop G tenantID userID [] out = Ret (out, True)"
| "cancel_loop G tenantID userID (run # runs) out =
     bind_prog (apply_sos G (hub_cancel run tenantID userID) (sr_Origin run)) (\<lambda>r. case r of
        Err _ \<Rightarrow> Ret (out, False)
      | Done applied \<Rightarrow> cancel_loop G tenantID userID runs (out @ [sa_Run applied]))"

definition CancelRuns :: "sos_cfg \<Rightarrow> string \<Rightarrow> string \<Rightarrow> string \<Rightarrow> (SOSRun list \<times> bool) act" where
  "CancelRuns G tenantID sosID userID =
     bind_prog (list_runs (CFindSOSRuns tenantID sosID)) (\<lambda>r. case r of
        Done runs \<Rightarrow> if runs = [] then Ret ([], False) else cancel_loop G tenantID userID runs []
      | Err _ \<Rightarrow> Ret ([], False))"

definition Reconcile :: "sos_cfg \<Rightarrow> nat outcome act" where
  "Reconcile G =
     bind_prog (list_runs (CListSOSRunsAlertPending 100)) (\<lambda>r. case r of
        Err b \<Rightarrow> Ret (Err b)
      | Done runs \<Rightarrow> bind_prog (each (settle G) runs) (\<lambda>oks. Ret (Done (length (filter id oks)))))"

definition PageUnstored :: "sos_cfg \<Rightarrow> SosEvent \<Rightarrow> bool act" where
  "PageUnstored G ev =
     (if \<not> sc_engine G then Ret False
      else bind_prog (chainOf (v_TenantID ev)) (\<lambda>chain.
        if chain = [] then Ret True
        else bind_prog read_clock (\<lambda>at.
          let run = NewSOSRun ((run_event ev (Origin (v_BridgeID ev)) [] at)\<lparr>se_Kind := SOSEventStart, se_Reason := 0\<rparr>)
          in bind_prog (TriggerOnce (v_TenantID ev) (alertFor G run chain)) (\<lambda>r. case r of
               Err _ \<Rightarrow> Ret False | Done _ \<Rightarrow> Ret True))))"

section \<open>Events from the bus\<close>

record MQTTEvent =
  m_V :: int
  m_Kind :: string
  m_SOSID :: string
  m_RunStartMs :: "int option"
  m_DeviceID :: string
  m_Text :: string
  m_Lat :: "float64 option"
  m_Lon :: "float64 option"
  m_Reason :: int
  m_Timestamp :: int

definition mqtt_position :: "MQTTEvent \<Rightarrow> (float64 \<times> float64) option" where
  "mqtt_position m = (case (m_Lat m, m_Lon m) of (Some lat, Some lon) \<Rightarrow> Some (lat, lon) | _ \<Rightarrow> None)"

definition mqtt_event :: "string \<Rightarrow> string \<Rightarrow> MQTTEvent \<Rightarrow> int \<Rightarrow> SosEvent" where
  "mqtt_event tenantID bridgeID m start =
     \<lparr>v_TenantID = tenantID, v_BridgeID = bridgeID, v_Bearer = ''mqtt'', v_Kind = m_Kind m, v_SOSID = m_SOSID m,
      v_RunStartMs = start, v_DeviceID = m_DeviceID m, v_Text = m_Text m,
      v_Lat = (case mqtt_position m of Some (lat, lon) \<Rightarrow> lat | None \<Rightarrow> 0),
      v_Lon = (case mqtt_position m of Some (lat, lon) \<Rightarrow> lon | None \<Rightarrow> 0),
      v_HasPosition = (mqtt_position m \<noteq> None), v_Reason = m_Reason m, v_By = []\<rparr>"

text \<open>A start that cannot be taken as its run pages the old way.\<close>

definition page_old_way :: "string \<Rightarrow> string \<Rightarrow> MQTTEvent \<Rightarrow> unit act" where
  "page_old_way tenantID bridgeID m =
     bind_prog read_clock (\<lambda>now.
       let ts = (if m_Timestamp m > 0 then m_Timestamp m * 1000000000 else now);
           subject = (if m_DeviceID m = [] \<or> m_DeviceID m = ''bridge'' then bridgeID else m_DeviceID m);
           text' = (if m_Text m = [] then ''SOS from bridge '' @ bridgeID @ '' via mqtt'' else m_Text m)
       in bind_prog (call_done (CPublish (TopicMODecodedFor tenantID subject)
            (PLegacy \<lparr>ls_id = ''sos-mqtt-'' @ bridgeID @ ''-'' @ FormatInt (ts div 1000000000), ls_imei = subject,
               ls_bridge_id = bridgeID, ls_text = text', ls_timestamp = ts, ls_position = mqtt_position m\<rparr>))) (\<lambda>_. Ret ()))"

definition handleMQTT :: "sos_cfg \<Rightarrow> string \<Rightarrow> bool \<Rightarrow> MQTTEvent \<Rightarrow> unit act" where
  "handleMQTT G topic json_ok m =
     (case ParseSOSEventTopic topic of
        None \<Rightarrow> Ret ()
      | Some (tenantID, bridgeID) \<Rightarrow>
          let refused = when_prog (m_Kind m = SOSEventStart) (page_old_way tenantID bridgeID m)
          in if \<not> json_ok \<or> m_V m \<noteq> 2 then refused
             else case m_RunStartMs m of
               None \<Rightarrow> refused
             | Some start \<Rightarrow>
                 if m_Kind m \<noteq> SOSEventStart \<and> m_Kind m \<noteq> SOSEventCancel then refused
                 else bind_prog (Apply G (mqtt_event tenantID bridgeID m start)) (\<lambda>r.
                        when_prog (r = Inl ErrBadSOSID) refused))"

definition PublishCaps :: "string \<Rightarrow> string \<Rightarrow> bool \<Rightarrow> unit act" where
  "PublishCaps tenantID bridgeID sosV2 =
     bind_prog (call_done (CPublish (TopicHubCapsFor tenantID bridgeID) (PCaps (if sosV2 then [''sos_v2''] else [])))) (\<lambda>_. Ret ())"

end
