(* ===== verification/Ladder.thy ===== *)
theory Ladder
  imports Escalation
begin

text \<open>
  The course of an alert when the engine's calls work: it notifies the tiers of its chain in
  order, each as often as the tier says (at least once), and is then exhausted. Two ways out of
  that course are shown as lemmas: a failed read of the chain exhausts the alert, and an alert
  is not processed while a hundred younger ones are active.
\<close>

section \<open>One step\<close>



text \<open>The tiers and retries of a chain in the order they are notified, from tier \<open>i\<close> on.\<close>

fun ladder :: "nat \<Rightarrow> EscalationTier list \<Rightarrow> (nat \<times> int) list" where
  "ladder i [] = []"
| "ladder i (tier # tiers) = map (\<lambda>k. (i, int k)) [0..<max 1 (nat (et_MaxRetries tier))] @ ladder (Suc i) tiers"

definition course :: "EscalationTier list \<Rightarrow> nat \<Rightarrow> nat \<Rightarrow> (nat \<times> int) list" where
  "course tiers i k = (if i < length tiers
     then map (\<lambda>k. (i, int k)) [k..<max 1 (nat (et_MaxRetries (tiers ! i)))] @ ladder (Suc i) (drop (Suc i) tiers) else [])"

lemma course_start: "course tiers i 0 = ladder i (drop i tiers)"
  by (cases "i < length tiers") (simp_all add: course_def Cons_nth_drop_Suc [symmetric])

lemma course_step:
  assumes "i < length tiers" "k < max 1 (nat (et_MaxRetries (tiers ! i)))"
  shows "course tiers i k = (i, int k) # (if et_MaxRetries (tiers ! i) \<le> int k + 1 then course tiers (Suc i) 0 else course tiers i (Suc k))"
proof -
  define m where "m = max 1 (nat (et_MaxRetries (tiers ! i)))"
  have c: "course tiers i j = map (\<lambda>k. (i, int k)) [j..<m] @ ladder (Suc i) (drop (Suc i) tiers)" for j
    using assms(1) by (simp add: course_def m_def)
  have "[k..<m] = k # [Suc k..<m]" using assms(2) by (simp add: upt_conv_Cons m_def)
  moreover have "[Suc k..<m] = []" if "et_MaxRetries (tiers ! i) \<le> int k + 1" using that by (simp add: m_def)
  ultimately show ?thesis unfolding c course_start by simp
qed

lemma find_unique: "distinct (map f xs) \<Longrightarrow> x \<in> set xs \<Longrightarrow> List.find (\<lambda>y. f y = f x) xs = Some x"
  by (induction xs) (auto intro: rev_image_eqI)

lemma find_map_same:
  "List.find P xs = Some x \<Longrightarrow> (\<And>y. P (f y) = P y) \<Longrightarrow> List.find P (map f xs) = Some (f x)"
  by (induction xs) (auto split: if_splits)


text \<open>The row of an alert, where ids are unique.\<close>

definition the_row :: "string \<Rightarrow> Alert \<Rightarrow> world \<Rightarrow> bool" where
  "the_row t a w \<longleftrightarrow> a \<in> set (wd_alerts w) \<and> a_TenantID a = t \<and> distinct (map a_ID (wd_alerts w)) \<and>
     col_time (a_NextEscAt a) = a_NextEscAt a"

lemma the_row_Get: "the_row t a w \<Longrightarrow> GetAlert t (a_ID a) w = Some a"
proof -
  assume row: "the_row t a w"
  have "List.find (\<lambda>b. a_ID b = a_ID a \<and> of_tenant t b) xs = Some a" if "a \<in> set xs" "distinct (map a_ID xs)" for xs
    using that row by (induction xs) (auto simp: the_row_def of_tenant_def)
  then show ?thesis using row by (simp add: the_row_def GetAlert_def)
qed

lemma write_alert_simps [simp]:
  "a_ID (write_alert x row) = a_ID row" "a_TenantID (write_alert x row) = a_TenantID row" "a_State (write_alert x row) = a_State x"
  "a_NextEscAt (write_alert x row) = col_time (a_NextEscAt x)" "a_ChainID (write_alert x row) = a_ChainID row"
  "a_CurrentTier (write_alert x row) = a_CurrentTier x" "a_Retries (write_alert x row) = a_Retries x"
  by (simp_all add: write_alert_def)

lemma col_time_idem [simp]: "col_time (col_time t) = col_time t"
  by (simp add: col_time_def)

lemma filter_one: "distinct xs \<Longrightarrow> a \<in> set xs \<Longrightarrow> filter (\<lambda>b. b = a) xs = [a]"
  by (induction xs) (auto simp: filter_empty_conv)

text \<open>A compare-and-set on the row as it is succeeds while the alert is open.\<close>

lemma Advance_row:
  assumes row: "the_row t a w" and x: "a_ID x = a_ID a" "col_time e = a_NextEscAt a" "alert_open a"
  shows "fst (AdvanceAlert t x e w)" "the_row t (write_alert x a) (snd (AdvanceAlert t x e w))"
    "wd_chains (snd (AdvanceAlert t x e w)) = wd_chains w" "wd_notified (snd (AdvanceAlert t x e w)) = wd_notified w"
    "wd_prefs (snd (AdvanceAlert t x e w)) = wd_prefs w"
proof -
  let ?hit = "\<lambda>row. a_ID row = a_ID x \<and> a_NextEscAt row = col_time e \<and> alert_open row \<and> of_tenant t row"
  have only: "?hit b \<longleftrightarrow> b = a" if "b \<in> set (wd_alerts w)" for b
    using that row x by (auto simp: the_row_def of_tenant_def distinct_map inj_on_def)
  have d: "distinct (wd_alerts w)" "a \<in> set (wd_alerts w)" using row by (auto simp: the_row_def distinct_map)
  have "filter ?hit (wd_alerts w) = filter (\<lambda>b. b = a) (wd_alerts w)" by (rule filter_cong [OF refl only])
  also have "\<dots> = [a]" by (rule filter_one [OF d])
  finally show "fst (AdvanceAlert t x e w)" by (simp add: AdvanceAlert_def)
  have ids: "map a_ID (map (\<lambda>row. if ?hit row then write_alert x row else row) (wd_alerts w)) = map a_ID (wd_alerts w)"
    by simp
  have "write_alert x a \<in> set (map (\<lambda>row. if ?hit row then write_alert x row else row) (wd_alerts w))"
    using only [OF d(2)] d(2) by (auto intro: rev_image_eqI)
  moreover have "wd_alerts (snd (AdvanceAlert t x e w)) = map (\<lambda>row. if ?hit row then write_alert x row else row) (wd_alerts w)"
    by (simp add: AdvanceAlert_def Let_def)
  ultimately show "the_row t (write_alert x a) (snd (AdvanceAlert t x e w))"
    using row unfolding the_row_def by (metis ids col_time_idem write_alert_simps(2,4))
qed (simp_all add: AdvanceAlert_def Let_def)


text \<open>One step: one notification of the current tier, and the row moves on. The next step is due
  after the wait of a tier at the latest.\<close>

lemma run_step_targets:
  assumes "ev_fault E = Works"
  shows "\<exists>ts. run_prog (exec E) (step_targets a tier) w = (ts, w) \<and> set (et_Targets tier) \<subseteq> set ts"
  unfolding step_targets_def by (cases "a_DeviceIMEI a = []") (auto simp: run_calls [OF assms])

lemma col_time_le: "col_time t \<le> t"
  by (simp add: col_time_def)

lemma after_notify_ID: "a_ID (after_notify chain tier n a) = a_ID a"
  by (simp add: after_notify_def Let_def)

lemma after_notify_due:
  assumes "\<forall>tier \<in> set (ec_Tiers chain). secs (et_WaitSec tier) \<le> D" "tier \<in> set (ec_Tiers chain)" "alert_open (after_notify chain tier n a)"
  shows "a_NextEscAt (after_notify chain tier n a) \<le> n + D"
  using assms by (auto simp: after_notify_def Let_def step_backoff_def alert_open_def AlertStateExhausted_def
      AlertStateTriggered_def AlertStateEscalating_def split: if_splits)

lemma processAlert_step:
  assumes E: "ev_fault E = Works" and row: "the_row t a w" "alert_open a"
    and chain: "GetEscalationChain t (a_ChainID a) w = Some chain" "a_CurrentTier a < length (ec_Tiers chain)"
    and waits: "\<forall>tier \<in> set (ec_Tiers chain). secs (et_WaitSec tier) \<le> D"
  defines "tier \<equiv> ec_Tiers chain ! a_CurrentTier a" and "w' \<equiv> snd (run_prog (exec E) (processAlert a (ev_now E)) w)"
  shows "\<exists>a' ts ad. the_row t a' w' \<and> a_ID a' = a_ID a \<and> a_ChainID a' = a_ChainID a \<and> wd_chains w' = wd_chains w \<and>
    wd_notified w' = wd_notified w @ [(t, ts, ad)] \<and> ad_AlertID ad = a_ID a \<and> ad_TierNum ad = a_CurrentTier a + 1 \<and>
    ad_Retry ad = a_Retries a + 1 \<and> set (et_Targets tier) \<subseteq> set ts \<and>
    (alert_open a' \<longrightarrow> a_NextEscAt a' \<le> ev_now E + D) \<and>
    (if et_MaxRetries tier \<le> a_Retries a + 1
     then a_CurrentTier a' = a_CurrentTier a + 1 \<and> a_Retries a' = 0 \<and>
       (if a_CurrentTier a + 1 < length (ec_Tiers chain) then alert_open a' else a_State a' = AlertStateExhausted)
     else a_CurrentTier a' = a_CurrentTier a \<and> a_Retries a' = a_Retries a + 1 \<and> alert_open a')"
proof -
  let ?leased = "a\<lparr>a_State := AlertStateEscalating, a_NextEscAt := ev_now E + escalationLease, a_UpdatedAt := ev_now E\<rparr>"
  let ?w1 = "snd (AdvanceAlert t ?leased (a_NextEscAt a) w)" and ?r1 = "write_alert ?leased a"
  have t: "a_TenantID a = t" and next_esc: "col_time (a_NextEscAt a) = a_NextEscAt a" using row(1) by (simp_all add: the_row_def)
  note adv1 = Advance_row [OF row(1) _ next_esc row(2), of ?leased, simplified]
  obtain ts where ts: "run_prog (exec E) (step_targets ?leased tier) ?w1 = (ts, ?w1)" "set (et_Targets tier) \<subseteq> set ts"
    using run_step_targets [OF E] by blast
  let ?ad = "alert_data ?leased tier chain" and ?fin = "after_notify chain tier (ev_now E) ?leased"
  let ?w2 = "?w1\<lparr>wd_notified := wd_notified ?w1 @ [(t, ts, ?ad)]\<rparr>"
  have row2: "the_row t ?r1 ?w2" using adv1(2) by (simp add: the_row_def)
  have open1: "alert_open ?r1" by (simp add: alert_open_def)
  have fin_id: "a_ID ?fin = a_ID ?r1" by (simp add: after_notify_ID)
  note adv2 = Advance_row [OF row2 fin_id _ open1, of "a_NextEscAt ?leased", simplified]
  have w': "w' = snd (AdvanceAlert t ?fin (a_NextEscAt ?leased) ?w2)"
    unfolding w'_def processAlert_def using chain adv1(1) ts(1) t
    by (simp add: run_calls [OF E] tier_def [symmetric] Let_def)
  have "wd_notified w' = wd_notified w @ [(t, ts, ?ad)]" "wd_chains w' = wd_chains w" "the_row t (write_alert ?fin ?r1) w'"
    unfolding w' using adv2(2-4) adv1(3,4) by simp_all
  moreover have "alert_open (write_alert ?fin ?r1) \<longrightarrow> a_NextEscAt (write_alert ?fin ?r1) \<le> ev_now E + D"
    using after_notify_due [OF waits, of tier "ev_now E" ?leased] chain(2) col_time_le [of "a_NextEscAt ?fin"]
    by (auto simp: alert_open_def tier_def)
  ultimately show ?thesis
    by (intro exI [of _ "write_alert ?fin ?r1"] exI [of _ ts] exI [of _ ?ad])
      (use ts(2) in \<open>auto simp: after_notify_def Let_def alert_data_def alert_open_def tier_def\<close>)
qed


section \<open>The course of an alert\<close>

text \<open>An alert on its course through the chain, with the next step due at \<open>n\<close> at the latest.\<close>

definition on_course :: "string \<Rightarrow> EscalationChain \<Rightarrow> instant \<Rightarrow> Alert \<Rightarrow> world \<Rightarrow> bool" where
  "on_course t chain n a w \<longleftrightarrow> the_row t a w \<and> GetEscalationChain t (a_ChainID a) w = Some chain \<and>
     (if alert_open a then a_CurrentTier a < length (ec_Tiers chain) \<and> 0 \<le> a_Retries a \<and>
        nat (a_Retries a) < max 1 (nat (et_MaxRetries (ec_Tiers chain ! a_CurrentTier a))) \<and> a_NextEscAt a \<le> n
      else a_State a = AlertStateExhausted \<and> a_CurrentTier a = length (ec_Tiers chain))"

definition alert_log :: "string \<Rightarrow> world \<Rightarrow> (nat \<times> int) list" where
  "alert_log aid w = map (\<lambda>(t, ts, ad). (ad_TierNum ad, ad_Retry ad)) (filter (\<lambda>(t, ts, ad). ad_AlertID ad = aid) (wd_notified w))"

definition rest :: "EscalationChain \<Rightarrow> Alert \<Rightarrow> (nat \<times> int) list" where
  "rest chain a = map (\<lambda>(i, k). (i + 1, k + 1)) (course (ec_Tiers chain) (a_CurrentTier a) (nat (a_Retries a)))"

lemma course_advance:
  assumes E: "ev_fault E = Works" and a: "on_course t chain n a w" "alert_open a"
    and waits: "\<forall>tier \<in> set (ec_Tiers chain). secs (et_WaitSec tier) \<le> D"
  defines "w' \<equiv> snd (run_prog (exec E) (processAlert a (ev_now E)) w)"
  shows "\<exists>a'. on_course t chain (ev_now E + D) a' w' \<and> a_ID a' = a_ID a \<and>
    (\<exists>x. alert_log (a_ID a) w' = alert_log (a_ID a) w @ [x] \<and> rest chain a = x # rest chain a')"
proof -
  let ?tier = "ec_Tiers chain ! a_CurrentTier a"
  have pos: "a_CurrentTier a < length (ec_Tiers chain)" "0 \<le> a_Retries a" "nat (a_Retries a) < max 1 (nat (et_MaxRetries ?tier))"
    and row: "the_row t a w" "GetEscalationChain t (a_ChainID a) w = Some chain"
    using a by (simp_all add: on_course_def)
  obtain a' ts ad where s: "the_row t a' w'" "a_ID a' = a_ID a" "a_ChainID a' = a_ChainID a" "wd_chains w' = wd_chains w"
    "wd_notified w' = wd_notified w @ [(t, ts, ad)]" "ad_AlertID ad = a_ID a" "ad_TierNum ad = a_CurrentTier a + 1"
    "ad_Retry ad = a_Retries a + 1" "alert_open a' \<longrightarrow> a_NextEscAt a' \<le> ev_now E + D"
    "if et_MaxRetries ?tier \<le> a_Retries a + 1
     then a_CurrentTier a' = a_CurrentTier a + 1 \<and> a_Retries a' = 0 \<and>
       (if a_CurrentTier a + 1 < length (ec_Tiers chain) then alert_open a' else a_State a' = AlertStateExhausted)
     else a_CurrentTier a' = a_CurrentTier a \<and> a_Retries a' = a_Retries a + 1 \<and> alert_open a'"
    using processAlert_step [OF E row(1) a(2) row(2) pos(1) waits] unfolding w'_def by blast
  have "on_course t chain (ev_now E + D) a' w'"
    using s(1,3,4,9,10) row(2) pos
    by (auto simp: on_course_def GetEscalationChain_def alert_open_def AlertStateExhausted_def AlertStateTriggered_def
        AlertStateEscalating_def split: if_splits)
  moreover have "alert_log (a_ID a) w' = alert_log (a_ID a) w @ [(a_CurrentTier a + 1, a_Retries a + 1)]"
    using s(5-8) by (simp add: alert_log_def)
  moreover have "rest chain a = (a_CurrentTier a + 1, a_Retries a + 1) # rest chain a'"
    using s(10) pos(2) unfolding rest_def course_step [OF pos(1,3)] by (auto simp: nat_add_distrib split: if_splits)
  ultimately show ?thesis using s(2) by blast
qed


section \<open>The other alerts\<close>

text \<open>What the work on the alert \<open>aid\<close> leaves alone.\<close>

definition apart :: "string \<Rightarrow> world \<Rightarrow> world \<Rightarrow> bool" where
  "apart aid w w' \<longleftrightarrow> wd_chains w' = wd_chains w \<and> map a_ID (wd_alerts w') = map a_ID (wd_alerts w) \<and>
     (\<forall>b \<in> set (wd_alerts w). a_ID b \<noteq> aid \<longrightarrow> b \<in> set (wd_alerts w')) \<and>
     length (filter alert_open (wd_alerts w')) \<le> length (filter alert_open (wd_alerts w)) \<and>
     (\<forall>b. b \<noteq> aid \<longrightarrow> alert_log b w' = alert_log b w)"

lemma apart_refl [simp]: "apart aid w w"
  by (simp add: apart_def)

lemma apart_trans: "apart aid w1 w2 \<Longrightarrow> apart aid w2 w3 \<Longrightarrow> apart aid w1 w3"
  unfolding apart_def by (metis le_trans)

lemma filter_map_le: "(\<And>x. P (f x) \<Longrightarrow> P x) \<Longrightarrow> length (filter P (map f xs)) \<le> length (filter P xs)"
  by (induction xs) auto

lemma apart_Advance: "apart (a_ID x) w (snd (AdvanceAlert t x e w))"
proof -
  let ?f = "\<lambda>row. if a_ID row = a_ID x \<and> a_NextEscAt row = col_time e \<and> alert_open row \<and> of_tenant t row then write_alert x row else row"
  have "length (filter alert_open (map ?f (wd_alerts w))) \<le> length (filter alert_open (wd_alerts w))"
    by (rule filter_map_le) (auto split: if_splits)
  moreover have "map a_ID (map ?f (wd_alerts w)) = map a_ID (wd_alerts w)" by simp
  moreover have "\<forall>b \<in> set (wd_alerts w). a_ID b \<noteq> a_ID x \<longrightarrow> b \<in> set (map ?f (wd_alerts w))"
    by (auto intro: rev_image_eqI)
  moreover have "snd (AdvanceAlert t x e w) = w\<lparr>wd_alerts := map ?f (wd_alerts w)\<rparr>" by (simp add: AdvanceAlert_def Let_def)
  ultimately show ?thesis by (simp only: apart_def) (simp add: alert_log_def)
qed

lemma apart_notify: "ad_AlertID ad = aid \<Longrightarrow> apart aid w (w\<lparr>wd_notified := wd_notified w @ [(t, ts, ad)]\<rparr>)"
  by (simp add: apart_def alert_log_def)

lemma apart_processAlert:
  assumes E: "ev_fault E = Works"
  shows "apart (a_ID a) w (snd (run_prog (exec E) (processAlert a n) w))"
proof (cases "\<exists>chain. GetEscalationChain (a_TenantID a) (a_ChainID a) w = Some chain \<and> a_CurrentTier a < length (ec_Tiers chain)")
  case False
  then have "snd (run_prog (exec E) (processAlert a n) w) =
      snd (AdvanceAlert (a_TenantID a) (a\<lparr>a_State := AlertStateExhausted, a_UpdatedAt := n\<rparr>) (a_NextEscAt a) w)"
    by (auto simp: processAlert_def run_calls [OF E] exhaust_def split: option.splits)
  then show ?thesis using apart_Advance [of "a\<lparr>a_State := AlertStateExhausted, a_UpdatedAt := n\<rparr>"] by simp
next
  case True
  then obtain chain where chain: "GetEscalationChain (a_TenantID a) (a_ChainID a) w = Some chain" "a_CurrentTier a < length (ec_Tiers chain)"
    by blast
  let ?tier = "ec_Tiers chain ! a_CurrentTier a"
  let ?leased = "a\<lparr>a_State := AlertStateEscalating, a_NextEscAt := n + escalationLease, a_UpdatedAt := n\<rparr>"
  let ?fin = "after_notify chain ?tier n ?leased"
  let ?w1 = "snd (AdvanceAlert (a_TenantID a) ?leased (a_NextEscAt a) w)"
  obtain ts where ts: "run_prog (exec E) (step_targets ?leased ?tier) ?w1 = (ts, ?w1)" using run_step_targets [OF E] by blast
  let ?w2 = "?w1\<lparr>wd_notified := wd_notified ?w1 @ [(a_TenantID a, ts, alert_data ?leased ?tier chain)]\<rparr>"
  have "apart (a_ID a) w ?w1" using apart_Advance [of ?leased] by simp
  moreover have "apart (a_ID a) ?w1 ?w2" by (rule apart_notify) (simp add: alert_data_def)
  moreover have "apart (a_ID a) ?w2 (snd (AdvanceAlert (a_TenantID a) ?fin (a_NextEscAt ?leased) ?w2))"
    using apart_Advance [of ?fin] by (simp only: after_notify_ID) simp
  moreover have "snd (run_prog (exec E) (processAlert a n) w) \<in> {?w1, snd (AdvanceAlert (a_TenantID a) ?fin (a_NextEscAt ?leased) ?w2)}"
    using chain ts by (cases "fst (AdvanceAlert (a_TenantID a) ?leased (a_NextEscAt a) w)")
      (simp_all add: processAlert_def run_calls [OF E] Let_def)
  ultimately show ?thesis by (auto intro: apart_trans)
qed

lemma apart_course:
  assumes "apart aid w w'" "on_course t chain n a w" "a_ID a \<noteq> aid"
  shows "on_course t chain n a w'" "alert_log (a_ID a) w' = alert_log (a_ID a) w"
  using assms by (auto simp: apart_def on_course_def the_row_def GetEscalationChain_def)


section \<open>Ticks of the engine\<close>

abbreviation due_step :: "instant \<Rightarrow> Alert \<Rightarrow> unit act" where
  "due_step n alert \<equiv> (if n < a_NextEscAt alert then Ret () else processAlert alert n)"

definition tick :: "env \<Rightarrow> world \<Rightarrow> world" where
  "tick E w = snd (run_prog (exec E) processAlerts w)"

lemma tick_eq: "ev_fault E = Works \<Longrightarrow> tick E w = snd (run_prog (exec E) (each (due_step (ev_now E)) (ListAlerts [] True 100 w)) w)"
  by (simp add: tick_def processAlerts_def run_calls case_prod_beta Let_def cong: if_cong)

lemma run_each_Cons:
  "snd (run_prog ex (each f (x # xs)) w) = snd (run_prog ex (each f xs) (snd (run_prog ex (f x) w)))"
  by (simp add: case_prod_beta Let_def)

lemma run_each_append:
  "snd (run_prog ex (each f (xs @ ys)) w) = snd (run_prog ex (each f ys) (snd (run_prog ex (each f xs) w)))"
  by (induction xs arbitrary: w) (simp_all add: case_prod_beta Let_def)

text \<open>Work on other alerts keeps an alert where it is on its course, and opens none.\<close>

lemma each_others:
  fixes m :: instant
  assumes E: "ev_fault E = Works" and a: "on_course t chain n a w" and xs: "a_ID a \<notin> a_ID ` set xs"
  defines "w' \<equiv> snd (run_prog (exec E) (each (due_step m) xs) w)"
  shows "on_course t chain n a w'" "alert_log (a_ID a) w' = alert_log (a_ID a) w"
    and each_open: "length (filter alert_open (wd_alerts w')) \<le> length (filter alert_open (wd_alerts w))"
proof -
  have "on_course t chain n a (snd (run_prog (exec E) (each (due_step m) xs) w)) \<and>
      alert_log (a_ID a) (snd (run_prog (exec E) (each (due_step m) xs) w)) = alert_log (a_ID a) w \<and>
      length (filter alert_open (wd_alerts (snd (run_prog (exec E) (each (due_step m) xs) w)))) \<le> length (filter alert_open (wd_alerts w))"
    using a xs
  proof (induction xs arbitrary: w)
    case (Cons x xs)
    let ?w = "snd (run_prog (exec E) (due_step m x) w)"
    have "apart (a_ID x) w ?w" using apart_processAlert [OF E] by simp
    moreover have "a_ID a \<noteq> a_ID x" using Cons.prems(2) by auto
    ultimately have "on_course t chain n a ?w" "alert_log (a_ID a) ?w = alert_log (a_ID a) w"
        "length (filter alert_open (wd_alerts ?w)) \<le> length (filter alert_open (wd_alerts w))"
      using apart_course [OF _ Cons.prems(1)] by (auto simp: apart_def)
    then show ?case unfolding run_each_Cons using Cons.IH [of ?w] Cons.prems(2) by auto
  qed simp
  then show "on_course t chain n a w'" "alert_log (a_ID a) w' = alert_log (a_ID a) w"
    "length (filter alert_open (wd_alerts w')) \<le> length (filter alert_open (wd_alerts w))" by (simp_all add: w'_def)
qed

lemma listed:
  assumes "the_row t a w" "length (filter alert_open (wd_alerts w)) \<le> 100"
  shows "a \<in> set (ListAlerts [] True 100 w) \<longleftrightarrow> alert_open a" "distinct (map a_ID (ListAlerts [] True 100 w))"
    "\<not> alert_open a \<Longrightarrow> a_ID a \<notin> a_ID ` set (ListAlerts [] True 100 w)"
proof -
  let ?L = "ListAlerts [] True 100 w" and ?O = "filter alert_open (wd_alerts w)"
  have L: "?L = rev (sort_key a_CreatedAt (rev ?O))" using assms(2) by (simp add: ListAlerts_def of_tenant_def)
  then have set: "set ?L = set ?O" by simp
  have inj: "inj_on a_ID (set (wd_alerts w))" "distinct (wd_alerts w)" using assms(1) by (auto simp: the_row_def distinct_map)
  show "a \<in> set ?L \<longleftrightarrow> alert_open a" using assms(1) set by (simp add: the_row_def)
  show "distinct (map a_ID ?L)" unfolding distinct_map set
    by (rule conjI) (use inj in \<open>auto simp: L inj_on_def\<close>)
  show "a_ID a \<notin> a_ID ` set ?L" if "\<not> alert_open a"
    using assms(1) inj(1) that unfolding set by (auto simp: the_row_def inj_on_def)
qed


lemma tick_course:
  assumes E: "ev_fault E = Works" and a: "on_course t chain n a w" and few: "length (filter alert_open (wd_alerts w)) \<le> 100"
    and waits: "\<forall>tier \<in> set (ec_Tiers chain). secs (et_WaitSec tier) \<le> D" and due: "n \<le> ev_now E"
  shows "\<exists>a'. on_course t chain (ev_now E + D) a' (tick E w) \<and> a_ID a' = a_ID a \<and>
    alert_log (a_ID a) (tick E w) = alert_log (a_ID a) w @ take 1 (rest chain a) \<and> rest chain a' = drop 1 (rest chain a) \<and>
    length (filter alert_open (wd_alerts (tick E w))) \<le> 100"
proof -
  let ?L = "ListAlerts [] True 100 w" and ?run = "\<lambda>xs w. snd (run_prog (exec E) (each (due_step (ev_now E)) xs) w)"
  have row: "the_row t a w" using a by (simp add: on_course_def)
  note L = listed [OF row few]
  note tick = tick_eq [OF E, of w]
  show ?thesis
  proof (cases "alert_open a")
    case False
    have "rest chain a = []" using a False by (simp add: on_course_def rest_def course_def)
    moreover have "on_course t chain (ev_now E + D) a w" using a False by (simp add: on_course_def)
    ultimately show ?thesis using each_others [OF E _ L(3) [OF False], of t chain "ev_now E + D" w "ev_now E"] few
      unfolding tick by (intro exI [of _ a]) auto
  next
    case True
    then obtain pre post where split: "?L = pre @ a # post" using L(1) by (meson split_list)
    then have other: "a_ID a \<notin> a_ID ` set pre" "a_ID a \<notin> a_ID ` set post" using L(2) by auto
    define w1 where "w1 = ?run pre w"
    define w2 where "w2 = snd (run_prog (exec E) (processAlert a (ev_now E)) w1)"
    have w1: "on_course t chain n a w1" "alert_log (a_ID a) w1 = alert_log (a_ID a) w" "length (filter alert_open (wd_alerts w1)) \<le> 100"
      using each_others [OF E a other(1), of "ev_now E"] few by (simp_all add: w1_def)
    obtain a' x where w2: "on_course t chain (ev_now E + D) a' w2" "a_ID a' = a_ID a" "alert_log (a_ID a) w2 = alert_log (a_ID a) w1 @ [x]"
        "rest chain a = x # rest chain a'"
      using course_advance [OF E w1(1) True waits] unfolding w2_def by blast
    have few2: "length (filter alert_open (wd_alerts w2)) \<le> 100"
      using apart_processAlert [OF E, of a w1 "ev_now E"] w1(3) by (simp add: apart_def w2_def)
    have now: "a_NextEscAt a \<le> ev_now E" using a True due by (simp add: on_course_def)
    have tick: "tick E w = ?run post w2"
      unfolding tick split run_each_append run_each_Cons using now by (simp add: w1_def w2_def)
    show ?thesis
      using each_others [OF E w2(1), of post "ev_now E"] other(2) w2 few2 w1(2) unfolding tick
      by (intro exI [of _ a']) auto
  qed
qed

text \<open>Ticks at times that are at least \<open>D\<close> apart, the first at \<open>n\<close> or later.\<close>

fun spaced :: "instant \<Rightarrow> int \<Rightarrow> env list \<Rightarrow> bool" where
  "spaced n D [] = True"
| "spaced n D (E # Es) \<longleftrightarrow> n \<le> ev_now E \<and> ev_fault E = Works \<and> spaced (ev_now E + D) D Es"

lemma ticks_course:
  assumes "on_course t chain n a w" "spaced n D Es" "length (filter alert_open (wd_alerts w)) \<le> 100"
    and waits: "\<forall>tier \<in> set (ec_Tiers chain). secs (et_WaitSec tier) \<le> D"
  shows "\<exists>n' a'. on_course t chain n' a' (fold tick Es w) \<and> a_ID a' = a_ID a \<and>
    alert_log (a_ID a) (fold tick Es w) = alert_log (a_ID a) w @ take (length Es) (rest chain a) \<and>
    rest chain a' = drop (length Es) (rest chain a)"
  using assms(1-3)
proof (induction Es arbitrary: n a w)
  case (Cons E Es)
  have E: "n \<le> ev_now E" "ev_fault E = Works" "spaced (ev_now E + D) D Es" using Cons.prems(2) by simp_all
  obtain a1 where a1: "on_course t chain (ev_now E + D) a1 (tick E w)" "a_ID a1 = a_ID a" "rest chain a1 = drop 1 (rest chain a)"
      "alert_log (a_ID a) (tick E w) = alert_log (a_ID a) w @ take 1 (rest chain a)" "length (filter alert_open (wd_alerts (tick E w))) \<le> 100"
    using tick_course [OF E(2) Cons.prems(1,3) waits E(1)] by blast
  have "take 1 xs @ take k (drop 1 xs) = take (Suc k) xs" for k and xs :: "(nat \<times> int) list" by (cases xs) simp_all
  then show ?case using Cons.IH [OF a1(1) E(3) a1(5)] a1(2-4) by (fastforce simp: drop_drop)
qed auto


text \<open>C6: An escalated alert climbs its chain. Take an open alert at the bottom of a chain with
  at least one tier, in a store with unique alert ids and at most a hundred active alerts of all
  tenants (the engine reads no more). When the engine ticks with working calls, the first time
  when the alert is due and then at least the longest wait of a tier apart, each tick notifies it
  once, in the order of the chain: every tier as often as its \<open>MaxRetries\<close> says and at least
  once, with rising retry numbers. After as many ticks as the chain has notifications the alert
  is exhausted, and no further tick notifies it. Other alerts escalate beside it and change
  nothing.\<close>

theorem escalation_climbs:
  assumes row: "the_row t a w" "alert_open a" "a_CurrentTier a = 0" "a_Retries a = 0"
    and chain: "GetEscalationChain t (a_ChainID a) w = Some chain" "ec_Tiers chain \<noteq> []"
    and few: "length (filter alert_open (wd_alerts w)) \<le> 100"
    and waits: "\<forall>tier \<in> set (ec_Tiers chain). secs (et_WaitSec tier) \<le> D"
    and ticks: "spaced (a_NextEscAt a) D Es"
  shows "alert_log (a_ID a) (fold tick Es w) =
      alert_log (a_ID a) w @ take (length Es) (map (\<lambda>(i, k). (i + 1, k + 1)) (ladder 0 (ec_Tiers chain))) \<and>
    (length (ladder 0 (ec_Tiers chain)) \<le> length Es \<longrightarrow>
      (\<exists>a'. GetAlert t (a_ID a) (fold tick Es w) = Some a' \<and> a_State a' = AlertStateExhausted))"
proof -
  have "on_course t chain (a_NextEscAt a) a w" using row chain by (simp add: on_course_def)
  moreover have r: "rest chain a = map (\<lambda>(i, k). (i + 1, k + 1)) (ladder 0 (ec_Tiers chain))"
    using row(3,4) course_start [of "ec_Tiers chain" 0] by (simp add: rest_def)
  ultimately obtain n' a' where a': "on_course t chain n' a' (fold tick Es w)" "a_ID a' = a_ID a" "rest chain a' = drop (length Es) (rest chain a)"
      "alert_log (a_ID a) (fold tick Es w) = alert_log (a_ID a) w @ take (length Es) (rest chain a)"
    using ticks_course [OF _ ticks few waits] by blast
  have "\<not> alert_open a'" if "rest chain a' = []"
    using that a'(1) course_step [of "a_CurrentTier a'" "ec_Tiers chain" "nat (a_Retries a')"] by (auto simp: on_course_def rest_def)
  moreover have "GetAlert t (a_ID a) (fold tick Es w) = Some a'"
    using the_row_Get [of t a' "fold tick Es w"] a'(1,2) by (simp add: on_course_def)
  ultimately show ?thesis using a' r by (auto simp: on_course_def)
qed


definition demo_alert :: Alert where
  "demo_alert = \<lparr>a_ID = ''a1'', a_TenantID = ''t'', a_ChainID = ''c'', a_DeviceIMEI = [], a_Type = ''sos'', a_Detail = [],
     a_State = AlertStateTriggered, a_CurrentTier = 0, a_Retries = 0, a_AckedBy = [], a_AckedAt = 0, a_NextEscAt = 0,
     a_CreatedAt = 0, a_UpdatedAt = 0\<rparr>"

definition demo_chain :: EscalationChain where
  "demo_chain = \<lparr>ec_ID = ''c'', ec_Name = [],
     ec_Tiers = [\<lparr>et_Name = ''duty'', et_Targets = [''x''], et_WaitSec = 60, et_MaxRetries = 2\<rparr>,
                 \<lparr>et_Name = ''all'', et_Targets = [''y''], et_WaitSec = 30, et_MaxRetries = 0\<rparr>],
     ec_CreatedAt = 0, ec_UpdatedAt = 0\<rparr>"

definition demo_world :: world where
  "demo_world = empty_world\<lparr>wd_alerts := [demo_alert], wd_chains := [(''t'', demo_chain)]\<rparr>"

definition demo_ticks :: "env list" where
  "demo_ticks = map (\<lambda>s. \<lparr>ev_now = s * 1000000000, ev_chain = (\<lambda>_. []), ev_done = False, ev_fault = Works\<rparr>) [5, 70, 140]"

theorem escalation_climbs_witness:
  "alert_log ''a1'' (fold tick demo_ticks demo_world) = [(1, 1), (1, 2), (2, 1)] \<and>
   (\<exists>a'. GetAlert ''t'' ''a1'' (fold tick demo_ticks demo_world) = Some a' \<and> a_State a' = AlertStateExhausted)"
proof -
  have "length (ladder 0 (ec_Tiers demo_chain)) \<le> length demo_ticks"
    "map (\<lambda>(i, k). (i + 1, k + 1)) (ladder 0 (ec_Tiers demo_chain)) = [(1, 1), (1, 2), (2, 1)]"
    by (simp_all add: demo_chain_def demo_ticks_def numeral_2_eq_2 upt_rec)
  moreover have "secs 60 = 60000000000" "secs 30 = 30000000000" by (simp_all add: secs_def)
  ultimately show ?thesis
    using escalation_climbs [of "''t''" demo_alert demo_world demo_chain "60 * 1000000000" demo_ticks]
    by (simp add: demo_alert_def demo_world_def demo_chain_def demo_ticks_def the_row_def alert_open_def col_time_def
        GetEscalationChain_def empty_world_def alert_log_def)
qed

section \<open>Two ways off the course\<close>

text \<open>A failed read of the chain, even a transient one, closes the alert: the engine does not
  tell it from a chain that is gone.\<close>

lemma chain_read_failure_exhausts:
  assumes "the_row t a w" "alert_open a" "ev_fault E = Works"
  shows "\<exists>k. processAlert a n = Call (CGetEscalationChain t (a_ChainID a)) k \<and>
    (let w' = snd (run_prog (exec E) (k (RErr True)) w)
     in wd_notified w' = wd_notified w \<and> (\<exists>a'. GetAlert t (a_ID a) w' = Some a' \<and> a_State a' = AlertStateExhausted))"
proof -
  let ?x = "a\<lparr>a_State := AlertStateExhausted, a_UpdatedAt := n\<rparr>"
  have t: "a_TenantID a = t" "col_time (a_NextEscAt a) = a_NextEscAt a" using assms(1) by (simp_all add: the_row_def)
  note adv = Advance_row [OF assms(1) _ t(2) assms(2), of ?x, simplified]
  have "GetAlert t (a_ID a) (snd (AdvanceAlert t ?x (a_NextEscAt a) w)) = Some (write_alert ?x a)"
    using the_row_Get [OF adv(2)] by simp
  then show ?thesis using adv(4)
    by (simp add: processAlert_def get_chain_def exhaust_def run_calls [OF assms(3)] t(1))
qed

text \<open>An alert is not read while a hundred younger ones are active, of whatever tenant.\<close>

lemma sorted_take_old:
  fixes f :: "'a \<Rightarrow> 'k::linorder"
  assumes "sorted_wrt (\<lambda>x y. f y \<le> f x) xs" "m \<le> length (filter (\<lambda>y. f x < f y) xs)"
  shows "x \<notin> set (take m xs)"
proof
  assume "x \<in> set (take m xs)"
  then obtain i where i: "i < m" "i < length xs" "xs ! i = x" by (auto simp: in_set_conv_nth)
  have "f y \<le> f x" if y: "y \<in> set (drop i xs)" for y
  proof -
    obtain j where "j < length (drop i xs)" "y = drop i xs ! j" using y by (metis in_set_conv_nth)
    then have "i + j < length xs" "y = xs ! (i + j)" by simp_all
    then show ?thesis using assms(1) i(2,3) sorted_wrt_nth_less [OF assms(1), of i "i + j"] by (cases "j = 0") simp_all
  qed
  then have "filter (\<lambda>y. f x < f y) (drop i xs) = []" by (auto simp: filter_empty_conv not_less)
  then have "filter (\<lambda>y. f x < f y) xs = filter (\<lambda>y. f x < f y) (take i xs)"
    by (metis append_Nil2 append_take_drop_id filter_append)
  then have "length (filter (\<lambda>y. f x < f y) xs) \<le> i" by (metis length_filter_le le_trans length_take min.cobounded2)
  then show False using assms(2) i(1) by simp
qed

lemma young_alerts_starve_old:
  assumes "100 \<le> length (filter (\<lambda>b. alert_open b \<and> a_CreatedAt a < a_CreatedAt b) (wd_alerts w))"
  shows "a \<notin> set (ListAlerts [] True 100 w)"
proof -
  let ?xs = "rev (sort_key a_CreatedAt (rev (filter alert_open (wd_alerts w))))"
  have "sorted_wrt (\<lambda>x y. a_CreatedAt y \<le> a_CreatedAt x) ?xs"
    by (simp add: sorted_wrt_rev) (metis sorted_map sorted_sort_key)
  moreover have "length (filter P ?xs) = length (filter P (filter alert_open (wd_alerts w)))" for P
    by (metis mset_filter mset_rev mset_sort size_mset)
  ultimately have "a \<notin> set (take 100 ?xs)"
    using assms by (intro sorted_take_old [where f = a_CreatedAt]) (simp_all add: conj_commute)
  then show ?thesis by (simp add: ListAlerts_def of_tenant_def)
qed

end
