(* ===== verification/SosSafety.thy ===== *)
theory SosSafety
  imports SosRuns Ladder
begin

text \<open>
  What the programs of \<open>Escalation\<close> and \<open>SosRuns\<close> guarantee when any number of them run at a
  time and calls fail. The contract: an invariant of the store (\<open>good\<close>), what one call may do
  to it (\<open>may\<close>), and which calls are allowed when (\<open>legal\<close>); each program makes only legal calls.
\<close>

section \<open>The contract\<close>

definition env_ok :: "(string \<Rightarrow> string set) \<Rightarrow> env \<Rightarrow> bool" where
  "env_ok C E \<longleftrightarrow> (\<forall>t. ev_chain E t \<in> C t)"

definition has_alert :: "string \<Rightarrow> world \<Rightarrow> bool" where
  "has_alert i w \<longleftrightarrow> (\<exists>a \<in> set (wd_alerts w). a_ID a = i)"

definition closed_alert :: "string \<Rightarrow> world \<Rightarrow> bool" where
  "closed_alert i w \<longleftrightarrow> (\<exists>a \<in> set (wd_alerts w). a_ID a = i \<and> \<not> alert_open a)"

text \<open>The alert work of a run in the given state is done.\<close>

definition synced :: "sos_cfg \<Rightarrow> (string \<Rightarrow> string set) \<Rightarrow> SOSRun \<Rightarrow> world \<Rightarrow> bool" where
  "synced G C r w \<longleftrightarrow> (let i = AlertID (sc_sha256 G) (run_key r)
     in (sr_State r = SOSRunCancelled \<longrightarrow> closed_alert i w) \<and>
        (sr_State r = SOSRunActive \<and> [] \<notin> C (sr_TenantID r) \<longrightarrow> has_alert i w))"

text \<open>How a row of a run may change.\<close>

definition run_may :: "SOSRun \<Rightarrow> SOSRun \<Rightarrow> bool" where
  "run_may r r' \<longleftrightarrow> run_key r' = run_key r \<and> sr_BridgeID r' = sr_BridgeID r \<and> sr_Rev r \<le> sr_Rev r' \<and>
     (sr_Rev r' = sr_Rev r \<longrightarrow> sr_State r' = sr_State r) \<and> (sr_State r = SOSRunCancelled \<longrightarrow> sr_State r' = SOSRunCancelled)"

definition snap :: "SOSRun \<Rightarrow> world \<Rightarrow> bool" where
  "snap r w \<longleftrightarrow> (\<exists>r' \<in> set (wd_runs w). run_may r r')"

definition alert_may :: "Alert \<Rightarrow> Alert \<Rightarrow> bool" where
  "alert_may a a' \<longleftrightarrow> a_ID a' = a_ID a \<and> a_TenantID a' = a_TenantID a \<and> (\<not> alert_open a \<longrightarrow> \<not> alert_open a')"

definition seen_alert :: "Alert \<Rightarrow> world \<Rightarrow> bool" where
  "seen_alert a w \<longleftrightarrow> (\<exists>a' \<in> set (wd_alerts w). alert_may a a')"

definition may :: "world \<Rightarrow> world \<Rightarrow> bool" where
  "may w w' \<longleftrightarrow> (\<forall>a \<in> set (wd_alerts w). seen_alert a w') \<and> (\<forall>r \<in> set (wd_runs w). snap r w') \<and>
     set (wd_published w) \<subseteq> set (wd_published w')"

definition acked :: "string \<Rightarrow> SosAck \<Rightarrow> world \<Rightarrow> bool" where
  "acked topic k w \<longleftrightarrow> (\<exists>r \<in> set (wd_runs w). topic = TopicSOSAckFor (sr_TenantID r) (sr_BridgeID r) \<and> sk_SOSID k = sr_SOSID r \<and>
     sk_Rev k \<le> sr_Rev r \<and> (sk_Rev k = sr_Rev r \<longrightarrow> sk_State k = sr_State r) \<and>
     (sk_State k = SOSRunCancelled \<longrightarrow> sr_State r = SOSRunCancelled))"

definition notified_of :: "string \<Rightarrow> world \<Rightarrow> (string \<times> string list \<times> AlertData) list" where
  "notified_of i w = filter (\<lambda>(t, ts, ad). ad_AlertID ad = i) (wd_notified w)"

text \<open>A frozen alert is closed and its notifications stay what they are.\<close>

type_synonym frozen = "(string \<times> (string \<times> string list \<times> AlertData) list) option"

definition good :: "sos_cfg \<Rightarrow> run_key set \<Rightarrow> (string \<Rightarrow> string set) \<Rightarrow> frozen \<Rightarrow> world \<Rightarrow> bool" where
  "good G K C F w \<longleftrightarrow>
     distinct (map a_ID (wd_alerts w)) \<and> distinct (map run_key (wd_runs w)) \<and>
     (\<forall>r \<in> set (wd_runs w). run_key r \<in> K \<and> (sr_State r = SOSRunActive \<or> sr_State r = SOSRunCancelled)) \<and>
     (\<forall>a \<in> set (wd_alerts w). \<forall>k \<in> K. a_ID a = AlertID (sc_sha256 G) k \<longrightarrow> a_TenantID a = fst k) \<and>
     (\<forall>r \<in> set (wd_runs w). \<not> sr_AlertPending r \<longrightarrow> synced G C r w) \<and>
     (\<forall>topic k. (topic, PSosAck k) \<in> set (wd_published w) \<longrightarrow> acked topic k w) \<and>
     (\<forall>i N. F = Some (i, N) \<longrightarrow> closed_alert i w \<and> notified_of i w = N)"

definition legal :: "sos_cfg \<Rightarrow> run_key set \<Rightarrow> (string \<Rightarrow> string set) \<Rightarrow> frozen \<Rightarrow> call \<Rightarrow> world \<Rightarrow> bool" where
  "legal G K C F c w =
     (case c of
        CCreateAlert t a \<Rightarrow> (\<forall>k \<in> K. a_ID a = AlertID (sc_sha256 G) k \<longrightarrow> t = fst k)
      | CUpdateAlert t a \<Rightarrow> \<not> alert_open a
      | CPublish topic p \<Rightarrow> (\<forall>k. p = PSosAck k \<longrightarrow> acked topic k w)
      | CNotify t ts ad \<Rightarrow> (\<forall>i N. F = Some (i, N) \<longrightarrow> ad_AlertID ad \<noteq> i)
      | CApplySOSRunEvent ev \<Rightarrow> event_key ev \<in> K
      | CClearSOSRunAlertPending k rv \<Rightarrow> (\<forall>r \<in> set (wd_runs w). run_key r = k \<and> sr_Rev r = rv \<longrightarrow> synced G C r w)
      | _ \<Rightarrow> True)"

section \<open>Stable facts\<close>

lemma run_may_refl [simp]: "run_may r r" by (simp add: run_may_def)

lemma run_may_trans: "run_may r r' \<Longrightarrow> run_may r' r'' \<Longrightarrow> run_may r r''"
  unfolding run_may_def by (metis order_antisym order_trans)

lemma alert_may_refl [simp]: "alert_may a a" by (simp add: alert_may_def)

lemma alert_may_trans: "alert_may a a' \<Longrightarrow> alert_may a' a'' \<Longrightarrow> alert_may a a''"
  unfolding alert_may_def by simp

lemma may_facts:
  assumes "may w w'"
  shows "seen_alert a w \<Longrightarrow> seen_alert a w'" "snap r w \<Longrightarrow> snap r w'" "has_alert i w \<Longrightarrow> has_alert i w'"
    "closed_alert i w \<Longrightarrow> closed_alert i w'" "synced G C r w \<Longrightarrow> synced G C r w'" "acked topic k w \<Longrightarrow> acked topic k w'"
proof -
  show "seen_alert a w \<Longrightarrow> seen_alert a w'" and "snap r w \<Longrightarrow> snap r w'"
    using assms alert_may_trans run_may_trans unfolding may_def seen_alert_def snap_def by blast+
  show h: "has_alert i w \<Longrightarrow> has_alert i w'" and c: "closed_alert i w \<Longrightarrow> closed_alert i w'" for i
    using assms unfolding may_def has_alert_def closed_alert_def seen_alert_def alert_may_def by metis+
  show "synced G C r w \<Longrightarrow> synced G C r w'" using h c by (auto simp: synced_def Let_def)
  show "acked topic k w \<Longrightarrow> acked topic k w'"
  proof -
    assume "acked topic k w"
    then obtain r where r: "r \<in> set (wd_runs w)" "topic = TopicSOSAckFor (sr_TenantID r) (sr_BridgeID r)" "sk_SOSID k = sr_SOSID r"
      "sk_Rev k \<le> sr_Rev r" "sk_Rev k = sr_Rev r \<longrightarrow> sk_State k = sr_State r" "sk_State k = SOSRunCancelled \<longrightarrow> sr_State r = SOSRunCancelled"
      unfolding acked_def by blast
    then obtain r' where r': "r' \<in> set (wd_runs w')" "run_may r r'" using assms unfolding may_def snap_def by blast
    then have "sr_TenantID r' = sr_TenantID r" "sr_SOSID r' = sr_SOSID r" by (auto simp: run_may_def run_key_def)
    then show "acked topic k w'" unfolding acked_def using r r' unfolding run_may_def
      by (intro bexI [of _ r']) auto
  qed
qed

lemma may_refl: "may w w"
  unfolding may_def seen_alert_def snap_def using alert_may_refl run_may_refl by blast

lemma may_trans: "may w1 w2 \<Longrightarrow> may w2 w3 \<Longrightarrow> may w1 w3"
  using may_facts(1,2) unfolding may_def by blast


section \<open>Legal calls keep the contract\<close>

lemma good_alerts:
  assumes "good G K C F w" "distinct (map a_ID as)" "\<forall>a \<in> set (wd_alerts w). \<exists>a' \<in> set as. alert_may a a'"
    and "\<forall>a \<in> set as. \<forall>k \<in> K. a_ID a = AlertID (sc_sha256 G) k \<longrightarrow> a_TenantID a = fst k"
  shows "good G K C F (w\<lparr>wd_alerts := as\<rparr>) \<and> may w (w\<lparr>wd_alerts := as\<rparr>)"
proof -
  let ?w = "w\<lparr>wd_alerts := as\<rparr>"
  have may: "may w ?w" using assms(3) run_may_refl unfolding may_def seen_alert_def snap_def by simp (blast intro: alert_may_refl run_may_refl)
  have "notified_of i ?w = notified_of i w" for i by (simp add: notified_of_def)
  then show ?thesis using assms(1,2,4) may_facts(4,5,6) [OF may] may unfolding good_def by auto
qed

lemma good_alerts_map:
  assumes good: "good G K C F w" and f: "\<And>a. a \<in> set (wd_alerts w) \<Longrightarrow> alert_may a (f a)"
  shows "good G K C F (w\<lparr>wd_alerts := map f (wd_alerts w)\<rparr>) \<and> may w (w\<lparr>wd_alerts := map f (wd_alerts w)\<rparr>)"
proof (rule good_alerts [OF good])
  have ids: "map a_ID (map f (wd_alerts w)) = map a_ID (wd_alerts w)" using f by (auto simp: alert_may_def)
  show "distinct (map a_ID (map f (wd_alerts w)))" unfolding ids using good by (simp add: good_def)
  show "\<forall>a \<in> set (wd_alerts w). \<exists>a' \<in> set (map f (wd_alerts w)). alert_may a a'" using f by auto
  show "\<forall>a \<in> set (map f (wd_alerts w)). \<forall>k \<in> K. a_ID a = AlertID (sc_sha256 G) k \<longrightarrow> a_TenantID a = fst k"
    using f good unfolding good_def alert_may_def by auto
qed

lemma good_runs:
  assumes good: "good G K C F w" and keys: "distinct (map run_key rs)" and may: "\<forall>r \<in> set (wd_runs w). \<exists>r' \<in> set rs. run_may r r'"
    and rows: "\<forall>r \<in> set rs. run_key r \<in> K \<and> (sr_State r = SOSRunActive \<or> sr_State r = SOSRunCancelled) \<and> (\<not> sr_AlertPending r \<longrightarrow> synced G C r w)"
  shows "good G K C F (w\<lparr>wd_runs := rs\<rparr>) \<and> may w (w\<lparr>wd_runs := rs\<rparr>)"
proof -
  let ?w = "w\<lparr>wd_runs := rs\<rparr>"
  have may': "may w ?w" using may alert_may_refl unfolding may_def seen_alert_def snap_def by simp (blast intro: alert_may_refl run_may_refl)
  have "notified_of i ?w = notified_of i w" "closed_alert i ?w = closed_alert i w" "synced G C r ?w = synced G C r w" for i r
    by (simp_all add: notified_of_def closed_alert_def synced_def has_alert_def)
  then show ?thesis using good keys rows may_facts(6) [OF may'] may' unfolding good_def by auto
qed

lemma good_runs_map:
  assumes good: "good G K C F w"
    and f: "\<And>r. r \<in> set (wd_runs w) \<Longrightarrow> run_may r (f r) \<and> (sr_State (f r) = SOSRunActive \<or> sr_State (f r) = SOSRunCancelled) \<and>
      (\<not> sr_AlertPending (f r) \<longrightarrow> synced G C (f r) w)"
  shows "good G K C F (w\<lparr>wd_runs := map f (wd_runs w)\<rparr>) \<and> may w (w\<lparr>wd_runs := map f (wd_runs w)\<rparr>)"
proof (rule good_runs [OF good])
  have keys: "map run_key (map f (wd_runs w)) = map run_key (wd_runs w)" using f by (auto simp: run_may_def)
  show "distinct (map run_key (map f (wd_runs w)))" unfolding keys using good by (simp add: good_def)
  show "\<forall>r \<in> set (wd_runs w). \<exists>r' \<in> set (map f (wd_runs w)). run_may r r'" using f by auto
  show "\<forall>r \<in> set (map f (wd_runs w)). run_key r \<in> K \<and> (sr_State r = SOSRunActive \<or> sr_State r = SOSRunCancelled) \<and>
      (\<not> sr_AlertPending r \<longrightarrow> synced G C r w)"
    using f good unfolding good_def run_may_def by auto
qed

text \<open>Changes outside the two tables.\<close>

lemma good_rest:
  assumes good: "good G K C F w" and same: "wd_alerts w' = wd_alerts w" "wd_runs w' = wd_runs w"
    and pub: "set (wd_published w) \<subseteq> set (wd_published w')"
      "\<And>topic k. (topic, PSosAck k) \<in> set (wd_published w') \<Longrightarrow> (topic, PSosAck k) \<in> set (wd_published w) \<or> acked topic k w"
    and noted: "\<And>i N. F = Some (i, N) \<Longrightarrow> notified_of i w' = notified_of i w"
  shows "good G K C F w' \<and> may w w'"
proof -
  have may: "may w w'" using pub(1) same alert_may_refl run_may_refl unfolding may_def seen_alert_def snap_def by simp (blast intro: alert_may_refl run_may_refl)
  have "closed_alert i w' = closed_alert i w" "synced G C r w' = synced G C r w" "acked topic k w' = acked topic k w" for i r topic k
    using same by (simp_all add: closed_alert_def synced_def has_alert_def acked_def)
  then show ?thesis using good pub(2) noted may same unfolding good_def by simp blast
qed


lemma write_alert_may: "\<not> alert_open a \<or> alert_open row \<Longrightarrow> alert_may row (write_alert a row)"
  by (auto simp: alert_may_def write_alert_def alert_open_def)

lemma CreateAlert_good:
  assumes "good G K C F w" "\<forall>k \<in> K. a_ID a = AlertID (sc_sha256 G) k \<longrightarrow> t = fst k"
  shows "good G K C F (snd (CreateAlert t a w)) \<and> may w (snd (CreateAlert t a w))"
proof (cases "a_ID a \<in> a_ID ` set (wd_alerts w)")
  case False
  have "good G K C F (w\<lparr>wd_alerts := wd_alerts w @ [alert_row t a]\<rparr>) \<and> may w (w\<lparr>wd_alerts := wd_alerts w @ [alert_row t a]\<rparr>)"
  proof (rule good_alerts [OF assms(1)])
    show "distinct (map a_ID (wd_alerts w @ [alert_row t a]))" using assms(1) False by (auto simp: good_def alert_row_def)
    show "\<forall>b \<in> set (wd_alerts w). \<exists>b' \<in> set (wd_alerts w @ [alert_row t a]). alert_may b b'"
      by simp (blast intro: alert_may_refl)
    show "\<forall>b \<in> set (wd_alerts w @ [alert_row t a]). \<forall>k \<in> K. a_ID b = AlertID (sc_sha256 G) k \<longrightarrow> a_TenantID b = fst k"
      using assms by (auto simp: good_def alert_row_def)
  qed
  then show ?thesis using False by (simp add: CreateAlert_def)
qed (use assms may_refl in \<open>simp add: CreateAlert_def\<close>)

lemma ApplySOSEvent_may:
  "ApplySOSEvent r ev = (ended, r') \<Longrightarrow> run_may r r' \<and> sr_Rev r' = sr_Rev r + 1 \<and> (sr_State r' = sr_State r \<or> sr_AlertPending r') \<and>
    (sr_State r = SOSRunActive \<or> sr_State r = SOSRunCancelled \<longrightarrow> sr_State r' = SOSRunActive \<or> sr_State r' = SOSRunCancelled) \<and>
    (sr_AlertPending r \<longrightarrow> sr_AlertPending r')"
  by (auto simp: ApplySOSEvent_def Let_def run_may_def run_key_def split: if_splits)

lemma run_row_simps [simp]:
  "run_key (run_row r) = run_key r" "sr_Rev (run_row r) = sr_Rev r" "sr_State (run_row r) = sr_State r"
  "sr_BridgeID (run_row r) = sr_BridgeID r" "sr_AlertPending (run_row r) = sr_AlertPending r"
  "sr_TenantID (run_row r) = sr_TenantID r" "sr_SOSID (run_row r) = sr_SOSID r" "run_may r (run_row r)" "run_may (run_row r) r"
  by (simp_all add: run_row_def run_key_def run_may_def)

lemma synced_cong: "run_key r = run_key r' \<Longrightarrow> sr_State r = sr_State r' \<Longrightarrow> synced G C r w = synced G C r' w"
  by (simp add: synced_def run_key_def)

lemma GetSOSRun_Some: "GetSOSRun k w = Some r \<Longrightarrow> r \<in> set (wd_runs w) \<and> run_key r = k"
  by (auto simp: GetSOSRun_def find_Some_iff)

lemma GetSOSRun_None: "GetSOSRun k w = None \<longleftrightarrow> k \<notin> run_key ` set (wd_runs w)"
  by (auto simp: GetSOSRun_def find_None_iff)

lemma good_key_unique:
  "good G K C F w \<Longrightarrow> r \<in> set (wd_runs w) \<Longrightarrow> r' \<in> set (wd_runs w) \<Longrightarrow> run_key r = run_key r' \<Longrightarrow> r = r'"
  unfolding good_def distinct_map inj_on_def by blast

text \<open>An event is applied to the row of its run, or makes that row.\<close>

lemma ApplySOSRunEvent_good:
  assumes good: "good G K C F w" and ev: "event_key ev \<in> K" and ap: "ApplySOSRunEvent t ev w = (applied, w')"
  shows "good G K C F w' \<and> may w w' \<and> snap (sa_Run applied) w' \<and> run_key (sa_Run applied) = event_key ev"
proof -
  define ev' where "ev' = (if se_At ev = zero_time then ev\<lparr>se_At := t\<rparr> else ev)"
  have key: "event_key ev' = event_key ev" by (simp add: ev'_def event_key_def)
  show ?thesis
  proof (cases "GetSOSRun (event_key ev) w")
    case None
    have n: "run_key (NewSOSRun ev') = event_key ev" "sr_AlertPending (NewSOSRun ev')"
      "sr_State (NewSOSRun ev') = SOSRunActive \<or> sr_State (NewSOSRun ev') = SOSRunCancelled"
      unfolding key [symmetric] by (auto simp: NewSOSRun_def Let_def run_key_def event_key_def)
    have w': "w' = w\<lparr>wd_runs := wd_runs w @ [run_row (NewSOSRun ev')]\<rparr>" "sa_Run applied = NewSOSRun ev'"
      using ap None unfolding ApplySOSRunEvent_def ev'_def [symmetric] Let_def key by auto
    have "good G K C F w' \<and> may w w'"
      unfolding w'(1)
    proof (rule good_runs [OF good])
      show "distinct (map run_key (wd_runs w @ [run_row (NewSOSRun ev')]))"
        using good None n(1) by (auto simp: good_def GetSOSRun_None)
      show "\<forall>r \<in> set (wd_runs w). \<exists>r' \<in> set (wd_runs w @ [run_row (NewSOSRun ev')]). run_may r r'"
        by simp (blast intro: run_may_refl)
      show "\<forall>r \<in> set (wd_runs w @ [run_row (NewSOSRun ev')]). run_key r \<in> K \<and> (sr_State r = SOSRunActive \<or> sr_State r = SOSRunCancelled) \<and>
          (\<not> sr_AlertPending r \<longrightarrow> synced G C r w)"
        using good n ev by (auto simp: good_def)
    qed
    moreover have "snap (NewSOSRun ev') w'" unfolding snap_def w'(1) by simp
    ultimately show ?thesis using n(1) w'(2) by simp
  next
    case (Some r)
    note r = GetSOSRun_Some [OF Some]
    obtain ended r' where a: "ApplySOSEvent r ev' = (ended, r')" by fastforce
    note m = ApplySOSEvent_may [OF a]
    have w': "w' = upd_run (event_key ev) (\<lambda>_. run_row r') w" "sa_Run applied = r'"
      using ap Some a unfolding ApplySOSRunEvent_def ev'_def [symmetric] Let_def key by auto
    have "good G K C F w' \<and> may w w'"
      unfolding w'(1) upd_run_def
    proof (rule good_runs_map [OF good])
      fix q assume q: "q \<in> set (wd_runs w)"
      show "run_may q (if run_key q = event_key ev then run_row r' else q) \<and>
          (sr_State (if run_key q = event_key ev then run_row r' else q) = SOSRunActive \<or>
           sr_State (if run_key q = event_key ev then run_row r' else q) = SOSRunCancelled) \<and>
          (\<not> sr_AlertPending (if run_key q = event_key ev then run_row r' else q) \<longrightarrow>
             synced G C (if run_key q = event_key ev then run_row r' else q) w)"
      proof (cases "run_key q = event_key ev")
        case True
        then have "q = r" using good_key_unique [OF good q] r by simp
        moreover have "synced G C (run_row r') w" if "\<not> sr_AlertPending r'"
          using that m r good synced_cong [of "run_row r'" r] unfolding good_def run_may_def by auto
        ultimately show ?thesis using True m r good run_may_trans [of r r' "run_row r'"] unfolding good_def by auto
      qed (use q good in \<open>auto simp: good_def\<close>)
    qed
    moreover have "run_key r' = event_key ev" using m r by (simp add: run_may_def)
    moreover have "snap r' w'"
      unfolding snap_def w'(1) upd_run_def using r by (auto intro!: bexI [of _ "run_row r'"])
    ultimately show ?thesis using w'(2) by simp
  qed
qed


lemma perform_good:
  assumes good: "good G K C F w" and legal: "legal G K C F c w"
  shows "good G K C F (snd (perform E c w)) \<and> may w (snd (perform E c w))"
proof (cases c)
  case (CCreateAlert t a)
  then show ?thesis using CreateAlert_good [OF good, of a t] legal
    by (cases "CreateAlert t a w") (auto simp: perform_def legal_def split: bool.splits)
next
  case (CUpdateAlert t a)
  then have "\<not> alert_open a" using legal by (simp add: legal_def)
  then show ?thesis using CUpdateAlert good_alerts_map [OF good] write_alert_may by (simp add: perform_def UpdateAlert_def)
next
  case (CAdvanceAlert t a x)
  then show ?thesis using good_alerts_map [OF good] write_alert_may by (simp add: perform_def AdvanceAlert_def Let_def)
next
  case (CNotify t ts ad)
  then have "notified_of i (snd (perform E c w)) = notified_of i w" if "F = Some (i, N)" for i N
    using legal that by (simp add: perform_def legal_def notified_of_def)
  then show ?thesis using CNotify by (intro good_rest [OF good]) (simp_all add: perform_def)
next
  case (CPublish topic p)
  then show ?thesis using legal by (intro good_rest [OF good]) (auto simp: perform_def legal_def notified_of_def)
next
  case (CApplySOSRunEvent ev)
  then show ?thesis using ApplySOSRunEvent_good [OF good] legal
    by (cases "ApplySOSRunEvent (ev_now E) ev w") (auto simp: perform_def legal_def)
next
  case (CSetSOSRunAlert k i)
  have "good G K C F (upd_run k (\<lambda>r. r\<lparr>sr_AlertID := i, sr_UpdatedAt := col_time (ev_now E)\<rparr>) w) \<and>
      may w (upd_run k (\<lambda>r. r\<lparr>sr_AlertID := i, sr_UpdatedAt := col_time (ev_now E)\<rparr>) w)"
    unfolding upd_run_def
    by (rule good_runs_map [OF good]) (use good in \<open>auto simp: good_def run_may_def run_key_def synced_def\<close>)
  then show ?thesis using CSetSOSRunAlert by (simp add: perform_def SetSOSRunAlert_def split: bool.split)
next
  case (CClearSOSRunAlertPending k rv)
  let ?f = "\<lambda>r. if run_key r = k \<and> sr_Rev r = rv then r\<lparr>sr_AlertPending := False\<rparr> else r"
  have "good G K C F (w\<lparr>wd_runs := map ?f (wd_runs w)\<rparr>) \<and> may w (w\<lparr>wd_runs := map ?f (wd_runs w)\<rparr>)"
  proof (rule good_runs_map [OF good])
    fix r assume r: "r \<in> set (wd_runs w)"
    have eq: "synced G C (r\<lparr>sr_AlertPending := False\<rparr>) w = synced G C r w" by (rule synced_cong) (simp_all add: run_key_def)
    show "run_may r (?f r) \<and> (sr_State (?f r) = SOSRunActive \<or> sr_State (?f r) = SOSRunCancelled) \<and>
        (\<not> sr_AlertPending (?f r) \<longrightarrow> synced G C (?f r) w)"
      using r good legal CClearSOSRunAlertPending eq by (auto simp: good_def run_may_def run_key_def legal_def)
  qed
  then show ?thesis using CClearSOSRunAlertPending by (simp add: perform_def ClearSOSRunAlertPending_def)
qed (rule good_rest [OF good]; auto simp: perform_def notified_of_def CreateEscalationChain_def DeleteEscalationChain_def
      SaveNotificationPref_def DeleteNotificationPref_def ClaimOnce_def split: if_splits)+

lemma exec_good:
  assumes "good G K C F w" "legal G K C F c w" "exec E c w = (r, w')"
  shows "good G K C F w' \<and> may w w'"
  using perform_good [OF assms(1,2), of E] assms may_refl
  by (auto simp: exec_def split: if_splits fault.splits)

text \<open>A reply other than an error is the reply of the call.\<close>

lemma exec_reply: "exec E c w = (r, w') \<Longrightarrow> (\<And>b. r \<noteq> RErr b) \<Longrightarrow> perform E c w = (r, w')"
  by (auto simp: exec_def split: if_splits fault.splits)

section \<open>Rules for programs\<close>

abbreviation "keep G K C F \<equiv> keeps exec (env_ok C) (good G K C F) may"

lemmas keep_seq = keeps_seq [where exec = exec and may = may]

lemma keep_then:
  assumes "keep G K C F p Q w" "good G K C F w" "\<And>a w'. good G K C F w' \<Longrightarrow> Q a w' \<Longrightarrow> keep G K C F (f a) R w'"
  shows "keep G K C F (bind_prog p f) R w"
  by (rule keep_seq [OF assms(1,2), where S = "\<lambda>_. True"]) (use assms(3) in auto)

text \<open>A call whose reply is turned into a result: what the result tells is \<open>P\<close>.\<close>

lemma keep_call:
  assumes good: "good G K C F w" and legal: "legal G K C F c w"
    and P: "\<And>E r w'. env_ok C E \<Longrightarrow> exec E c w = (r, w') \<Longrightarrow> P (f r) w'"
    and stable: "\<And>x w1 w2. P x w1 \<Longrightarrow> may w1 w2 \<Longrightarrow> P x w2"
  shows "keep G K C F (Call c (\<lambda>r. Ret (f r))) P w"
proof (rule keeps_Call [where Q = "\<lambda>r. P (f r)"])
  fix E r w' assume "env_ok C E" "exec E c w = (r, w')"
  then show "good G K C F w' \<and> may w w' \<and> P (f r) w'" using exec_good [OF good legal] P by blast
next
  show "stable (good G K C F) may (P (f r))" for r
    unfolding stable_def using stable by blast
qed simp

text \<open>The calls of the programs, with what their results tell.\<close>

lemma keep_any:
  assumes "good G K C F w" "legal G K C F c w"
  shows "keep G K C F (Call c (\<lambda>r. Ret (f r))) (\<lambda>_ _. True) w"
  by (rule keep_call [OF assms]) auto

lemmas reads = read_clock_def get_chain_def get_pref_def list_alerts_def call_done_def call_bool_def

lemma keep_reads:
  assumes "good G K C F w"
  shows "keep G K C F read_clock (\<lambda>_ _. True) w" "keep G K C F (get_chain t i) (\<lambda>_ _. True) w"
    "keep G K C F (get_pref t i) (\<lambda>_ _. True) w" "keep G K C F (list_alerts t b n) (\<lambda>_ _. True) w"
  unfolding reads by (rule keep_any [OF assms]; simp add: legal_def)+

lemma keep_chainOf: "good G K C F w \<Longrightarrow> keep G K C F (chainOf t) (\<lambda>c _. c \<in> C t) w"
  unfolding chainOf_def by (rule keep_call) (auto simp: legal_def exec_def perform_def env_ok_def)

lemma keep_done:
  assumes "good G K C F w" "legal G K C F c w"
    and P: "\<And>E w'. perform E c w = (RDone, w') \<Longrightarrow> P w'" "\<And>w1 w2. P w1 \<Longrightarrow> may w1 w2 \<Longrightarrow> P w2"
  shows "keep G K C F (call_done c) (\<lambda>r w'. r = Done () \<longrightarrow> P w') w"
  unfolding call_done_def by (rule keep_call [OF assms(1,2)]) (use P in \<open>auto split: reply.splits dest: exec_reply\<close>)

lemma keep_bool:
  assumes "good G K C F w" "legal G K C F c w"
    and P: "\<And>E b w'. perform E c w = (RBool b, w') \<Longrightarrow> P b w'" "\<And>b w1 w2. P b w1 \<Longrightarrow> may w1 w2 \<Longrightarrow> P b w2"
  shows "keep G K C F (call_bool c) (\<lambda>r w'. \<forall>b. r = Done b \<longrightarrow> P b w') w"
  unfolding call_bool_def by (rule keep_call [OF assms(1,2)]) (use P in \<open>auto split: reply.splits dest: exec_reply\<close>)

lemma keep_get_alert:
  assumes "good G K C F w"
  shows "keep G K C F (get_alert t i) (\<lambda>r w'. \<forall>a. r = Done (Some a) \<longrightarrow> seen_alert a w' \<and> a_ID a = i \<and> of_tenant t a) w"
  unfolding get_alert_def
proof (rule keep_call [OF assms])
  fix E r w' assume ex: "exec E (CGetAlert t i) w = (r, w')"
  have "seen_alert a w' \<and> a_ID a = i \<and> of_tenant t a" if "r = RAlert (Some a)" for a
  proof -
    have "GetAlert t i w = Some a" "w' = w" using exec_reply [OF ex] that by (auto simp: perform_def)
    then show ?thesis unfolding GetAlert_def seen_alert_def find_Some_iff by (metis alert_may_refl nth_mem)
  qed
  then show "\<forall>a. (case r of RErr b \<Rightarrow> Err b | RAlert x \<Rightarrow> Done x | _ \<Rightarrow> Err False) = Done (Some a) \<longrightarrow> seen_alert a w' \<and> a_ID a = i \<and> of_tenant t a"
    by (auto split: reply.splits)
qed (use may_facts(1) in \<open>auto simp: legal_def\<close>)

lemma keep_get_run:
  assumes "good G K C F w"
  shows "keep G K C F (get_run k) (\<lambda>r w'. \<forall>x. r = Done (Some x) \<longrightarrow> snap x w' \<and> run_key x = k) w"
  unfolding get_run_def
proof (rule keep_call [OF assms])
  fix E r w' assume ex: "exec E (CGetSOSRun k) w = (r, w')"
  have "snap x w' \<and> run_key x = k" if "r = RRun (Some x)" for x
  proof -
    have "GetSOSRun k w = Some x" "w' = w" using exec_reply [OF ex] that by (auto simp: perform_def)
    then show ?thesis using GetSOSRun_Some run_may_refl unfolding snap_def by blast
  qed
  then show "\<forall>x. (case r of RErr b \<Rightarrow> Err b | RRun y \<Rightarrow> Done y | _ \<Rightarrow> Err False) = Done (Some x) \<longrightarrow> snap x w' \<and> run_key x = k"
    by (auto split: reply.splits)
qed (use may_facts(2) in \<open>auto simp: legal_def\<close>)

lemma keep_list_runs:
  assumes good: "good G K C F w" and c: "legal G K C F c w" "\<And>E. perform E c w = (RRuns rs, w)" and rs: "set rs \<subseteq> set (wd_runs w)"
  shows "keep G K C F (list_runs c) (\<lambda>r w'. \<forall>xs. r = Done xs \<longrightarrow> set xs \<subseteq> set rs \<and> (\<forall>x \<in> set xs. snap x w' \<and> run_key x \<in> K)) w"
  unfolding list_runs_def
proof (rule keep_call [OF good c(1)])
  fix E r w' assume ex: "exec E c w = (r, w')"
  have "set xs \<subseteq> set rs \<and> (\<forall>x \<in> set xs. snap x w' \<and> run_key x \<in> K)" if "r = RRuns xs" for xs
  proof -
    have "xs = rs" "w' = w" using exec_reply [OF ex] c(2) [of E] that by auto
    then show ?thesis using rs good run_may_refl unfolding snap_def good_def by blast
  qed
  then show "\<forall>xs. (case r of RErr b \<Rightarrow> Err b | RRuns y \<Rightarrow> Done y | _ \<Rightarrow> Err False) = Done xs \<longrightarrow>
      set xs \<subseteq> set rs \<and> (\<forall>x \<in> set xs. snap x w' \<and> run_key x \<in> K)"
    by (auto split: reply.splits)
qed (use may_facts(2) in blast)

lemma keep_apply_event:
  assumes good: "good G K C F w" and ev: "event_key ev \<in> K"
  shows "keep G K C F (apply_event ev) (\<lambda>r w'. \<forall>a. r = Done a \<longrightarrow> snap (sa_Run a) w' \<and> run_key (sa_Run a) = event_key ev) w"
  unfolding apply_event_def
proof (rule keep_call [OF good])
  fix E r w' assume ex: "exec E (CApplySOSRunEvent ev) w = (r, w')"
  have "snap (sa_Run a) w' \<and> run_key (sa_Run a) = event_key ev" if "r = RApplied a" for a
  proof -
    have "ApplySOSRunEvent (ev_now E) ev w = (a, w')" using exec_reply [OF ex] that by (auto simp: perform_def split: prod.splits)
    then show ?thesis using ApplySOSRunEvent_good [OF good ev] by blast
  qed
  then show "\<forall>a. (case r of RErr b \<Rightarrow> Err b | RApplied y \<Rightarrow> Done y | _ \<Rightarrow> Err False) = Done a \<longrightarrow>
      snap (sa_Run a) w' \<and> run_key (sa_Run a) = event_key ev"
    by (auto split: reply.splits)
qed (use may_facts(2) ev in \<open>auto simp: legal_def\<close>)

section \<open>The engine's programs\<close>

definition own_alert :: "sos_cfg \<Rightarrow> run_key set \<Rightarrow> string \<Rightarrow> string \<Rightarrow> bool" where
  "own_alert G K t i \<longleftrightarrow> (\<forall>k \<in> K. i = AlertID (sc_sha256 G) k \<longrightarrow> t = fst k)"

lemma own_alert_generated: "own_alert G K t (''alert-'' @ s)"
  by (auto simp: own_alert_def AlertID_def)

lemma CreateAlert_done: "perform E (CCreateAlert t a) w = (RDone, w') \<Longrightarrow> alert_row t a \<in> set (wd_alerts w')"
  by (auto simp: perform_def CreateAlert_def split: if_splits)

lemma alert_row_simps [simp]:
  "a_ID (alert_row t a) = a_ID a" "alert_open (alert_row t a) = alert_open a" "a_TenantID (alert_row t a) = t"
  by (simp_all add: alert_row_def alert_open_def)

lemma keep_create:
  assumes "good G K C F w" "own_alert G K t (a_ID a)"
  shows "keep G K C F (call_done (CCreateAlert t a)) (\<lambda>r w'. r = Done () \<longrightarrow> has_alert (a_ID a) w' \<and> (\<not> alert_open a \<longrightarrow> closed_alert (a_ID a) w')) w"
proof (rule keep_done [OF assms(1)])
  show "has_alert (a_ID a) w' \<and> (\<not> alert_open a \<longrightarrow> closed_alert (a_ID a) w')" if "perform E (CCreateAlert t a) w = (RDone, w')" for E w'
    using CreateAlert_done [OF that] unfolding has_alert_def closed_alert_def by (metis alert_row_simps(1,2))
qed (use assms(2) may_facts(3,4) in \<open>auto simp: legal_def own_alert_def\<close>)

lemma Trigger_keep:
  assumes good: "good G K C F w" and own: "a_ID a \<noteq> [] \<longrightarrow> own_alert G K t (a_ID a)"
  shows "keep G K C F (Trigger t a) (\<lambda>r w'. r = Done () \<and> a_ID a \<noteq> [] \<longrightarrow> has_alert (a_ID a) w') w"
proof -
  have new: "keep G K C F (bind_prog read_clock (\<lambda>now. call_done (CCreateAlert t (x\<lparr>a_State := AlertStateTriggered, a_CurrentTier := 0,
      a_Retries := 0, a_CreatedAt := now, a_UpdatedAt := now, a_NextEscAt := now\<rparr>))))
      (\<lambda>r w'. r = Done () \<longrightarrow> has_alert (a_ID x) w') w1" if "good G K C F w1" "own_alert G K t (a_ID x)" for x w1
    by (rule keep_seq [OF keep_reads(1) [OF that(1)] that(1), where S = "\<lambda>_. True"])
      (auto intro!: keeps_mono [OF keep_create] simp: that)
  show ?thesis
  proof (cases "a_ID a = []")
    case True
    have "keep G K C F (bind_prog read_clock (\<lambda>t'. bind_prog read_clock (\<lambda>now. call_done (CCreateAlert t
        ((a\<lparr>a_ID := ''alert-'' @ FormatInt t'\<rparr>)\<lparr>a_State := AlertStateTriggered, a_CurrentTier := 0,
      a_Retries := 0, a_CreatedAt := now, a_UpdatedAt := now, a_NextEscAt := now\<rparr>))))) (\<lambda>_ _. True) w"
      by (rule keep_seq [OF keep_reads(1) [OF good] good, where S = "\<lambda>_. True"])
        (auto intro!: keeps_mono [OF new] simp: own_alert_generated [simplified])
    then show ?thesis using True by (simp add: Trigger_def read_clock_def)
  next
    case False
    then show ?thesis using new [OF good, of a] own by (auto simp: Trigger_def elim: keeps_mono)
  qed
qed


fun is_done :: "'a outcome \<Rightarrow> bool" where
  "is_done (Done a) = True"
| "is_done (Err b) = False"

lemma keep_cases:
  "(\<And>a. r = Done a \<Longrightarrow> keep G K C F (f a) R w) \<Longrightarrow> (\<And>b. r = Err b \<Longrightarrow> keep G K C F (g b) R w) \<Longrightarrow>
    keep G K C F (case r of Done a \<Rightarrow> f a | Err b \<Rightarrow> g b) R w"
  "(x = None \<Longrightarrow> keep G K C F p R w) \<Longrightarrow> (\<And>y. x = Some y \<Longrightarrow> keep G K C F (q y) R w) \<Longrightarrow>
    keep G K C F (case x of None \<Rightarrow> p | Some y \<Rightarrow> q y) R w"
  by (cases r; simp) (cases x; simp)

lemma TriggerOnce_keep:
  assumes good: "good G K C F w" and own: "own_alert G K t (a_ID a)"
  shows "keep G K C F (TriggerOnce t a) (\<lambda>r w'. is_done r \<longrightarrow> has_alert (a_ID a) w') w"
proof (cases "a_ID a = []")
  case False
  have seen: "seen_alert x w' \<Longrightarrow> a_ID x = a_ID a \<Longrightarrow> has_alert (a_ID a) w'" for x w'
    unfolding seen_alert_def has_alert_def alert_may_def by auto
  have again: "keep G K C F (bind_prog (get_alert t (a_ID a)) (\<lambda>r. case r of Done (Some _) \<Rightarrow> Ret (Done False) | _ \<Rightarrow> Ret (Err b)))
      (\<lambda>r w'. is_done r \<longrightarrow> has_alert (a_ID a) w') w1" if "good G K C F w1" for w1 b
    by (rule keep_then [OF keep_get_alert [OF that] that], intro keep_cases) (auto intro: seen)
  have rest: "keep G K C F (bind_prog (Trigger t a) (\<lambda>t'. case t' of Done _ \<Rightarrow> Ret (Done True)
        | Err b \<Rightarrow> bind_prog (get_alert t (a_ID a)) (\<lambda>r. case r of Done (Some _) \<Rightarrow> Ret (Done False) | _ \<Rightarrow> Ret (Err b))))
      (\<lambda>r w'. is_done r \<longrightarrow> has_alert (a_ID a) w') w1" if "good G K C F w1" for w1
    by (rule keep_then [OF Trigger_keep [OF that impI [OF own]] that], intro keep_cases) (auto simp: False intro: again)
  show ?thesis
    unfolding TriggerOnce_def if_not_P [OF False]
    by (rule keep_then [OF keep_get_alert [OF good] good], intro keep_cases) (auto intro: rest seen)
qed (simp add: TriggerOnce_def)

lemma closed_states [simp]:
  "\<not> alert_open (a\<lparr>a_State := AlertStateCancelled\<rparr>)" "\<not> alert_open (a\<lparr>a_State := AlertStateAcknowledged\<rparr>)"
  "\<not> alert_open (a\<lparr>a_State := AlertStateExhausted\<rparr>)"
  by (simp_all add: alert_open_def alert_states)

lemma alert_open_state: "alert_open a \<longleftrightarrow> a_State a = ''triggered'' \<or> a_State a = ''escalating''"
  by (simp add: alert_open_def alert_states)

lemma cancelAlert_keep:
  assumes good: "good G K C F w" and a: "seen_alert a w" "of_tenant t a"
  shows "keep G K C F (cancelAlert t a by') (\<lambda>r w'. is_done r \<longrightarrow> closed_alert (a_ID a) w') w"
proof (cases "a_State a = AlertStateCancelled")
  case True
  then have "closed_alert (a_ID a) w" using a(1)
    by (auto simp: seen_alert_def closed_alert_def alert_may_def alert_open_def alert_states)
  then show ?thesis using True by (simp add: cancelAlert_def)
next
  case False
  have upd: "keep G K C F (call_done (CUpdateAlert t x)) (\<lambda>r w'. r = Done () \<longrightarrow> closed_alert (a_ID a) w') w1"
    if g: "good G K C F w1" and sa: "seen_alert a w1" and x: "a_ID x = a_ID a" "\<not> alert_open x" for x w1
  proof (rule keep_done [OF g])
    obtain row where row: "row \<in> set (wd_alerts w1)" "a_ID row = a_ID a" "a_TenantID row = a_TenantID a"
      using sa unfolding seen_alert_def alert_may_def by blast
    then have "a_ID row = a_ID x \<and> of_tenant t row" using a(2) x(1) by (simp add: of_tenant_def)
    then have "write_alert x row \<in> set (wd_alerts (UpdateAlert t x w1))" using row(1) by (force simp: UpdateAlert_def)
    then show "closed_alert (a_ID a) w'" if p: "perform E (CUpdateAlert t x) w1 = (RDone, w')" for E w'
      using p x(2) row(2) unfolding closed_alert_def
      by (auto simp: perform_def write_alert_def alert_open_def intro!: bexI [of _ "write_alert x row"])
  qed (use x may_facts(4) in \<open>auto simp: legal_def\<close>)
  show ?thesis
    unfolding cancelAlert_def if_not_P [OF False]
  proof (rule keep_seq [OF keep_reads(1) [OF good] good, where S = "seen_alert a"])
    fix now w1 assume 1: "good G K C F w1" "seen_alert a w1"
    show "keep G K C F (bind_prog (call_done (CUpdateAlert t (a\<lparr>a_State := AlertStateCancelled, a_AckedBy := by', a_AckedAt := now, a_UpdatedAt := now\<rparr>)))
        (\<lambda>r. case r of Done _ \<Rightarrow> Ret (Done True) | Err b \<Rightarrow> Ret (Err b))) (\<lambda>r w'. is_done r \<longrightarrow> closed_alert (a_ID a) w') w1"
      by (rule keep_then [OF upd [OF 1 _ _] 1(1)]; (intro keep_cases)?; simp add: alert_open_state alert_states)
  qed (use a may_facts(1) in blast)+
qed

lemma close_rounds_keep:
  assumes "good G K C F w" and own: "own_alert G K t (a_ID a)"
  shows "keep G K C F (close_rounds n t a by') (\<lambda>r w'. is_done r \<longrightarrow> closed_alert (a_ID a) w') w"
  using assms(1)
proof (induction n arbitrary: w)
  case (Suc n)
  let ?R = "\<lambda>r w'. is_done r \<longrightarrow> closed_alert (a_ID a) w'"
  let ?tomb = "\<lambda>now. a\<lparr>a_State := AlertStateCancelled, a_Detail := a_Detail a @ ClosedBeforeRaised, a_CurrentTier := 0, a_Retries := 0,
      a_AckedBy := by', a_AckedAt := now, a_CreatedAt := now, a_UpdatedAt := now, a_NextEscAt := now\<rparr>"
  have create: "keep G K C F (call_done (CCreateAlert t (?tomb now))) (\<lambda>r w'. r = Done () \<longrightarrow> closed_alert (a_ID a) w') w1"
    if "good G K C F w1" for now w1
    by (rule keeps_mono [OF keep_create [OF that]]) (use own in \<open>auto simp: alert_open_state alert_states\<close>)
  have tomb: "keep G K C F (bind_prog read_clock (\<lambda>now. bind_prog (call_done (CCreateAlert t (?tomb now)))
      (\<lambda>r. case r of Done _ \<Rightarrow> Ret (Done True) | Err _ \<Rightarrow> close_rounds n t a by'))) ?R w1" if 1: "good G K C F w1" for w1
  proof (rule keep_then [OF keep_reads(1) [OF 1] 1])
    fix now w2 assume 2: "good G K C F w2"
    show "keep G K C F (bind_prog (call_done (CCreateAlert t (?tomb now)))
      (\<lambda>r. case r of Done _ \<Rightarrow> Ret (Done True) | Err _ \<Rightarrow> close_rounds n t a by')) ?R w2"
      by (rule keep_then [OF create [OF 2] 2], intro keep_cases) (auto intro: Suc.IH)
  qed
  have cancel: "keep G K C F (cancelAlert t x by') ?R w1" if "good G K C F w1" "seen_alert x w1" "a_ID x = a_ID a" "of_tenant t x" for x w1
    using cancelAlert_keep [OF that(1,2,4)] that(3) by simp
  show ?case
    unfolding close_rounds.simps
    by (rule keep_then [OF keep_get_alert [OF Suc.prems] Suc.prems], intro keep_cases) (auto intro: tomb cancel)
qed simp

lemma Close_keep:
  assumes "good G K C F w" "own_alert G K t (a_ID a)"
  shows "keep G K C F (Close t a by') (\<lambda>r w'. is_done r \<longrightarrow> closed_alert (a_ID a) w') w"
  unfolding Close_def using close_rounds_keep [OF assms] by simp

lemma Acknowledge_keep:
  assumes "good G K C F w"
  shows "keep G K C F (Acknowledge t i by') (\<lambda>_ _. True) w"
proof -
  have upd: "keep G K C F (bind_prog read_clock (\<lambda>now. call_done (CUpdateAlert t (x\<lparr>a_State := AlertStateAcknowledged, a_AckedBy := by', a_AckedAt := now,
              a_UpdatedAt := now\<rparr>)))) (\<lambda>_ _. True) w1" if "good G K C F w1" for x w1
    by (rule keep_then [OF keep_reads(1) [OF that] that])
      (auto simp: call_done_def legal_def alert_open_state alert_states intro!: keep_any)
  show ?thesis
    unfolding Acknowledge_def
    by (rule keep_then [OF keep_get_alert [OF assms] assms], intro keep_cases) (auto intro: upd)
qed

lemma Cancel_keep:
  assumes "good G K C F w"
  shows "keep G K C F (Cancel t i by') (\<lambda>_ _. True) w"
  unfolding Cancel_def
  by (rule keep_then [OF keep_get_alert [OF assms] assms])
    (auto intro: keeps_mono [OF cancelAlert_keep] split: outcome.split option.split)


lemma each_keep:
  assumes "good G K C F w" "\<forall>x \<in> set xs. S x w" "\<And>x w1 w2. S x w1 \<Longrightarrow> may w1 w2 \<Longrightarrow> S x w2"
    and "\<And>x w. x \<in> set xs \<Longrightarrow> good G K C F w \<Longrightarrow> S x w \<Longrightarrow> keep G K C F (f x) (\<lambda>_ _. True) w"
  shows "keep G K C F (each f xs) (\<lambda>_ _. True) w"
  using assms(1,2,4)
proof (induction xs arbitrary: w)
  case (Cons x xs)
  have "keep G K C F (bind_prog (each f xs) (\<lambda>as. Ret (a # as))) (\<lambda>_ _. True) w1" if "good G K C F w1" "\<forall>x \<in> set xs. S x w1" for a w1
    by (rule keep_then [OF Cons.IH [OF that] that(1)]) (use Cons.prems(3) in auto)
  then show ?case
    unfolding each.simps
    by (intro keep_seq [OF Cons.prems(3) Cons.prems(1), where S = "\<lambda>w. \<forall>x \<in> set xs. S x w"])
      (use Cons.prems assms(3) in auto)
qed simp

text \<open>A step that won its lease works on an alert that is open, so not on a frozen one.\<close>

lemma Advance_open:
  assumes "good G K C F w" "perform E (CAdvanceAlert t x y) w = (RBool True, w')" "F = Some (i, N)"
  shows "a_ID x \<noteq> i"
proof
  assume "a_ID x = i"
  then obtain a where a: "a \<in> set (wd_alerts w)" "a_ID a = a_ID x" "\<not> alert_open a"
    using assms(1,3) unfolding good_def closed_alert_def by blast
  have "\<exists>row \<in> set (wd_alerts w). a_ID row = a_ID x \<and> alert_open row"
    using assms(2) by (auto simp: perform_def AdvanceAlert_def Let_def length_Suc_conv filter_eq_Cons_iff split: if_splits)
  then show False using a assms(1) unfolding good_def distinct_map inj_on_def by metis
qed

lemma keep_advance:
  assumes "good G K C F w"
  shows "keep G K C F (call_bool (CAdvanceAlert t x y)) (\<lambda>r _. r = Done True \<longrightarrow> (\<forall>i N. F = Some (i, N) \<longrightarrow> a_ID x \<noteq> i)) w"
  by (rule keeps_mono [OF keep_bool [OF assms, where P = "\<lambda>b _. b \<longrightarrow> (\<forall>i N. F = Some (i, N) \<longrightarrow> a_ID x \<noteq> i)"]])
    (auto simp: legal_def dest: Advance_open [OF assms])

lemma exhaust_keep:
  assumes "good G K C F w"
  shows "keep G K C F (exhaust x t) (\<lambda>_ _. True) w"
  unfolding exhaust_def by (rule keep_then [OF keep_advance [OF assms] assms]) simp

lemma step_targets_keep:
  assumes "good G K C F w"
  shows "keep G K C F (step_targets x tier) (\<lambda>_ _. True) w"
proof -
  have "keep G K C F (bind_prog (get_pref t d) (\<lambda>q. Ret (f q))) (\<lambda>_ _. True) w1" if "good G K C F w1" for t d w1 and f :: "_ \<Rightarrow> string list"
    by (rule keep_then [OF keep_reads(3) [OF that] that]) simp
  then have "keep G K C F (bind_prog (get_pref t d) (\<lambda>p. bind_prog (get_pref t d') (\<lambda>q. Ret (f p q)))) (\<lambda>_ _. True) w" for t d d' and f :: "_ \<Rightarrow> _ \<Rightarrow> string list"
    by (intro keep_then [OF keep_reads(3) [OF assms] assms])
  then show ?thesis unfolding step_targets_def by simp
qed

lemma processAlert_keep:
  assumes good: "good G K C F w"
  shows "keep G K C F (processAlert x t) (\<lambda>_ _. True) w"
proof -
  have fin: "keep G K C F (bind_prog (call_bool (CAdvanceAlert t' y z)) (\<lambda>_. Ret ())) (\<lambda>_ _. True) w1" if "good G K C F w1" for t' y z w1
    by (rule keep_then [OF keep_advance [OF that] that]) simp
  have notify: "keep G K C F (bind_prog (call_done (CNotify t' ts ad)) (\<lambda>_. bind_prog (call_bool (CAdvanceAlert t' y z)) (\<lambda>_. Ret ()))) (\<lambda>_ _. True) w1"
    if 1: "good G K C F w1" "\<forall>i N. F = Some (i, N) \<longrightarrow> ad_AlertID ad \<noteq> i" for t' ts ad y z w1
    by (rule keep_then [OF keep_done [OF 1(1), where P = "\<lambda>_. True"] 1(1)]) (use 1 fin in \<open>auto simp: legal_def\<close>)
  have step: "keep G K C F (bind_prog (step_targets y tier) (\<lambda>targets. bind_prog (call_done (CNotify t' targets ad)) (\<lambda>_.
      bind_prog (call_bool (CAdvanceAlert t' y' z)) (\<lambda>_. Ret ())))) (\<lambda>_ _. True) w1"
    if 1: "good G K C F w1" "\<forall>i N. F = Some (i, N) \<longrightarrow> ad_AlertID ad \<noteq> i" for y tier t' ad y' z w1
    by (rule keep_then [OF step_targets_keep [OF 1(1)] 1(1)]) (use notify 1 in blast)
  have lease: "keep G K C F (bind_prog (call_bool (CAdvanceAlert t' y z)) (\<lambda>won. case won of Done True \<Rightarrow> p | _ \<Rightarrow> Ret ())) (\<lambda>_ _. True) w1"
    if 1: "good G K C F w1" and p: "\<And>w2. good G K C F w2 \<Longrightarrow> \<forall>i N. F = Some (i, N) \<longrightarrow> a_ID y \<noteq> i \<Longrightarrow> keep G K C F p (\<lambda>_ _. True) w2"
    for t' y z p w1
    by (rule keep_then [OF keep_advance [OF 1] 1]) (use p in \<open>auto split: outcome.split bool.split\<close>)
  show ?thesis
    unfolding processAlert_def
    by (rule keep_then [OF keep_reads(2) [OF good] good])
      (auto intro!: exhaust_keep lease step simp: Let_def alert_data_def split: outcome.split option.split)
qed

lemma processAlerts_keep:
  assumes good: "good G K C F w"
  shows "keep G K C F processAlerts (\<lambda>_ _. True) w"
proof -
  have loop: "keep G K C F (each (\<lambda>x. if now < a_NextEscAt x then Ret () else processAlert x now) xs) (\<lambda>_ _. True) w1"
    if "good G K C F w1" for now xs w1
    by (rule each_keep [OF that, where S = "\<lambda>_ _. True"]) (auto intro: processAlert_keep)
  have "keep G K C F (bind_prog read_clock (\<lambda>now. bind_prog (each (\<lambda>x. if now < a_NextEscAt x then Ret () else processAlert x now) xs)
      (\<lambda>_. Ret ()))) (\<lambda>_ _. True) w1" if 1: "good G K C F w1" for xs w1
    by (rule keep_then [OF keep_reads(1) [OF 1] 1]) (auto intro!: keep_then [OF loop])
  then show ?thesis
    unfolding processAlerts_def
    by (intro keep_then [OF keep_reads(4) [OF good] good]) (auto split: outcome.split)
qed


section \<open>The programs of the runs\<close>

lemma stable_has: "\<forall>w w'. has_alert i w \<longrightarrow> may w w' \<longrightarrow> has_alert i w'" using may_facts(3) by blast

lemma stable_snap: "\<forall>w w'. snap r w \<longrightarrow> may w w' \<longrightarrow> snap r w'" using may_facts(2) by blast

lemma keep_quiet:
  assumes "good G K C F w"
  shows "keep G K C F (call_done (CSetSOSRunAlert k i)) (\<lambda>_ _. True) w" "keep G K C F (call_done (CAuditLog t x y)) (\<lambda>_ _. True) w"
    "keep G K C F (call_bool CWait) (\<lambda>_ _. True) w"
  unfolding call_done_def call_bool_def by (rule keep_any [OF assms]; simp add: legal_def)+

text \<open>No two runs of different tenants share an alert id.\<close>

definition ids_ok :: "sos_cfg \<Rightarrow> run_key set \<Rightarrow> bool" where
  "ids_ok G K \<longleftrightarrow> (\<forall>k \<in> K. \<forall>k' \<in> K. AlertID (sc_sha256 G) k = AlertID (sc_sha256 G) k' \<longrightarrow> fst k = fst k')"

lemma alertFor_simps [simp]: "a_ID (alertFor G r c) = AlertID (sc_sha256 G) (run_key r)"
  by (simp add: alertFor_def)

lemma own_run: "ids_ok G K \<Longrightarrow> run_key r \<in> K \<Longrightarrow> own_alert G K (sr_TenantID r) (AlertID (sc_sha256 G) (run_key r))"
  unfolding ids_ok_def own_alert_def by (metis fst_conv run_key_def)

lemma closeAlert_keep:
  assumes good: "good G K C F w" and ids: "ids_ok G K" "run_key r \<in> K" "sc_engine G"
  shows "keep G K C F (closeAlert G r) (\<lambda>x w'. x = Done () \<longrightarrow> closed_alert (AlertID (sc_sha256 G) (run_key r)) w') w"
proof -
  have "keep G K C F (bind_prog (Close (sr_TenantID r) (alertFor G r chain) b) (\<lambda>x. case x of Done _ \<Rightarrow> Ret (Done ()) | Err b \<Rightarrow> Ret (Err b)))
      (\<lambda>x w'. x = Done () \<longrightarrow> closed_alert (AlertID (sc_sha256 G) (run_key r)) w') w1" if 1: "good G K C F w1" for chain b w1
    by (rule keep_then [OF Close_keep [OF 1] 1]) (use own_run [OF ids(1,2)] in \<open>auto split: outcome.split\<close>)
  then show ?thesis
    unfolding closeAlert_def using ids(3) by (auto simp: Let_def intro!: keep_then [OF keep_chainOf [OF good] good])
qed

lemma closed_has: "closed_alert i w \<Longrightarrow> has_alert i w"
  by (auto simp: closed_alert_def has_alert_def)

lemma raise_keep:
  assumes good: "good G K C F w" and ids: "ids_ok G K" "run_key r \<in> K" "sc_engine G"
  shows "keep G K C F (raise G r) (\<lambda>x w'. x = Done () \<longrightarrow> [] \<notin> C (sr_TenantID r) \<longrightarrow> has_alert (AlertID (sc_sha256 G) (run_key r)) w') w"
proof -
  let ?i = "AlertID (sc_sha256 G) (run_key r)"
  let ?R = "\<lambda>x w'. x = Done () \<longrightarrow> [] \<notin> C (sr_TenantID r) \<longrightarrow> has_alert ?i w'"
  have own: "own_alert G K (sr_TenantID r) (a_ID (alertFor G r chain))" for chain using own_run [OF ids(1,2)] by simp
  have close: "keep G K C F (closeAlert G x) ?R w1" if "good G K C F w1" "run_key x = run_key r" for x w1
    by (rule keeps_mono [OF closeAlert_keep [OF that(1) ids(1) _ ids(3)]]) (use that(2) ids(2) closed_has in auto)
  have reread: "keep G K C F (bind_prog (get_run (run_key r)) (\<lambda>x. case x of
        Done (Some now) \<Rightarrow> if sr_State now = SOSRunCancelled then closeAlert G now else Ret (Done ())
      | Done None \<Rightarrow> Ret (Err False) | Err b \<Rightarrow> Ret (Err b))) ?R w1" if 1: "good G K C F w1" "has_alert ?i w1" for w1
    by (rule keep_seq [where S = "has_alert ?i", OF keep_get_run [OF 1(1)] 1 stable_has], intro keep_cases)
      (auto intro: close)
  have set: "keep G K C F (bind_prog (call_done (CSetSOSRunAlert (run_key r) ?i)) (\<lambda>x. case x of Err b \<Rightarrow> Ret (Err b)
      | Done _ \<Rightarrow> bind_prog (get_run (run_key r)) (\<lambda>x. case x of
          Done (Some now) \<Rightarrow> if sr_State now = SOSRunCancelled then closeAlert G now else Ret (Done ())
        | Done None \<Rightarrow> Ret (Err False) | Err b \<Rightarrow> Ret (Err b)))) ?R w1" if 1: "good G K C F w1" "has_alert ?i w1" for w1
    by (rule keep_seq [where S = "has_alert ?i", OF keep_quiet(1) [OF 1(1)] 1 stable_has], intro keep_cases)
      (auto intro: reread)
  have once: "keep G K C F (bind_prog (TriggerOnce (sr_TenantID r) (alertFor G r chain)) (\<lambda>x. case x of Err b \<Rightarrow> Ret (Err b)
      | Done _ \<Rightarrow> bind_prog (call_done (CSetSOSRunAlert (run_key r) ?i)) (\<lambda>x. case x of Err b \<Rightarrow> Ret (Err b)
        | Done _ \<Rightarrow> bind_prog (get_run (run_key r)) (\<lambda>x. case x of
          Done (Some now) \<Rightarrow> if sr_State now = SOSRunCancelled then closeAlert G now else Ret (Done ())
          | Done None \<Rightarrow> Ret (Err False) | Err b \<Rightarrow> Ret (Err b))))) ?R w1" if 1: "good G K C F w1" for chain w1
    by (rule keep_then [OF TriggerOnce_keep [OF 1 own] 1], intro keep_cases) (auto intro: set)
  show ?thesis
    unfolding raise_def using ids(3)
    by (auto simp: Let_def intro!: keep_then [OF keep_chainOf [OF good] good] once)
qed

lemma syncAlert_keep:
  assumes "good G K C F w" "ids_ok G K" "run_key r \<in> K" "sc_engine G"
  shows "keep G K C F (syncAlert G r) (\<lambda>x w'. x = Done () \<longrightarrow> synced G C r w') w"
proof (cases "sr_State r = SOSRunCancelled")
  case True
  then show ?thesis unfolding syncAlert_def
    by (auto simp: synced_def sos_states elim!: keeps_mono intro!: keeps_mono [OF closeAlert_keep [OF assms]])
next
  case False
  then show ?thesis unfolding syncAlert_def
    by (auto simp: synced_def Let_def intro!: keeps_mono [OF raise_keep [OF assms]])
qed

lemma settle_keep:
  assumes good: "good G K C F w" and ids: "ids_ok G K" "run_key r \<in> K" "sc_engine G" and snap: "snap r w"
  shows "keep G K C F (settle G r) (\<lambda>_ _. True) w"
proof -
  have clear: "keep G K C F (call_bool (CClearSOSRunAlertPending (run_key r) (sr_Rev r))) (\<lambda>_ _. True) w1"
    if 1: "good G K C F w1" "snap r w1" "synced G C r w1" for w1
  proof -
    obtain r' where r': "r' \<in> set (wd_runs w1)" "run_may r r'" using 1(2) unfolding snap_def by blast
    have "synced G C q w1" if "q \<in> set (wd_runs w1)" "run_key q = run_key r" "sr_Rev q = sr_Rev r" for q
    proof -
      have "q = r'" by (rule good_key_unique [OF 1(1) that(1) r'(1)]) (use r'(2) that(2) in \<open>simp add: run_may_def\<close>)
      then show ?thesis using synced_cong [of q r] 1(3) r'(2) that by (simp add: run_may_def)
    qed
    then have "legal G K C F (CClearSOSRunAlertPending (run_key r) (sr_Rev r)) w1" by (simp add: legal_def)
    then show ?thesis unfolding call_bool_def by (rule keep_any [OF 1(1)])
  qed
  have "keep G K C F (bind_prog (call_bool (CClearSOSRunAlertPending (run_key r) (sr_Rev r))) (\<lambda>ok. Ret (ok = Done True))) (\<lambda>_ _. True) w1"
    if "good G K C F w1" "snap r w1" "synced G C r w1" for w1
    by (rule keep_then [OF clear [OF that] that(1)]) simp
  then show ?thesis
    unfolding settle_def
    by (intro keep_seq [where S = "snap r", OF syncAlert_keep [OF good ids] good snap stable_snap] keep_cases) auto
qed


lemma retry_keep:
  assumes "good G K C F w" and f: "\<And>w. good G K C F w \<Longrightarrow> keep G K C F f (\<lambda>r w'. \<forall>a. r = Done a \<longrightarrow> P a w') w"
  shows "keep G K C F (retry_from n f) (\<lambda>r w'. \<forall>a. r = Done a \<longrightarrow> P a w') w"
  using assms(1)
proof (induction n arbitrary: w)
  case (Suc n)
  have "keep G K C F (bind_prog (call_bool CWait) (\<lambda>d. if d = Done True then Ret (Err True) else retry_from n f))
      (\<lambda>r w'. \<forall>a. r = Done a \<longrightarrow> P a w') w1" if "good G K C F w1" for w1
    by (rule keep_then [OF keep_quiet(3) [OF that] that]) (auto intro: Suc.IH)
  then show ?case
    unfolding retry_from.simps
    by (intro keep_then [OF f [OF Suc.prems] Suc.prems] keep_cases) (auto split: bool.split)
qed simp

lemma when_keep: "good G K C F w \<Longrightarrow> (b \<Longrightarrow> keep G K C F p (\<lambda>_ _. True) w) \<Longrightarrow> keep G K C F (when_prog b p) (\<lambda>_ _. True) w"
  by (simp add: when_prog_def)

lemma publish_keep:
  assumes "good G K C F w" "\<And>k. p = PSosAck k \<Longrightarrow> acked topic k w"
  shows "keep G K C F (bind_prog (call_done (CPublish topic p)) (\<lambda>_. Ret ())) (\<lambda>_ _. True) w"
  by (rule keep_then [OF keep_done [OF assms(1), where P = "\<lambda>_. True"] assms(1)]) (use assms(2) in \<open>auto simp: legal_def\<close>)

lemma tell_keep: "good G K C F w \<Longrightarrow> keep G K C F (tell r) (\<lambda>_ _. True) w"
  unfolding tell_def by (rule publish_keep) auto

lemma ack_keep:
  assumes "good G K C F w" "snap r w"
  shows "keep G K C F (ack r kind) (\<lambda>_ _. True) w"
proof -
  obtain r' where r': "r' \<in> set (wd_runs w)" "run_may r r'" using assms(2) unfolding snap_def by blast
  then have "acked (TopicSOSAckFor (sr_TenantID r) (sr_BridgeID r))
      \<lparr>sk_V = 2, sk_SOSID = sr_SOSID r, sk_Kind = kind, sk_State = sr_State r, sk_Rev = sr_Rev r\<rparr> w"
    unfolding acked_def by (intro bexI [of _ r']) (auto simp: run_may_def run_key_def)
  then show ?thesis unfolding ack_def by (intro publish_keep [OF assms(1)]) auto
qed

lemma log_keep: "good G K C F w \<Longrightarrow> keep G K C F (log_run r ev b) (\<lambda>_ _. True) w"
  unfolding log_run_def by (rule keep_then [OF keep_quiet(2)]) auto

lemma after_apply_keep:
  assumes good: "good G K C F w" and ids: "ids_ok G K" "run_key r \<in> K" "sc_engine G" and snap: "snap r w"
  shows "keep G K C F (bind_prog (when_prog b1 (bind_prog (settle G r) (\<lambda>_. Ret ()))) (\<lambda>_.
      bind_prog (when_prog b2 (tell r)) (\<lambda>_. bind_prog (when_prog b3 (ack r kind)) (\<lambda>_.
      bind_prog (log_run r ev x) (\<lambda>_. Ret y))))) (\<lambda>_ _. True) w"
proof -
  have s1: "keep G K C F (when_prog b1 (bind_prog (settle G r) (\<lambda>_. Ret ()))) (\<lambda>_ _. True) w"
    by (rule when_keep [OF good]) (auto intro!: keep_then [OF settle_keep [OF good ids snap] good])
  have s4: "keep G K C F (bind_prog (log_run r ev x) (\<lambda>_. Ret y)) (\<lambda>_ _. True) w1" if "good G K C F w1" for w1
    by (rule keep_then [OF log_keep [OF that] that]) simp
  have s3: "keep G K C F (bind_prog (when_prog b3 (ack r kind)) (\<lambda>_. bind_prog (log_run r ev x) (\<lambda>_. Ret y))) (\<lambda>_ _. True) w1"
    if "good G K C F w1" "snap r w1" for w1
    by (rule keep_then [OF when_keep [OF that(1) ack_keep [OF that]] that(1)]) (auto intro: s4)
  have s2: "keep G K C F (bind_prog (when_prog b2 (tell r)) (\<lambda>_. bind_prog (when_prog b3 (ack r kind)) (\<lambda>_.
      bind_prog (log_run r ev x) (\<lambda>_. Ret y)))) (\<lambda>_ _. True) w1" if "good G K C F w1" "snap r w1" for w1
    by (rule keep_seq [where S = "snap r", OF when_keep [OF that(1) tell_keep [OF that(1)]] that stable_snap]) (auto intro: s3)
  show ?thesis by (rule keep_seq [where S = "snap r", OF s1 good snap stable_snap]) (auto intro: s2)
qed

lemma apply_keep:
  assumes good: "good G K C F w" and ids: "ids_ok G K" "sc_engine G" and key: "(v_TenantID ev, origin, v_SOSID ev) \<in> K"
  shows "keep G K C F (apply_sos G ev origin) (\<lambda>_ _. True) w"
proof -
  have ek: "event_key (run_event ev origin x t) = (v_TenantID ev, origin, v_SOSID ev)" for x t by (simp add: event_key_def run_event_def)
  have one: "keep G K C F (bind_prog read_clock (\<lambda>at. apply_event (run_event ev origin x at)))
      (\<lambda>r w'. \<forall>a. r = Done a \<longrightarrow> snap (sa_Run a) w' \<and> run_key (sa_Run a) \<in> K) w1" if "good G K C F w1" for x w1
    by (rule keep_then [OF keep_reads(1) [OF that] that], rule keeps_mono [OF keep_apply_event]) (use key ek in auto)
  show ?thesis
    unfolding apply_sos_def Let_def RetryShort_def
    by (rule keep_then [OF retry_keep [OF good one] good], assumption, intro keep_cases)
      (auto intro!: after_apply_keep ids)
qed

lemma Apply_keep:
  assumes good: "good G K C F w" and ids: "ids_ok G K" "sc_engine G" and key: "(v_TenantID ev, Origin (v_BridgeID ev), v_SOSID ev) \<in> K"
  shows "keep G K C F (Apply G ev) (\<lambda>_ _. True) w"
  unfolding Apply_def
  by (auto intro!: keep_then [OF apply_keep [OF good ids key] good] keep_cases)

lemma cancel_loop_keep:
  assumes ids: "ids_ok G K" "sc_engine G"
  shows "good G K C F w \<Longrightarrow> \<forall>r \<in> set rs. (t, sr_Origin r, sr_SOSID r) \<in> K \<Longrightarrow> keep G K C F (cancel_loop G t u rs out) (\<lambda>_ _. True) w"
proof (induction rs arbitrary: w out)
  case (Cons r rs)
  have "keep G K C F (apply_sos G (hub_cancel r t u) (sr_Origin r)) (\<lambda>_ _. True) w"
    by (rule apply_keep [OF Cons.prems(1) ids]) (use Cons.prems(2) in \<open>simp add: hub_cancel_def\<close>)
  then show ?case
    unfolding cancel_loop.simps by (rule keep_then [OF _ Cons.prems(1)]) (use Cons in \<open>auto intro!: keep_cases\<close>)
qed simp

lemma CancelRuns_keep:
  assumes good: "good G K C F w" and ids: "ids_ok G K" "sc_engine G"
  shows "keep G K C F (CancelRuns G t s u) (\<lambda>_ _. True) w"
proof -
  have l: "keep G K C F (list_runs (CFindSOSRuns t s)) (\<lambda>r w'. \<forall>xs. r = Done xs \<longrightarrow> set xs \<subseteq> set (FindSOSRuns t s w) \<and>
      (\<forall>x \<in> set xs. snap x w' \<and> run_key x \<in> K)) w"
    by (rule keep_list_runs [OF good]) (auto simp: legal_def perform_def FindSOSRuns_def)
  have "(t, sr_Origin r, sr_SOSID r) \<in> K" if "r \<in> set (FindSOSRuns t s w)" "run_key r \<in> K" for r
    using that by (simp add: FindSOSRuns_def run_key_def)
  then show ?thesis
    unfolding CancelRuns_def
    by (intro keep_then [OF l good] keep_cases) (auto intro!: cancel_loop_keep [OF ids])
qed

lemma Reconcile_keep:
  assumes good: "good G K C F w" and ids: "ids_ok G K" "sc_engine G"
  shows "keep G K C F (Reconcile G) (\<lambda>_ _. True) w"
proof -
  have l: "keep G K C F (list_runs (CListSOSRunsAlertPending 100)) (\<lambda>r w'. \<forall>xs. r = Done xs \<longrightarrow>
      set xs \<subseteq> set (ListSOSRunsAlertPending 100 w) \<and> (\<forall>x \<in> set xs. snap x w' \<and> run_key x \<in> K)) w"
    by (rule keep_list_runs [OF good]) (auto simp: legal_def perform_def ListSOSRunsAlertPending_def dest: in_set_takeD)
  have loop: "keep G K C F (bind_prog (each (settle G) rs) (\<lambda>oks. Ret (f oks))) (\<lambda>_ _. True) w1"
    if 1: "good G K C F w1" "\<forall>r \<in> set rs. snap r w1 \<and> run_key r \<in> K" for rs w1 and f :: "bool list \<Rightarrow> nat outcome"
  proof (rule keep_then [OF _ 1(1)])
    show "keep G K C F (each (settle G) rs) (\<lambda>_ _. True) w1"
      by (rule each_keep [OF 1(1), where S = snap]) (use 1(2) may_facts(2) settle_keep ids in blast)+
  qed simp
  show ?thesis
    unfolding Reconcile_def by (intro keep_then [OF l good] keep_cases) (auto intro!: loop)
qed

lemma PageUnstored_keep:
  assumes good: "good G K C F w" and ids: "ids_ok G K" "sc_engine G" and key: "(v_TenantID ev, Origin (v_BridgeID ev), v_SOSID ev) \<in> K"
  shows "keep G K C F (PageUnstored G ev) (\<lambda>_ _. True) w"
proof -
  have rk: "run_key (NewSOSRun ((run_event ev (Origin (v_BridgeID ev)) [] at)\<lparr>se_Kind := SOSEventStart, se_Reason := 0\<rparr>)) =
      (v_TenantID ev, Origin (v_BridgeID ev), v_SOSID ev)" for at
    by (simp add: NewSOSRun_def run_key_def run_event_def sos_states Let_def)
  have "own_alert G K (v_TenantID ev) (AlertID (sc_sha256 G) (v_TenantID ev, Origin (v_BridgeID ev), v_SOSID ev))"
    using ids(1) key unfolding ids_ok_def own_alert_def by fastforce
  then have once: "keep G K C F (bind_prog (TriggerOnce (v_TenantID ev) (alertFor G (NewSOSRun ((run_event ev (Origin (v_BridgeID ev)) [] at)
      \<lparr>se_Kind := SOSEventStart, se_Reason := 0\<rparr>)) chain)) (\<lambda>r. case r of Err _ \<Rightarrow> Ret False | Done _ \<Rightarrow> Ret True)) (\<lambda>_ _. True) w1"
    if "good G K C F w1" for at chain w1
    by (intro keep_then [OF TriggerOnce_keep [OF that] that] keep_cases) (auto simp: rk)
  show ?thesis
    unfolding PageUnstored_def using ids(2)
    by (auto simp: Let_def intro!: keep_then [OF keep_chainOf [OF good] good] keep_then [OF keep_reads(1)] once)
qed

lemma handleMQTT_keep:
  assumes good: "good G K C F w" and ids: "ids_ok G K" "sc_engine G"
    and key: "\<And>t b. ParseSOSEventTopic topic = Some (t, b) \<Longrightarrow> (t, Origin b, m_SOSID m) \<in> K"
  shows "keep G K C F (handleMQTT G topic ok m) (\<lambda>_ _. True) w"
proof -
  have old: "keep G K C F (page_old_way t b m) (\<lambda>_ _. True) w1" if "good G K C F w1" for t b w1
    unfolding page_old_way_def Let_def by (rule keep_then [OF keep_reads(1) [OF that] that]) (auto intro!: publish_keep)
  have ap: "keep G K C F (Apply G (mqtt_event t b m start)) (\<lambda>_ _. True) w" if "ParseSOSEventTopic topic = Some (t, b)" for t b start
    by (rule Apply_keep [OF good ids]) (use key [OF that] in \<open>simp add: mqtt_event_def\<close>)
  show ?thesis
    unfolding handleMQTT_def Let_def
    by (auto split: option.split intro!: when_keep good old keep_then [OF ap good])
qed


section \<open>Every interleaving\<close>

definition unit_prog :: "'a act \<Rightarrow> unit act" where
  "unit_prog p = bind_prog p (\<lambda>_. Ret ())"

text \<open>What replicas, operators, bridges and the API may start. Runs have their keys in \<open>K\<close>.\<close>

definition sos_progs :: "sos_cfg \<Rightarrow> run_key set \<Rightarrow> unit act set" where
  "sos_progs G K =
     {unit_prog (Apply G ev) | ev. (v_TenantID ev, Origin (v_BridgeID ev), v_SOSID ev) \<in> K} \<union>
     {handleMQTT G topic ok m | topic ok m. \<forall>t b. ParseSOSEventTopic topic = Some (t, b) \<longrightarrow> (t, Origin b, m_SOSID m) \<in> K} \<union>
     {unit_prog (PageUnstored G ev) | ev. (v_TenantID ev, Origin (v_BridgeID ev), v_SOSID ev) \<in> K} \<union>
     {unit_prog (CancelRuns G t s u) | t s u. True} \<union> {unit_prog (Reconcile G)} \<union>
     {unit_prog (Trigger t a) | t a. a_ID a = []} \<union> {unit_prog (Acknowledge t i b) | t i b. True} \<union>
     {unit_prog (Cancel t i b) | t i b. True} \<union> {processAlerts} \<union> {PublishCaps t b v | t b v. True} \<union>
     {unit_prog (call_done (CCreateEscalationChain t c)) | t c. True} \<union> {unit_prog (call_done (CDeleteEscalationChain t i)) | t i. True} \<union>
     {unit_prog (call_done (CSaveNotificationPref t p)) | t p. True} \<union> {unit_prog (call_done (CDeleteNotificationPref t i)) | t i. True}"

definition sos_pool :: "sos_cfg \<Rightarrow> run_key set \<Rightarrow> unit act set" where
  "sos_pool G K = (if ids_ok G K \<and> sc_engine G then sos_progs G K else {})"

lemma unit_keep:
  assumes "good G K C F w" "keep G K C F p Q w"
  shows "keep G K C F (unit_prog p) (\<lambda>_ _. True) w"
  unfolding unit_prog_def by (rule keep_then [OF assms(2,1)]) simp

lemma sos_progs_keep:
  assumes ids: "ids_ok G K" "sc_engine G" and p: "p \<in> sos_progs G K" and good: "good G K C F w"
  shows "keep G K C F p (\<lambda>_ _. True) w"
proof -
  have call: "keep G K C F (call_done c) (\<lambda>_ _. True) w" if "legal G K C F c w" for c
    unfolding call_done_def by (rule keep_any [OF good that])
  have caps: "keep G K C F (PublishCaps t b v) (\<lambda>_ _. True) w" for t b v
    unfolding PublishCaps_def by (rule publish_keep [OF good]) auto
  have trig: "keep G K C F (unit_prog (Trigger t a)) (\<lambda>_ _. True) w" if "a_ID a = []" for t a
    by (rule unit_keep [OF good Trigger_keep [OF good]]) (simp add: that)
  show ?thesis
    using p unfolding sos_progs_def
    by (auto intro!: unit_keep [OF good] Apply_keep handleMQTT_keep PageUnstored_keep CancelRuns_keep Reconcile_keep Acknowledge_keep
        Cancel_keep processAlerts_keep call caps trig good ids simp: legal_def)
qed

interpretation sp: protocol exec "env_ok C" "good G K C F" may "sos_pool G K" for C G K F
proof
  show "keep G K C F p (\<lambda>_ _. True) d" if "p \<in> sos_pool G K" "good G K C F d" for p d
    using that sos_progs_keep by (auto simp: sos_pool_def split: if_splits)
qed (fact may_refl, fact may_trans)

lemma good_empty: "good G K C None empty_world"
  by (simp add: good_def empty_world_def)

lemma good_freeze: "good G K C None w \<Longrightarrow> closed_alert i w \<Longrightarrow> good G K C (Some (i, notified_of i w)) w"
  by (simp add: good_def)


text \<open>C2: The distress runs and their alerts agree. Let any number of replicas, bridges and
  operators run the handlers of distress events, the reconciler, the escalation engine and the
  operations of the API, interleaved between their store calls, with calls that fail or that take
  effect and report an error, and replicas that stop anywhere. Alert ids are derived by a hash, of
  which only distinctness across tenants is assumed for the keys in use. In every state reached:
  a run that owes no alert work has an alert of its tenant that is closed if the run is cancelled,
  and an alert if it is active and the tenant names a chain; a run and an alert
  have one row each; and what has been acknowledged to a bridge is on
  record. In every later state a cancelled run is still cancelled and a closed alert closed.\<close>

theorem sos_runs_settled:
  assumes "ids_ok G K" "sc_engine G"
    and reach: "pool_reach exec (env_ok C) (sos_progs G K) ([], empty_world) (ps, w)"
    and later: "pool_reach exec (env_ok C) (sos_progs G K) (ps, w) (ps', w')"
  shows "distinct (map a_ID (wd_alerts w)) \<and> distinct (map run_key (wd_runs w)) \<and>
    (\<forall>r \<in> set (wd_runs w). \<not> sr_AlertPending r \<longrightarrow>
      (sr_State r = SOSRunCancelled \<longrightarrow> (\<exists>a \<in> set (wd_alerts w). a_ID a = AlertID (sc_sha256 G) (run_key r) \<and>
         a_TenantID a = sr_TenantID r \<and> \<not> alert_open a)) \<and>
      (sr_State r = SOSRunActive \<and> [] \<notin> C (sr_TenantID r) \<longrightarrow> (\<exists>a \<in> set (wd_alerts w). a_ID a = AlertID (sc_sha256 G) (run_key r) \<and>
         a_TenantID a = sr_TenantID r))) \<and>
    (\<forall>topic k. (topic, PSosAck k) \<in> set (wd_published w) \<longrightarrow> acked topic k w') \<and>
    (\<forall>r \<in> set (wd_runs w). \<exists>r' \<in> set (wd_runs w'). run_key r' = run_key r \<and> sr_Rev r \<le> sr_Rev r' \<and>
      (sr_State r = SOSRunCancelled \<longrightarrow> sr_State r' = SOSRunCancelled)) \<and>
    (\<forall>a \<in> set (wd_alerts w). \<exists>a' \<in> set (wd_alerts w'). a_ID a' = a_ID a \<and> (\<not> alert_open a \<longrightarrow> \<not> alert_open a'))"
proof -
  have pool: "sos_pool G K = sos_progs G K" using assms(1,2) by (simp add: sos_pool_def)
  note all = sp.pool_good [OF reach [folded pool] good_empty]
  have good: "good G K C None w" and may: "may w w'" using all(1) all(3) [OF later [folded pool]] by blast+
  have tenant: "a_TenantID a = sr_TenantID r" if "r \<in> set (wd_runs w)" "a \<in> set (wd_alerts w)" "a_ID a = AlertID (sc_sha256 G) (run_key r)" for r a
  proof -
    have "run_key r \<in> K" using good that(1) by (simp add: good_def)
    then have "a_TenantID a = fst (run_key r)" using good that(2,3) unfolding good_def by blast
    then show ?thesis by (simp add: run_key_def)
  qed
  have sync: "synced G C r w" if "r \<in> set (wd_runs w)" "\<not> sr_AlertPending r" for r using good that by (simp add: good_def)
  have "acked topic k w'" if "(topic, PSosAck k) \<in> set (wd_published w)" for topic k
    using good that may_facts(6) [OF may] by (simp add: good_def)
  moreover have "\<exists>r' \<in> set (wd_runs w'). run_may r r'" if "r \<in> set (wd_runs w)" for r using may that by (simp add: may_def snap_def)
  moreover have "\<exists>a' \<in> set (wd_alerts w'). alert_may a a'" if "a \<in> set (wd_alerts w)" for a using may that by (simp add: may_def seen_alert_def)
  moreover have "distinct (map a_ID (wd_alerts w))" "distinct (map run_key (wd_runs w))" using good by (simp_all add: good_def)
  ultimately show ?thesis using sync tenant
    unfolding synced_def Let_def closed_alert_def has_alert_def run_may_def alert_may_def by meson
qed

text \<open>C1: A cancelled distress call falls silent. Once a run is cancelled and its alert work is
  done, no replica started from then on notifies anybody of its alert again: whatever starts,
  retransmissions, cancels, reconciler rounds, operator actions and engine ticks run and
  interleave, with whatever failures, the alert stays closed and its notifications are those
  already made.\<close>

theorem sos_cancel_silences:
  assumes "ids_ok G K" "sc_engine G"
    and reach: "pool_reach exec (env_ok C) (sos_progs G K) ([], empty_world) (ps, w)"
    and run: "r \<in> set (wd_runs w)" "sr_State r = SOSRunCancelled" "\<not> sr_AlertPending r"
    and later: "pool_reach exec (env_ok C) (sos_progs G K) ([], w) (ps', w')"
  defines "i \<equiv> AlertID (sc_sha256 G) (run_key r)"
  shows "notified_of i w' = notified_of i w \<and> closed_alert i w'"
proof -
  have pool: "sos_pool G K = sos_progs G K" using assms(1,2) by (simp add: sos_pool_def)
  have good: "good G K C None w" by (rule sp.pool_good(1) [OF reach [folded pool] good_empty])
  then have "closed_alert i w" using run by (auto simp: good_def synced_def Let_def i_def)
  then have "good G K C (Some (i, notified_of i w)) w" by (rule good_freeze [OF good])
  then have "good G K C (Some (i, notified_of i w)) w'" by (rule sp.pool_good(1) [OF later [folded pool]])
  then show ?thesis by (simp add: good_def)
qed


section \<open>A cancelled call\<close>

definition demo_cfg :: sos_cfg where
  "demo_cfg = \<lparr>sc_sha1 = (\<lambda>_. replicate 20 0), sc_sha256 = (\<lambda>_. []), sc_engine = True\<rparr>"

definition demo_id :: string where
  "demo_id = UUIDv5 (sc_sha1 demo_cfg) (''b'' @ '':'' @ FormatInt 0)"

definition demo_key :: run_key where
  "demo_key = (''t'', Origin ''b'', demo_id)"

definition demo_event :: SosEvent where
  "demo_event = \<lparr>v_TenantID = ''t'', v_BridgeID = ''b'', v_Bearer = ''mqtt'', v_Kind = SOSEventCancel, v_SOSID = demo_id,
     v_RunStartMs = 0, v_DeviceID = [], v_Text = [], v_Lat = 0, v_Lon = 0, v_HasPosition = False, v_Reason = 1, v_By = []\<rparr>"

definition demo_sos_env :: env where
  "demo_sos_env = \<lparr>ev_now = 1000000000, ev_chain = (\<lambda>_. ''c''), ev_done = False, ev_fault = Works\<rparr>"

definition demo_after :: world where
  "demo_after = snd (run_prog (exec demo_sos_env) (unit_prog (Apply demo_cfg demo_event)) empty_world)"

lemma demo_reach:
  "\<exists>ps. pool_reach exec (env_ok (\<lambda>_. {''c''})) (sos_progs demo_cfg {demo_key}) ([], empty_world) (ps, demo_after)"
  unfolding demo_after_def
  by (rule pool_run_one) (auto simp: env_ok_def demo_sos_env_def sos_progs_def demo_event_def demo_key_def)

lemma demo_ids: "ids_ok demo_cfg {demo_key}" "sc_engine demo_cfg"
  by (simp_all add: ids_ok_def demo_cfg_def)

lemma demo_id_valid: "SOSIDValid (sc_sha1 demo_cfg) demo_id ''b'' 0"
  unfolding demo_id_def by (rule SOSIDValid_v5) (simp_all add: demo_cfg_def)

lemma demo_run: "\<exists>r \<in> set (wd_runs demo_after). sr_State r = SOSRunCancelled \<and> \<not> sr_AlertPending r \<and> run_key r = demo_key"
proof -
  have E [simp]: "ev_fault demo_sos_env = Works" "ev_now demo_sos_env = 1000000000" "ev_chain demo_sos_env t = ''c''" for t
    by (simp_all add: demo_sos_env_def)
  have G [simp]: "sc_engine demo_cfg" by (simp add: demo_cfg_def)
  note sync = settle_def syncAlert_def closeAlert_def Close_def closeRounds_def numeral_3_eq_3 GetAlert_def CreateAlert_def
    ClearSOSRunAlertPending_def alertFor_def AlertID_def
  note store = ApplySOSRunEvent_def GetSOSRun_def NewSOSRun_def run_row_def col_time_ptr_def zero_time_def run_event_def
  show ?thesis
    using demo_id_valid
    by (simp add: demo_after_def unit_prog_def Apply_def demo_event_def apply_sos_def RetryShort_def when_prog_def tell_def ack_def
        log_run_def empty_world_def run_key_def demo_key_def sos_states sync store run_calls [OF E(1)] Let_def)
qed

theorem sos_runs_settled_witness:
  "\<exists>r \<in> set (wd_runs demo_after). \<exists>a \<in> set (wd_alerts demo_after). sr_State r = SOSRunCancelled \<and>
     a_ID a = AlertID (sc_sha256 demo_cfg) (run_key r) \<and> a_TenantID a = sr_TenantID r \<and> \<not> alert_open a"
proof -
  obtain ps where ps: "pool_reach exec (env_ok (\<lambda>_. {''c''})) (sos_progs demo_cfg {demo_key}) ([], empty_world) (ps, demo_after)"
    using demo_reach by blast
  show ?thesis using sos_runs_settled [OF demo_ids ps rtranclp.rtrancl_refl] demo_run by blast
qed

theorem sos_cancel_silences_witness:
  "\<exists>ps r. r \<in> set (wd_runs demo_after) \<and>
     pool_reach exec (env_ok (\<lambda>_. {''c''})) (sos_progs demo_cfg {demo_key}) ([], demo_after) (ps, tick demo_sos_env demo_after) \<and>
     notified_of (AlertID (sc_sha256 demo_cfg) (run_key r)) (tick demo_sos_env demo_after) =
       notified_of (AlertID (sc_sha256 demo_cfg) (run_key r)) demo_after"
proof -
  obtain ps where ps: "pool_reach exec (env_ok (\<lambda>_. {''c''})) (sos_progs demo_cfg {demo_key}) ([], empty_world) (ps, demo_after)"
    using demo_reach by blast
  obtain r where r: "r \<in> set (wd_runs demo_after)" "sr_State r = SOSRunCancelled" "\<not> sr_AlertPending r" using demo_run by blast
  obtain ps' where ps': "pool_reach exec (env_ok (\<lambda>_. {''c''})) (sos_progs demo_cfg {demo_key}) ([], demo_after) (ps', tick demo_sos_env demo_after)"
    using pool_run_one [of "env_ok (\<lambda>_. {''c''})" demo_sos_env processAlerts "sos_progs demo_cfg {demo_key}" exec demo_after]
    unfolding tick_def by (auto simp: env_ok_def demo_sos_env_def sos_progs_def)
  show ?thesis using sos_cancel_silences [OF demo_ids ps r ps'] r(1) ps' by blast
qed

end
