(* ===== verification/SosReconcile.thy ===== *)
theory SosReconcile
  imports SosSafety
begin

text \<open>
  The reconciler of distress runs (\<open>Reconcile\<close> of \<open>internal/sos/runs.go\<close>) does what is owed: in
  a store that any interleaving may have left, one round with working calls settles every
  pending run it reads. With the contract of \<open>SosSafety\<close> this brings every alert in line.
\<close>

section \<open>The reconciler\<close>

text \<open>A program that keeps the contract keeps it when it runs alone.\<close>

lemma keep_run:
  assumes "keep G K C F p Q w" "good G K C F w" "env_ok C E"
  shows "good G K C F (snd (run_prog (exec E) p w)) \<and> Q (fst (run_prog (exec E) p w)) (snd (run_prog (exec E) p w))"
  using assms(1,2)
proof (induction p arbitrary: w)
  case (Call c k)
  obtain r w1 where r: "exec E c w = (r, w1)" by fastforce
  then have "good G K C F w1" "keep G K C F (k r) Q w1"
    using Call.prems(1) assms(3) may_refl unfolding keeps.simps by blast+
  then show ?case using Call.IH [of "k r" w1] r by simp
qed simp

lemma run_alert_mine:
  assumes "good G K C F w" "run_key r \<in> K"
  shows "GetAlert (sr_TenantID r) (AlertID (sc_sha256 G) (run_key r)) w = None \<longleftrightarrow>
    AlertID (sc_sha256 G) (run_key r) \<notin> a_ID ` set (wd_alerts w)"
  using assms unfolding GetAlert_def good_def of_tenant_def run_key_def by (auto simp: find_None_iff image_iff)

lemma closeAlert_runs:
  assumes "ev_fault E = Works" "good G K C F w" "run_key r \<in> K" "sc_engine G"
  shows "fst (run_prog (exec E) (closeAlert G r) w) = Done () \<and> wd_runs (snd (run_prog (exec E) (closeAlert G r) w)) = wd_runs w"
  using run_alert_mine [OF assms(2,3)] assms(4)
  by (auto simp: closeAlert_def Close_def closeRounds_def numeral_3_eq_3 cancelAlert_def run_calls [OF assms(1)] alertFor_def AlertID_def
      CreateAlert_def UpdateAlert_def Let_def split: option.split prod.split)

lemma good_find: "good G K C F w \<Longrightarrow> r \<in> set (wd_runs w) \<Longrightarrow> GetSOSRun (run_key r) w = Some r"
  by (simp add: good_def GetSOSRun_def find_unique)

lemma AlertID_nonempty [simp]: "AlertID sha256 k \<noteq> []"
  by (cases k) (simp add: AlertID_def)

text \<open>Settling a run as the table has it succeeds when the calls work, and takes it off the
  list of pending runs; the other rows stay as they are.\<close>

definition settled_row :: "run_key \<Rightarrow> (SOSRun \<Rightarrow> SOSRun) \<Rightarrow> world \<Rightarrow> world \<Rightarrow> bool" where
  "settled_row key f w w' \<longleftrightarrow> wd_runs w' = map (\<lambda>q. if run_key q = key then f q else q) (wd_runs w) \<and>
     (\<forall>q. run_key (f q) = run_key q \<and> sr_Rev (f q) = sr_Rev q)"

lemma syncAlert_runs:
  assumes E: "ev_fault E = Works" and good: "good G K C F w" and r: "r \<in> set (wd_runs w)" and eng: "sc_engine G"
  shows "fst (run_prog (exec E) (syncAlert G r) w) = Done () \<and>
    (\<exists>f. settled_row (run_key r) f w (snd (run_prog (exec E) (syncAlert G r) w)))"
proof -
  have key: "run_key r \<in> K" "sr_State r = SOSRunActive \<or> sr_State r = SOSRunCancelled" using good r by (auto simp: good_def)
  note mine = run_alert_mine [OF good key(1)]
  let ?f = "\<lambda>q. q\<lparr>sr_AlertID := AlertID (sc_sha256 G) (run_key r), sr_UpdatedAt := col_time (ev_now E)\<rparr>"
  have rk: "run_key (?f q) = run_key q" for q by (simp add: run_key_def)
  have same: "settled_row (run_key r) (\<lambda>q. q) w w'" if "wd_runs w' = wd_runs w" for w' using that by (simp add: settled_row_def)
  have upd: "settled_row (run_key r) ?f w (upd_run (run_key r) ?f w')" if "wd_runs w' = wd_runs w" for w'
    using that rk by (simp add: settled_row_def upd_run_def)
  have find: "GetSOSRun (run_key r) (upd_run (run_key r) ?f w') = Some (?f r)" if "wd_runs w' = wd_runs w" for w'
    using find_map_same [OF good_find [OF good r, unfolded GetSOSRun_def], of "\<lambda>q. if run_key q = run_key r then ?f q else q"] rk that
    by (simp add: GetSOSRun_def upd_run_def)
  have present: "GetSOSRun (run_key r) w' \<noteq> None" if "wd_runs w' = wd_runs w" for w'
    using good_find [OF good r] that by (simp add: GetSOSRun_def)
  show ?thesis
  proof (cases "sr_State r = SOSRunCancelled")
    case True
    then show ?thesis using closeAlert_runs [OF E good key(1) eng] same by (auto simp: syncAlert_def)
  next
    case False
    define chain where "chain = ev_chain E (sr_TenantID r)"
    define a where "a = alertFor G r chain"
    have id: "a_ID a = AlertID (sc_sha256 G) (run_key r)" "a_ID a \<noteq> []" by (simp_all add: a_def)
    have once: "\<exists>b w1. run_prog (exec E) (TriggerOnce (sr_TenantID r) a) w = (Done b, w1) \<and> wd_runs w1 = wd_runs w"
      using mine id by (cases "GetAlert (sr_TenantID r) (a_ID a) w")
        (auto simp: TriggerOnce_def Trigger_def run_calls [OF E] CreateAlert_def)
    then obtain b w1 where w1: "run_prog (exec E) (TriggerOnce (sr_TenantID r) a) w = (Done b, w1)" "wd_runs w1 = wd_runs w" by blast
    have "run_prog (exec E) (syncAlert G r) w = (Done (), if chain = [] then w else upd_run (run_key r) ?f w1)"
      using False eng w1(1) present [OF w1(2)] find [OF w1(2)] id(1)
      by (simp add: syncAlert_def raise_def run_calls [OF E] chain_def [symmetric] a_def [symmetric] SetSOSRunAlert_def Let_def)
    then show ?thesis using same [of w] upd [OF w1(2)] by auto
  qed
qed


lemma filter_map_if:
  assumes "\<And>q. P q \<Longrightarrow> k q" "\<And>q. P (f q) = P q"
  shows "filter P (map (\<lambda>q. if k q then f q else q) xs) = map f (filter P xs)"
  using assms by (induction xs) auto

lemma settle_runs:
  assumes E: "ev_fault E = Works" and good: "good G K C F w" and r: "r \<in> set (wd_runs w)" and eng: "sc_engine G"
  defines "w' \<equiv> snd (run_prog (exec E) (settle G r) w)"
  shows "fst (run_prog (exec E) (settle G r) w) \<and>
    (\<exists>f. (\<forall>q. \<not> sr_AlertPending (f q)) \<and> wd_runs w' = map (\<lambda>q. if run_key q = run_key r then f q else q) (wd_runs w))"
proof -
  define w1 where "w1 = snd (run_prog (exec E) (syncAlert G r) w)"
  obtain f where f: "run_prog (exec E) (syncAlert G r) w = (Done (), w1)" "wd_runs w1 = map (\<lambda>q. if run_key q = run_key r then f q else q) (wd_runs w)"
      "\<And>q. run_key (f q) = run_key q" "\<And>q. sr_Rev (f q) = sr_Rev q"
    using syncAlert_runs [OF E good r eng] unfolding w1_def settled_row_def
    by (cases "run_prog (exec E) (syncAlert G r) w") auto
  let ?hit = "\<lambda>q. run_key q = run_key r \<and> sr_Rev q = sr_Rev r"
  have only: "?hit q \<longleftrightarrow> q = r" if "q \<in> set (wd_runs w)" for q using good_key_unique [OF good that r] by auto
  have "filter ?hit (wd_runs w1) = map f (filter ?hit (wd_runs w))"
    unfolding f(2) by (rule filter_map_if) (simp_all add: f(3,4))
  also have "filter ?hit (wd_runs w) = [r]"
    using filter_one [of "wd_runs w" r] good r filter_cong [OF refl only, of "wd_runs w" "\<lambda>q. q"] by (simp add: good_def distinct_map)
  finally have one: "length (filter ?hit (wd_runs w1)) = 1" by simp
  have rev: "sr_Rev q = sr_Rev r" if "q \<in> set (wd_runs w)" "run_key q = run_key r" for q using good_key_unique [OF good that(1) r that(2)] by simp
  have "wd_runs (snd (ClearSOSRunAlertPending (run_key r) (sr_Rev r) w1)) =
      map (\<lambda>q. if run_key q = run_key r then (f q)\<lparr>sr_AlertPending := False\<rparr> else q) (wd_runs w)"
    using rev by (auto simp: ClearSOSRunAlertPending_def f(2-4))
  then show ?thesis using f(1) one
    by (intro conjI exI [of _ "\<lambda>q. (f q)\<lparr>sr_AlertPending := False\<rparr>"])
      (simp_all add: w'_def settle_def run_calls [OF E] ClearSOSRunAlertPending_def)
qed


lemma each_settle:
  assumes E: "ev_fault E = Works" "env_ok C E" and ids: "ids_ok G K" "sc_engine G"
  shows "good G K C F w \<Longrightarrow> set rs \<subseteq> set (wd_runs w) \<Longrightarrow> distinct (map run_key rs) \<Longrightarrow>
    fst (run_prog (exec E) (each (settle G) rs) w) = replicate (length rs) True \<and>
    good G K C F (snd (run_prog (exec E) (each (settle G) rs) w)) \<and>
    (\<forall>q \<in> set (wd_runs (snd (run_prog (exec E) (each (settle G) rs) w))). sr_AlertPending q \<longrightarrow>
       q \<in> set (wd_runs w) \<and> run_key q \<notin> run_key ` set rs)"
proof (induction rs arbitrary: w)
  case (Cons r rs)
  obtain b w1 where w1: "run_prog (exec E) (settle G r) w = (b, w1)" by fastforce
  have r: "r \<in> set (wd_runs w)" "run_key r \<in> K" "snap r w" using Cons.prems by (auto simp: good_def snap_def intro: run_may_refl)
  obtain f where f: "b" "\<And>q. \<not> sr_AlertPending (f q)" "wd_runs w1 = map (\<lambda>q. if run_key q = run_key r then f q else q) (wd_runs w)"
    using settle_runs [OF E(1) Cons.prems(1) r(1) ids(2)] w1 by auto
  have "good G K C F w1" using keep_run [OF settle_keep [OF Cons.prems(1) ids(1) r(2) ids(2) r(3)] Cons.prems(1) E(2)] w1 by simp
  moreover have "set rs \<subseteq> set (wd_runs w1)" using Cons.prems(2,3) unfolding f(3) by (force intro: rev_image_eqI)
  moreover have pend: "q \<in> set (wd_runs w) \<and> run_key q \<noteq> run_key r" if "q \<in> set (wd_runs w1)" "sr_AlertPending q" for q
    using that f(2) unfolding f(3) by (auto split: if_splits)
  ultimately show ?case using Cons.IH [of w1] Cons.prems(3) w1 f(1) by (auto simp: case_prod_beta Let_def)
qed simp

lemma listed_pending:
  assumes "length (filter sr_AlertPending (wd_runs w)) \<le> 100"
  shows "mset (ListSOSRunsAlertPending 100 w) = mset (filter sr_AlertPending (wd_runs w))"
  using assms by (simp add: ListSOSRunsAlertPending_def row_limit_def)

text \<open>C5: The reconciler settles what is pending. In every state that interleaved handlers,
  operators and engine ticks reach from the empty store, with failed calls and stopped replicas,
  one round of the reconciler whose calls work and that is not interfered with settles every
  run with pending alert work, when there are at most a hundred (a round reads no more): it
  reports their number, no run is pending after it, and so every cancelled run
  has a closed alert and every active run of a tenant with a chain has an alert.\<close>

theorem reconcile_settles:
  assumes ids: "ids_ok G K" "sc_engine G"
    and reach: "pool_reach exec (env_ok C) (sos_progs G K) ([], empty_world) (ps, w)"
    and E: "ev_fault E = Works" "env_ok C E" and few: "length (filter sr_AlertPending (wd_runs w)) \<le> 100"
  defines "w' \<equiv> snd (run_prog (exec E) (Reconcile G) w)"
  shows "fst (run_prog (exec E) (Reconcile G) w) = Done (length (filter sr_AlertPending (wd_runs w))) \<and>
    (\<forall>r \<in> set (wd_runs w'). \<not> sr_AlertPending r \<and>
      (sr_State r = SOSRunCancelled \<longrightarrow> closed_alert (AlertID (sc_sha256 G) (run_key r)) w') \<and>
      (sr_State r = SOSRunActive \<and> [] \<notin> C (sr_TenantID r) \<longrightarrow> has_alert (AlertID (sc_sha256 G) (run_key r)) w'))"
proof -
  let ?L = "ListSOSRunsAlertPending 100 w" and ?P = "filter sr_AlertPending (wd_runs w)"
  have "sos_pool G K = sos_progs G K" using ids by (simp add: sos_pool_def)
  then have good: "good G K C None w" using sp.pool_good(1) [OF _ good_empty] reach by metis
  have m: "mset ?L = mset ?P" by (rule listed_pending [OF few])
  have set: "set ?L = set ?P" and len: "length ?L = length ?P" using m by (metis set_mset_mset, metis size_mset)
  have "mset (map run_key ?L) = mset (map run_key ?P)" using m by simp
  moreover have "distinct (map run_key ?P)" using good by (simp add: good_def distinct_map_filter)
  ultimately have dist: "distinct (map run_key ?L)" by (metis mset_eq_imp_distinct_iff)
  obtain oks w1 where w1: "run_prog (exec E) (each (settle G) ?L) w = (oks, w1)" by fastforce
  have all: "oks = replicate (length ?L) True" "good G K C None w1"
      "\<And>q. q \<in> set (wd_runs w1) \<Longrightarrow> sr_AlertPending q \<Longrightarrow> q \<in> set (wd_runs w) \<and> run_key q \<notin> run_key ` set ?L"
    using each_settle [OF E ids good _ dist] w1 set by auto
  have "\<not> sr_AlertPending q" if "q \<in> set (wd_runs w1)" for q using all(3) [OF that] set by auto
  moreover have "run_prog (exec E) (Reconcile G) w = (Done (length ?P), w1)"
    using w1 all(1) len by (simp add: Reconcile_def run_calls [OF E(1)])
  ultimately show ?thesis using all(2) by (simp add: w'_def good_def synced_def Let_def)
qed

text \<open>A cancel that was stored, with its reply lost: the run is pending until the reconciler runs.\<close>

definition demo_lost :: world where
  "demo_lost = snd (run_prog (exec (demo_sos_env\<lparr>ev_fault := Lost False\<rparr>)) (unit_prog (Apply demo_cfg demo_event)) empty_world)"

lemma demo_lost_reach:
  "\<exists>ps. pool_reach exec (env_ok (\<lambda>_. {''c''})) (sos_progs demo_cfg {demo_key}) ([], empty_world) (ps, demo_lost)"
  unfolding demo_lost_def
  by (rule pool_run_one) (auto simp: env_ok_def demo_sos_env_def sos_progs_def demo_event_def demo_key_def)

lemma demo_lost_runs: "length (filter sr_AlertPending (wd_runs demo_lost)) = 1"
  using demo_id_valid
  by (simp add: demo_lost_def unit_prog_def Apply_def demo_event_def apply_sos_def RetryShort_def numeral_3_eq_3 exec_def perform_def
      demo_sos_env_def read_clock_def apply_event_def ApplySOSRunEvent_def GetSOSRun_def NewSOSRun_def run_row_def zero_time_def
      run_event_def empty_world_def sos_states Let_def)

theorem reconcile_settles_witness:
  "fst (run_prog (exec demo_sos_env) (Reconcile demo_cfg) demo_lost) = Done 1 \<and>
   filter sr_AlertPending (wd_runs (snd (run_prog (exec demo_sos_env) (Reconcile demo_cfg) demo_lost))) = []"
proof -
  obtain ps where ps: "pool_reach exec (env_ok (\<lambda>_. {''c''})) (sos_progs demo_cfg {demo_key}) ([], empty_world) (ps, demo_lost)"
    using demo_lost_reach by blast
  show ?thesis
    using reconcile_settles [OF demo_ids ps, of demo_sos_env] demo_lost_runs by (simp add: demo_sos_env_def env_ok_def filter_empty_conv)
qed

end
