(* ===== verification/GoTime.thy ===== *)
theory GoTime
  imports Prelude
begin

text \<open>
  Dates of Go's \<open>time\<close> package in UTC. An instant is a number of nanoseconds since 1970; its
  date is computed by counting years, and \<open>Format\<close> with the layout
  \<open>2006-01-02T15:04:05.000000Z07:00\<close> renders it to the microsecond. Two instants from the year
  1 on that agree in their text agree in their microsecond.
\<close>

section \<open>Dates\<close>

text \<open>The days before a year, from the first of January of the year 1.\<close>

definition days_before :: "int \<Rightarrow> int" where
  "days_before y = 365 * (y - 1) + (y - 1) div 4 - (y - 1) div 100 + (y - 1) div 400"

lemma days_before_next: "days_before y < days_before (y + 1)"
proof -
  have "(y - 1) div k \<le> y div k" "y div k \<le> (y - 1) div k + 1" if "k > 0" for k
    using that zdiv_mono1 [of "y - 1" y k] zdiv_mono1 [of y "y - 1 + k" k] by simp_all
  from this [of 4] this [of 100] this [of 400] show ?thesis by (simp add: days_before_def)
qed

function year_from :: "int \<Rightarrow> int \<Rightarrow> int" where
  "year_from y d = (if days_before (y + 1) \<le> d then year_from (y + 1) d else y)"
  by pat_completeness auto
termination
proof (relation "measure (\<lambda>(y, d). nat (d - days_before y))")
  fix y d :: int assume "days_before (y + 1) \<le> d"
  then show "((y + 1, d), (y, d)) \<in> measure (\<lambda>(y, d). nat (d - days_before y))" using days_before_next [of y] by simp
qed simp

declare year_from.simps [simp del]

definition year_of :: "int \<Rightarrow> int" where
  "year_of d = year_from (d div 366 + 1) d"

definition month_days :: "int \<Rightarrow> int list" where
  "month_days y =
     (if y mod 4 = 0 \<and> (y mod 100 \<noteq> 0 \<or> y mod 400 = 0)
      then [0, 31, 60, 91, 121, 152, 182, 213, 244, 274, 305, 335]
      else [0, 31, 59, 90, 120, 151, 181, 212, 243, 273, 304, 334])"

text \<open>Year, month and day of a day counted from the first of January of the year 1.\<close>

definition civil :: "int \<Rightarrow> int \<times> nat \<times> int" where
  "civil d =
     (let y = year_of d; doy = d - days_before y; m = length (filter (\<lambda>c. c \<le> doy) (month_days y))
      in (y, m, doy - month_days y ! (m - 1) + 1))"

definition epoch_days :: int where "epoch_days = 719162"

section \<open>Texts\<close>

definition pad_dec :: "nat \<Rightarrow> int \<Rightarrow> string" where
  "pad_dec w n = (let s = dec_digits (nat n) in replicate (w - length s) (CHR ''0'') @ s)"

definition FormatMicro :: "instant \<Rightarrow> string" where
  "FormatMicro t =
     (let us = t div 1000; s = us div 1000000; (y, m, d) = civil (s div 86400 + epoch_days); c = s mod 86400
      in pad_dec 4 y @ CHR ''-'' # pad_dec 2 (int m) @ CHR ''-'' # pad_dec 2 d @ CHR ''T'' #
         pad_dec 2 (c div 3600) @ CHR '':'' # pad_dec 2 (c div 60 mod 60) @ CHR '':'' # pad_dec 2 (c mod 60) @ CHR ''.'' #
         pad_dec 6 (us mod 1000000) @ ''Z'')"

section \<open>What a text determines\<close>

lemma days_before_le: "0 \<le> k \<Longrightarrow> days_before (k + 1) \<le> 366 * k"
proof -
  assume k: "0 \<le> k"
  have "k div 4 * 4 \<le> k" "k div 400 * 400 \<le> k" "0 \<le> k div 100" using k by (simp_all add: pos_imp_zdiv_nonneg_iff)
  then show ?thesis unfolding days_before_def add_diff_cancel by linarith
qed

lemma year_from_le: "days_before y \<le> d \<Longrightarrow> y \<le> year_from y d \<and> days_before (year_from y d) \<le> d"
proof (induction y d rule: year_from.induct)
  case (1 y d)
  then show ?case by (subst (1 2) year_from.simps) auto
qed

lemma year_of_le: "0 \<le> d \<Longrightarrow> 0 < year_of d \<and> days_before (year_of d) \<le> d"
proof -
  assume d: "0 \<le> d"
  have "0 \<le> d div 366" "d div 366 * 366 \<le> d" using d by (simp_all add: pos_imp_zdiv_nonneg_iff)
  moreover from this have "days_before (d div 366 + 1) \<le> d" using days_before_le [of "d div 366"] by simp
  ultimately show ?thesis unfolding year_of_def using year_from_le [of "d div 366 + 1" d] by linarith
qed


text \<open>The day is determined by its date, whatever the month table says.\<close>

lemma civil_inj: "civil d = civil d' \<Longrightarrow> d = d'"
  by (auto simp: civil_def Let_def)

lemma sorted_filter_le: "sorted xs \<Longrightarrow> filter (\<lambda>c. c \<le> x) xs = takeWhile (\<lambda>c. c \<le> (x :: int)) xs"
proof (induction xs)
  case (Cons y ys)
  have "filter (\<lambda>c. c \<le> x) ys = []" if "\<not> y \<le> x" unfolding filter_empty_conv using that Cons.prems by auto
  then show ?case using Cons by simp
qed simp

lemma civil_nonneg:
  assumes "0 \<le> d" "civil d = (y, m, day)"
  shows "0 \<le> y" "0 \<le> day"
proof -
  let ?doy = "d - days_before (year_of d)"
  let ?L = "month_days (year_of d)"
  have y: "0 < year_of d" "0 \<le> ?doy" using year_of_le [OF assms(1)] by simp_all
  show "0 \<le> y" using y(1) assms(2) by (auto simp: civil_def Let_def)
  have srt: "sorted ?L" "?L ! 0 = 0" "length ?L = 12" by (auto simp: month_days_def)
  have "?L ! (length (filter (\<lambda>c. c \<le> ?doy) ?L) - 1) \<le> ?doy"
  proof -
    let ?T = "takeWhile (\<lambda>c. c \<le> ?doy) ?L"
    have "?T \<noteq> []" using y(2) srt(2,3) by (cases ?L) auto
    then have "length ?T - 1 < length ?T" by simp
    then have "?T ! (length ?T - 1) = ?L ! (length ?T - 1)" "?T ! (length ?T - 1) \<in> set ?T" by (rule takeWhile_nth, rule nth_mem)
    then show ?thesis unfolding sorted_filter_le [OF srt(1)] by (metis set_takeWhileD)
  qed
  then show "0 \<le> day" using assms(2) by (auto simp: civil_def Let_def)
qed

definition digits_only :: "string \<Rightarrow> bool" where
  "digits_only s \<longleftrightarrow> (\<forall>c \<in> set s. 48 \<le> (of_char c :: nat) \<and> of_char c \<le> (57 :: nat))"

lemma pad_digits [simp]: "digits_only (pad_dec w n)"
proof -
  have "48 \<le> (of_char (CHR ''0'') :: nat)" "of_char (CHR ''0'') \<le> (57 :: nat)" by (simp_all add: of_char_def)
  then show ?thesis using dec_digits_range unfolding digits_only_def pad_dec_def Let_def by (metis Un_iff in_set_replicate set_append)
qed

lemma pad_inj: "pad_dec w m = pad_dec w n \<Longrightarrow> 0 \<le> m \<Longrightarrow> 0 \<le> n \<Longrightarrow> m = n"
proof -
  have zeros: "dec_value (replicate k (CHR ''0'') @ s) = dec_value s" for k s by (induction k) (simp_all add: of_char_def)
  have v: "dec_value (pad_dec w m) = nat m" for m by (simp add: pad_dec_def Let_def zeros dec_value_digits)
  assume "pad_dec w m = pad_dec w n" "0 \<le> m" "0 \<le> n"
  then show "m = n" using v by (metis eq_nat_nat_iff)
qed

lemma digits_sep:
  assumes "digits_only s" "digits_only s'" "s @ c # r = s' @ c # r'" "\<not> digits_only [c]"
  shows "s = s' \<and> r = r'"
  using assms(1-3)
proof (induction s arbitrary: s')
  case Nil
  then show ?case using assms(4) by (cases s') (auto simp: digits_only_def)
next
  case (Cons x s)
  then show ?case using assms(4) by (cases s') (auto simp: digits_only_def)
qed

lemma hms: "c = c div 3600 * 3600 + c div 60 mod 60 * 60 + c mod (60 :: int)"
proof -
  have "c div 3600 = c div 60 div 60" by (simp add: zdiv_zmult2_eq [symmetric])
  moreover have "c div 60 = c div 60 div 60 * 60 + c div 60 mod 60" "c = c div 60 * 60 + c mod 60" by simp_all
  ultimately show ?thesis by linarith
qed

lemma FormatMicro_inj:
  assumes "FormatMicro t = FormatMicro t'" "- epoch_days * 86400 * 1000000000 \<le> t" "- epoch_days * 86400 * 1000000000 \<le> t'"
  shows "t div 1000 = t' div 1000"
proof -
  let ?s = "\<lambda>t :: int. t div 1000 div 1000000" and ?us = "\<lambda>t :: int. t div 1000 mod 1000000"
  obtain y m d y' m' d' where c: "civil (?s t div 86400 + epoch_days) = (y, m, d)" "civil (?s t' div 86400 + epoch_days) = (y', m', d')"
    by (metis prod_cases3)
  have "0 \<le> ?s t div 86400 + epoch_days" if "- epoch_days * 86400 * 1000000000 \<le> t" for t
    using that by (simp add: epoch_days_def)
  then have n: "0 \<le> y" "0 \<le> d" "0 \<le> y'" "0 \<le> d'" using civil_nonneg c assms(2,3) by blast+
  have sep: "\<not> digits_only [CHR ''-'']" "\<not> digits_only [CHR ''T'']" "\<not> digits_only [CHR '':'']" "\<not> digits_only [CHR ''.'']" "\<not> digits_only [CHR ''Z'']"
    by (simp_all add: digits_only_def of_char_def)
  note step = digits_sep [OF pad_digits pad_digits]
  note 1 = step [OF assms(1) [unfolded FormatMicro_def Let_def c prod.case] sep(1)]
  note 2 = step [OF conjunct2 [OF 1] sep(1)]
  note 3 = step [OF conjunct2 [OF 2] sep(2)]
  note 4 = step [OF conjunct2 [OF 3] sep(3)]
  note 5 = step [OF conjunct2 [OF 4] sep(3)]
  note 6 = step [OF conjunct2 [OF 5] sep(4)]
  note 7 = step [OF conjunct2 [OF 6] sep(5)]
  note field = pad_inj [OF conjunct1]
  have date: "y = y'" "m = m'" "d = d'" using field [OF 1 n(1,3)] field [OF 2] field [OF 3 n(2,4)] by simp_all
  have nn: "0 \<le> x mod 86400 div 3600" "0 \<le> x mod 86400 div 60 mod 60" "0 \<le> x mod 86400 mod 60" "0 \<le> x mod 1000000" for x :: int
    by (simp_all add: pos_imp_zdiv_nonneg_iff)
  have time: "?s t mod 86400 div 3600 = ?s t' mod 86400 div 3600" "?s t mod 86400 div 60 mod 60 = ?s t' mod 86400 div 60 mod 60"
      "?s t mod 86400 mod 60 = ?s t' mod 86400 mod 60" "?us t = ?us t'"
    by (rule field [OF 4 nn(1) nn(1)], rule field [OF 5 nn(2) nn(2)], rule field [OF 6 nn(3) nn(3)], rule field [OF 7 nn(4) nn(4)])
  have "civil (?s t div 86400 + epoch_days) = civil (?s t' div 86400 + epoch_days)" by (simp only: c date)
  then have "?s t div 86400 = ?s t' div 86400" by (drule_tac civil_inj) simp
  moreover have "?s t mod 86400 = ?s t' mod 86400" by (subst (1 2) hms) (simp only: time(1-3))
  ultimately have "?s t = ?s t'" by (metis div_mult_mod_eq)
  then show ?thesis using time(4) by (metis div_mult_mod_eq)
qed

end
