(* ===== verification/AuditLog.thy ===== *)
theory AuditLog
  imports GoTime HubIds HubStore "HOL-Library.Sublist"
begin

text \<open>
  The audit log (\<open>internal/audit\<close> with the statements on \<open>audit_log\<close> in
  \<open>internal/store/sqlite/sqlite.go\<close>): every tenant has a chain of entries, each carrying the hash
  of its predecessor and a digest of its own content. Appending, verifying and the retention
  that cuts off the oldest entries. SHA-256 is an argument; random bytes, clocks and the
  archive are arguments of the steps. The table is the list of its rows in the order of
  \<open>rowid\<close>, a \<open>created_at\<close> column is the instant it stores, in microseconds.
\<close>

section \<open>Entries and digests\<close>

record AuditEntry =
  ae_ID :: string
  ae_Action :: string
  ae_Actor :: string
  ae_Detail :: string
  ae_IP :: string
  ae_PrevHash :: string
  ae_Hash :: string
  ae_HashVersion :: int
  ae_CreatedAt :: instant

definition ComputeHash :: "(bytes \<Rightarrow> bytes) \<Rightarrow> AuditEntry \<Rightarrow> string" where
  "ComputeHash sha256 e =
     hex_EncodeToString (sha256 (str_bytes (ae_Action e @ ''|'' @ ae_Actor e @ ''|'' @ ae_Detail e @ ''|'' @ ae_IP e @ ''|'' @ ae_PrevHash e)))"

definition hash_field :: "string \<Rightarrow> string" where
  "hash_field f = dec_digits (length f) @ '':'' @ f @ '';''"

definition hash_fields :: "string \<Rightarrow> AuditEntry \<Rightarrow> string list" where
  "hash_fields tenantID e =
     [''v2'', tenantID, ae_ID e, FormatMicro (ae_CreatedAt e), ae_Action e, ae_Actor e, ae_Detail e, ae_IP e, ae_PrevHash e]"

definition ComputeHashV2 :: "(bytes \<Rightarrow> bytes) \<Rightarrow> string \<Rightarrow> AuditEntry \<Rightarrow> string" where
  "ComputeHashV2 sha256 tenantID e =
     hex_EncodeToString (sha256 (str_bytes (concat (map hash_field (hash_fields tenantID e)))))"

definition micro :: "instant \<Rightarrow> instant" where
  "micro t = t div 1000 * 1000"

definition newEntryID :: "bytes \<Rightarrow> instant \<Rightarrow> string" where
  "newEntryID r now = ''aud-'' @ FormatInt now @ ''-'' @ hex_EncodeToString r"

section \<open>The table\<close>

type_synonym audit_log = "(string \<times> AuditEntry) list"

definition entries :: "string \<Rightarrow> audit_log \<Rightarrow> AuditEntry list" where
  "entries tenantID T = map snd (filter (\<lambda>(t, e). t = tenantID) T)"

text \<open>Unique are the id and the predecessor within a tenant; a row that breaks either is refused.\<close>

definition insertAuditEntry :: "instant \<Rightarrow> string \<Rightarrow> AuditEntry \<Rightarrow> audit_log \<Rightarrow> bool \<times> audit_log" where
  "insertAuditEntry now tenantID a T =
     (let a = (if ae_ID a = [] then a\<lparr>ae_ID := ''aud-'' @ FormatInt now\<rparr> else a);
          a = (if ae_CreatedAt a = zero_time then a\<lparr>ae_CreatedAt := micro now\<rparr> else a)
      in if (\<exists>(t, e) \<in> set T. ae_ID e = ae_ID a \<or> t = tenantID \<and> ae_PrevHash e = ae_PrevHash a) then (False, T)
         else (True, T @ [(tenantID, a)]))"

definition AppendAuditEntry :: "instant \<Rightarrow> string \<Rightarrow> (AuditEntry option \<Rightarrow> AuditEntry) \<Rightarrow> audit_log \<Rightarrow> bool \<times> audit_log" where
  "AppendAuditEntry now tenantID build T =
     (let es = entries tenantID T; prev = (if es = [] then None else Some (last es))
      in insertAuditEntry now tenantID (build prev) T)"

definition ListAuditEntries :: "string \<Rightarrow> int \<Rightarrow> audit_log \<Rightarrow> AuditEntry list" where
  "ListAuditEntries tenantID limit T = (let es = rev (entries tenantID T) in if limit > 0 then take (nat limit) es else es)"

definition ListAuditEntriesBefore :: "string \<Rightarrow> instant \<Rightarrow> audit_log \<Rightarrow> AuditEntry list" where
  "ListAuditEntriesBefore tenantID before T = filter (\<lambda>e. ae_CreatedAt e < col_time before) (entries tenantID T)"

definition DeleteAuditEntriesBefore :: "string \<Rightarrow> instant \<Rightarrow> audit_log \<Rightarrow> audit_log" where
  "DeleteAuditEntriesBefore tenantID before T = filter (\<lambda>(t, e). \<not> (t = tenantID \<and> ae_CreatedAt e < col_time before)) T"

section \<open>Logging and verifying\<close>

definition HashVersionCurrent :: int where "HashVersionCurrent = 2"

definition log_entry :: "(bytes \<Rightarrow> bytes) \<Rightarrow> string \<Rightarrow> string \<Rightarrow> string \<Rightarrow> string \<Rightarrow> string \<Rightarrow> instant \<Rightarrow> bytes \<Rightarrow> AuditEntry option \<Rightarrow> AuditEntry" where
  "log_entry sha256 tenantID action actor detail ip clock r prev =
     (let prevHash = (case prev of None \<Rightarrow> [] | Some p \<Rightarrow> ae_Hash p);
          now = micro clock;
          now = (case prev of None \<Rightarrow> now | Some p \<Rightarrow> if ae_CreatedAt p < now then now else ae_CreatedAt p + 1000);
          e = \<lparr>ae_ID = newEntryID r now, ae_Action = action, ae_Actor = actor, ae_Detail = detail, ae_IP = ip, ae_PrevHash = prevHash,
               ae_Hash = [], ae_HashVersion = HashVersionCurrent, ae_CreatedAt = now\<rparr>
      in e\<lparr>ae_Hash := ComputeHashV2 sha256 tenantID e\<rparr>)"

definition Log :: "(bytes \<Rightarrow> bytes) \<Rightarrow> string \<Rightarrow> string \<Rightarrow> string \<Rightarrow> string \<Rightarrow> string \<Rightarrow> instant \<Rightarrow> bytes \<Rightarrow> audit_log \<Rightarrow> bool \<times> audit_log" where
  "Log sha256 tenantID action actor detail ip clock r T =
     AppendAuditEntry clock tenantID (log_entry sha256 tenantID action actor detail ip clock r) T"

fun verify_from :: "(bytes \<Rightarrow> bytes) \<Rightarrow> string \<Rightarrow> string \<Rightarrow> bool \<Rightarrow> nat \<Rightarrow> AuditEntry list \<Rightarrow> nat \<times> AuditEntry option" where
  "verify_from sha256 tenantID prevHash seenV2 i [] = (i, None)"
| "verify_from sha256 tenantID prevHash seenV2 i (e # es) =
     (if ae_PrevHash e \<noteq> prevHash then (i, Some e)
      else if ae_HashVersion e = 1 then
        (if seenV2 then (i, Some e)
         else if ae_Hash e \<noteq> ComputeHash sha256 e then (i, Some e)
         else verify_from sha256 tenantID (ae_Hash e) seenV2 (i + 1) es)
      else if ae_HashVersion e = 2 then
        (if ae_Hash e \<noteq> ComputeHashV2 sha256 tenantID e then (i, Some e)
         else verify_from sha256 tenantID (ae_Hash e) True (i + 1) es)
      else (i, Some e))"

definition VerifyChain :: "(bytes \<Rightarrow> bytes) \<Rightarrow> string \<Rightarrow> audit_log \<Rightarrow> nat \<times> AuditEntry option" where
  "VerifyChain sha256 tenantID T =
     (let es = rev (ListAuditEntries tenantID 0 T)
      in verify_from sha256 tenantID (case es of [] \<Rightarrow> [] | e # _ \<Rightarrow> ae_PrevHash e) False 0 es)"

section \<open>Retention\<close>

record RetentionConfig =
  rc_RetentionDays :: int
  rc_MinDays :: int
  rc_MaxDays :: int

definition retention_days :: "RetentionConfig \<Rightarrow> int \<Rightarrow> int" where
  "retention_days cfg own =
     (if own \<le> 0 then rc_RetentionDays cfg
      else if rc_MinDays cfg > 0 \<and> own < rc_MinDays cfg then rc_MinDays cfg
      else if rc_MaxDays cfg > 0 \<and> own > rc_MaxDays cfg then rc_MaxDays cfg
      else own)"

text \<open>\<open>sink\<close> is \<open>None\<close> when nothing is archived, or says of a tenant and its entries whether
  the archive took them.\<close>

definition purgeTenant :: "string \<Rightarrow> instant \<Rightarrow> (string \<Rightarrow> AuditEntry list \<Rightarrow> bool) option \<Rightarrow> audit_log \<Rightarrow> audit_log" where
  "purgeTenant tenantID cutoff sink T =
     (let old = ListAuditEntriesBefore tenantID cutoff T
      in case sink of
           None \<Rightarrow> DeleteAuditEntriesBefore tenantID cutoff T
         | Some write \<Rightarrow> if old \<noteq> [] \<and> \<not> write tenantID old then T else DeleteAuditEntriesBefore tenantID cutoff T)"

definition day :: int where "day = 24 * 3600 * 1000000000"

text \<open>The tenants with their own retention, or \<open>None\<close> when the list cannot be read.\<close>

definition purge_targets :: "RetentionConfig \<Rightarrow> (string \<times> int) list option \<Rightarrow> (string \<times> int) list" where
  "purge_targets cfg tenants =
     (case tenants of
        None \<Rightarrow> [(DefaultTenant, rc_RetentionDays cfg)]
      | Some lst \<Rightarrow>
          (DefaultTenant, case rev (filter (\<lambda>(t, own). t = DefaultTenant) lst) of [] \<Rightarrow> rc_RetentionDays cfg | (t, own) # _ \<Rightarrow> retention_days cfg own) #
          map (\<lambda>(t, own). (t, retention_days cfg own)) (filter (\<lambda>(t, own). t \<noteq> DefaultTenant) lst))"

definition purgeAll :: "RetentionConfig \<Rightarrow> (string \<times> int) list option \<Rightarrow> (string \<Rightarrow> AuditEntry list \<Rightarrow> bool) option \<Rightarrow> instant \<Rightarrow> audit_log \<Rightarrow> audit_log" where
  "purgeAll cfg tenants sink now T =
     fold (\<lambda>(t, days) T. if days \<le> 0 then T else purgeTenant t (now - days * day) sink T) (purge_targets cfg tenants) T"


section \<open>Chains\<close>

text \<open>What the walk accepts: every entry carries the hash before it and a digest of itself, and no
  entry of version 1 comes after one of version 2.\<close>

primrec linked :: "(bytes \<Rightarrow> bytes) \<Rightarrow> string \<Rightarrow> string \<Rightarrow> bool \<Rightarrow> AuditEntry list \<Rightarrow> bool" where
  "linked sha256 t p s [] = True"
| "linked sha256 t p s (e # es) \<longleftrightarrow> ae_PrevHash e = p \<and>
     (if ae_HashVersion e = 1 then \<not> s \<and> ae_Hash e = ComputeHash sha256 e
      else ae_HashVersion e = 2 \<and> ae_Hash e = ComputeHashV2 sha256 t e) \<and>
     linked sha256 t (ae_Hash e) (s \<or> ae_HashVersion e = 2) es"

lemma verify_linked:
  "if linked sha256 t p s es then verify_from sha256 t p s i es = (i + length es, None)
   else snd (verify_from sha256 t p s i es) \<noteq> None"
proof (induction es arbitrary: p s i)
  case (Cons e es)
  show ?case using Cons.IH [of "ae_Hash e" s "i + 1"] Cons.IH [of "ae_Hash e" True "i + 1"] by (auto split: if_splits)
qed simp

definition anchor :: "AuditEntry list \<Rightarrow> string" where
  "anchor es = (case es of [] \<Rightarrow> [] | e # _ \<Rightarrow> ae_PrevHash e)"

definition chain_ok :: "(bytes \<Rightarrow> bytes) \<Rightarrow> string \<Rightarrow> AuditEntry list \<Rightarrow> bool" where
  "chain_ok sha256 t es \<longleftrightarrow> linked sha256 t (anchor es) False es"

lemma VerifyChain_iff:
  "VerifyChain sha256 t T = (n, None) \<longleftrightarrow> n = length (entries t T) \<and> chain_ok sha256 t (entries t T)"
proof -
  let ?es = "entries t T"
  have v: "VerifyChain sha256 t T = verify_from sha256 t (anchor ?es) False 0 ?es"
    by (simp add: VerifyChain_def ListAuditEntries_def anchor_def Let_def)
  show ?thesis using verify_linked [of sha256 t "anchor ?es" False ?es 0] unfolding v chain_ok_def by (auto split: if_splits)
qed

lemma linked_weaken: "linked sha256 t p s es \<Longrightarrow> linked sha256 t p False es"
proof (induction es arbitrary: p s)
  case (Cons e es)
  then show ?case by (cases "ae_HashVersion e = 2") auto
qed simp

text \<open>An entry that continues a chain, and the end of a chain.\<close>

lemma linked_append:
  "linked sha256 t p s es \<Longrightarrow> ae_PrevHash e = (if es = [] then p else ae_Hash (last es)) \<Longrightarrow>
   ae_HashVersion e = 2 \<Longrightarrow> ae_Hash e = ComputeHashV2 sha256 t e \<Longrightarrow> linked sha256 t p s (es @ [e])"
  by (induction es arbitrary: p s) auto

lemma anchor_append: "anchor (es @ [e]) = (if es = [] then ae_PrevHash e else anchor es)"
  by (cases es) (simp_all add: anchor_def)

lemma chain_append:
  assumes "chain_ok sha256 t es" "es \<noteq> [] \<Longrightarrow> ae_PrevHash e = ae_Hash (last es)"
    and "ae_HashVersion e = 2" "ae_Hash e = ComputeHashV2 sha256 t e"
  shows "chain_ok sha256 t (es @ [e])"
  using assms unfolding chain_ok_def anchor_append by (cases "es = []") (simp_all add: linked_append)

lemma chain_tail: "chain_ok sha256 t (e # es) \<Longrightarrow> chain_ok sha256 t es"
  by (cases es) (auto simp: chain_ok_def anchor_def dest: linked_weaken)

lemma chain_drop: "chain_ok sha256 t es \<Longrightarrow> chain_ok sha256 t (drop n es)"
proof (induction n arbitrary: es)
  case (Suc n)
  then show ?case by (cases es) (auto intro: chain_tail)
qed simp

section \<open>Every run keeps the chains\<close>

definition audit_inv :: "(bytes \<Rightarrow> bytes) \<Rightarrow> audit_log \<Rightarrow> bool" where
  "audit_inv sha256 T \<longleftrightarrow>
     (\<forall>t. chain_ok sha256 t (entries t T) \<and> sorted_wrt (<) (map ae_CreatedAt (entries t T)))"

datatype audit_step =
    ALog string string string string string instant bytes
  | APurge RetentionConfig "(string \<times> int) list option" "(string \<Rightarrow> AuditEntry list \<Rightarrow> bool) option" instant

fun audit_do :: "(bytes \<Rightarrow> bytes) \<Rightarrow> audit_step \<Rightarrow> audit_log \<Rightarrow> audit_log" where
  "audit_do sha256 (ALog t action actor detail ip clock r) T = snd (Log sha256 t action actor detail ip clock r T)"
| "audit_do sha256 (APurge cfg tenants sink clock) T = purgeAll cfg tenants sink clock T"

lemma entries_append: "entries t (T @ [(u, e)]) = (if t = u then entries t T @ [e] else entries t T)"
  by (simp add: entries_def)

text \<open>A successful \<open>Log\<close> adds one entry to the chain of its tenant.\<close>

lemma Log_result:
  assumes "Log sha256 t action actor detail ip clock r T = (ok, T')" "zero_time + 1000 \<le> clock"
  shows "if ok then \<exists>e. T' = T @ [(t, e)] \<and> ae_PrevHash e = (if entries t T = [] then [] else ae_Hash (last (entries t T))) \<and>
       ae_HashVersion e = 2 \<and> ae_Hash e = ComputeHashV2 sha256 t e \<and> ae_Action e = action \<and> ae_Actor e = actor \<and>
       ae_Detail e = detail \<and> ae_IP e = ip \<and> (entries t T \<noteq> [] \<longrightarrow> ae_CreatedAt (last (entries t T)) < ae_CreatedAt e)
     else T' = T"
proof -
  define prev where "prev = (if entries t T = [] then None else Some (last (entries t T)))"
  define e where "e = log_entry sha256 t action actor detail ip clock r prev"
  have late: "zero_time < micro clock" using assms(2) by (simp add: micro_def zero_time_def)
  then have created: "ae_CreatedAt e \<noteq> zero_time" by (auto simp: e_def log_entry_def Let_def split: option.splits)
  have "ae_ID e \<noteq> []" by (simp add: e_def log_entry_def newEntryID_def Let_def)
  then have "T' = (if ok then T @ [(t, e)] else T)"
    using assms(1) created unfolding Log_def AppendAuditEntry_def insertAuditEntry_def
    by (auto simp: Let_def e_def prev_def split: if_splits)
  moreover have "ae_PrevHash e = (if entries t T = [] then [] else ae_Hash (last (entries t T)))" "ae_HashVersion e = 2"
    "ae_Hash e = ComputeHashV2 sha256 t e" "ae_Action e = action" "ae_Actor e = actor" "ae_Detail e = detail" "ae_IP e = ip"
    "entries t T \<noteq> [] \<longrightarrow> ae_CreatedAt (last (entries t T)) < ae_CreatedAt e"
    by (simp_all add: e_def prev_def log_entry_def Let_def HashVersionCurrent_def ComputeHashV2_def hash_fields_def)
  ultimately show ?thesis by auto
qed

lemma Log_inv:
  assumes "audit_inv sha256 T" "zero_time + 1000 \<le> clock"
  shows "audit_inv sha256 (snd (Log sha256 t action actor detail ip clock r T))"
proof -
  obtain ok T' where L: "Log sha256 t action actor detail ip clock r T = (ok, T')" by fastforce
  note res = Log_result [OF L assms(2)]
  have srt: "sorted_wrt (<) (map ae_CreatedAt (es @ [e]))" if "sorted_wrt (<) (map ae_CreatedAt es)" "es \<noteq> [] \<longrightarrow> ae_CreatedAt (last es) < ae_CreatedAt e" for es e
    using that by (cases es rule: rev_cases) (auto simp: sorted_wrt_append)
  show ?thesis
  proof (cases ok)
    case True
    then obtain e where e: "T' = T @ [(t, e)]" "ae_PrevHash e = (if entries t T = [] then [] else ae_Hash (last (entries t T)))"
        "ae_HashVersion e = 2" "ae_Hash e = ComputeHashV2 sha256 t e" "entries t T \<noteq> [] \<longrightarrow> ae_CreatedAt (last (entries t T)) < ae_CreatedAt e"
      using res by auto
    have inv: "chain_ok sha256 u (entries u T)" "sorted_wrt (<) (map ae_CreatedAt (entries u T))" for u using assms(1) by (simp_all add: audit_inv_def)
    have "chain_ok sha256 t (entries t T @ [e])" by (rule chain_append [OF inv(1)]) (use e(2-4) in simp_all)
    moreover have "sorted_wrt (<) (map ae_CreatedAt (entries t T @ [e]))" by (rule srt [OF inv(2) e(5)])
    ultimately show ?thesis using inv unfolding L snd_conv e(1) audit_inv_def entries_append by auto
  qed (use assms(1) res L in simp)
qed

text \<open>What retention leaves of a chain is its end.\<close>

lemma sorted_filter_drop:
  fixes f :: "'a \<Rightarrow> int"
  shows "sorted_wrt (<) (map f es) \<Longrightarrow> \<exists>n. filter (\<lambda>e. \<not> f e < c) es = drop n es"
proof (induction es)
  case (Cons e es)
  show ?case
  proof (cases "f e < c")
    case True
    then obtain n where "filter (\<lambda>e. \<not> f e < c) es = drop n es" using Cons by auto
    then show ?thesis using True by (intro exI [of _ "Suc n"]) simp
  next
    case False
    then have "filter (\<lambda>e. \<not> f e < c) (e # es) = e # es" using Cons.prems by (auto simp: filter_id_conv)
    then show ?thesis by (intro exI [of _ 0]) simp
  qed
qed simp

lemma entries_Delete: "entries t (DeleteAuditEntriesBefore u before T) =
    (if t = u then filter (\<lambda>e. \<not> ae_CreatedAt e < col_time before) (entries t T) else entries t T)"
  unfolding entries_def DeleteAuditEntriesBefore_def by (induction T) auto

lemma purgeAll_inv:
  assumes "audit_inv sha256 T"
  shows "audit_inv sha256 (purgeAll cfg tenants sink clock T)"
proof -
  have del: "audit_inv sha256 (DeleteAuditEntriesBefore u before T)" if inv: "audit_inv sha256 T" for u before T
    unfolding audit_inv_def entries_Delete
  proof
    fix t
    obtain n where n: "filter (\<lambda>e. \<not> ae_CreatedAt e < col_time before) (entries t T) = drop n (entries t T)"
      using sorted_filter_drop inv unfolding audit_inv_def by blast
    show "chain_ok sha256 t (if t = u then filter (\<lambda>e. \<not> ae_CreatedAt e < col_time before) (entries t T) else entries t T) \<and>
      sorted_wrt (<) (map ae_CreatedAt (if t = u then filter (\<lambda>e. \<not> ae_CreatedAt e < col_time before) (entries t T) else entries t T))"
      using inv chain_drop sorted_wrt_drop unfolding audit_inv_def n by (simp add: drop_map [symmetric])
  qed
  have "audit_inv sha256 (fold (\<lambda>(t, days) T. if days \<le> 0 then T else purgeTenant t (clock - days * day) sink T) xs T)"
    if "audit_inv sha256 T" for xs T
    using that by (induction xs arbitrary: T) (auto simp: purgeTenant_def Let_def del split: option.splits)
  then show ?thesis using assms by (simp add: purgeAll_def)
qed


section \<open>What a digest binds\<close>

lemma hash_field_inj: "hash_field f @ r = hash_field g @ r' \<Longrightarrow> f = g \<and> r = r'"
proof -
  assume "hash_field f @ r = hash_field g @ r'"
  then have eq: "dec_digits (length f) @ CHR '':'' # (f @ CHR '';'' # r) = dec_digits (length g) @ CHR '':'' # (g @ CHR '';'' # r')"
    by (simp add: hash_field_def)
  have d: "digits_only (dec_digits n)" for n using dec_digits_range by (auto simp: digits_only_def)
  have "dec_digits (length f) = dec_digits (length g) \<and> f @ CHR '';'' # r = g @ CHR '';'' # r'"
    by (rule digits_sep [OF d d eq]) (simp add: digits_only_def of_char_def)
  then show ?thesis using append_eq_append_conv [of f g] by auto
qed

lemma hash_fields_inj: "concat (map hash_field fs) = concat (map hash_field gs) \<Longrightarrow> length fs = length gs \<Longrightarrow> fs = gs"
proof (induction fs arbitrary: gs)
  case (Cons f fs)
  then obtain g gs' where gs: "gs = g # gs'" by (cases gs) auto
  show ?case using Cons hash_field_inj [of f "concat (map hash_field fs)" g "concat (map hash_field gs')"] by (simp add: gs)
qed simp

definition preimage :: "string \<Rightarrow> AuditEntry \<Rightarrow> bytes" where
  "preimage t e = str_bytes (concat (map hash_field (hash_fields t e)))"

text \<open>An entry of the current version with a time the log can hold.\<close>

definition current_entry :: "AuditEntry \<Rightarrow> bool" where
  "current_entry e \<longleftrightarrow> ae_HashVersion e = 2 \<and> micro (ae_CreatedAt e) = ae_CreatedAt e \<and> zero_time \<le> ae_CreatedAt e"

lemma digest_binds:
  assumes "current_entry e" "current_entry e'" "preimage t e = preimage t e'" "ae_Hash e = ae_Hash e'"
  shows "e = e'"
proof -
  have f: "hash_fields t e = hash_fields t e'" using assms(3) hash_fields_inj [of "hash_fields t e" "hash_fields t e'"]
    by (simp add: preimage_def hash_fields_def del: concat.simps list.map)
  then have "ae_CreatedAt e div 1000 = ae_CreatedAt e' div 1000"
    using assms(1,2) by (intro FormatMicro_inj) (simp_all add: hash_fields_def current_entry_def zero_time_def epoch_days_def)
  then have "ae_CreatedAt e = ae_CreatedAt e'" using assms(1,2) by (metis current_entry_def micro_def)
  then show ?thesis using f assms(1,2,4) by (simp add: hash_fields_def current_entry_def)
qed

text \<open>Two chains with the same head are the same as far back as both go, or two of their
  entries collide under the hash.\<close>

lemma V2_preimage: "ComputeHashV2 sha256 t e = hex_EncodeToString (sha256 (preimage t e))"
  by (simp only: ComputeHashV2_def preimage_def)

lemma linked_snoc:
  "linked sha256 t p s (es @ [e]) \<Longrightarrow> linked sha256 t p s es \<and> ae_PrevHash e = (if es = [] then p else ae_Hash (last es)) \<and>
   (ae_HashVersion e = 2 \<longrightarrow> ae_Hash e = hex_EncodeToString (sha256 (preimage t e)))"
proof (induction es arbitrary: p s)
  case (Cons x es)
  note x = Cons.prems [unfolded append_Cons linked.simps]
  note IH = Cons.IH [OF conjunct2 [OF conjunct2 [OF x]]]
  have "linked sha256 t p s (x # es)" unfolding linked.simps using x IH by blast
  moreover have "ae_PrevHash e = ae_Hash (last (x # es))" using IH by (metis last.simps)
  ultimately show ?case using IH by (metis list.discI)
next
  case Nil
  then show ?case by (cases "ae_HashVersion e = 2") (simp_all add: V2_preimage)
qed

lemma chains_agree:
  "linked sha256 t p s es \<Longrightarrow> linked sha256 t p' s' es' \<Longrightarrow> es = [] \<or> es' = [] \<or> ae_Hash (last es) = ae_Hash (last es') \<Longrightarrow>
   \<forall>e \<in> set es \<union> set es'. current_entry e \<Longrightarrow> inj_on sha256 (preimage t ` (set es \<union> set es')) \<Longrightarrow> suffix es es' \<or> suffix es' es"
proof (induction es arbitrary: es' rule: rev_induct)
  case (snoc e xs)
  show ?case
  proof (cases es' rule: rev_cases)
    case (snoc ys e')
    note l = linked_snoc [OF snoc.prems(1)] linked_snoc [OF snoc.prems(2) [unfolded snoc]]
    have cur: "current_entry e" "current_entry e'" and hash: "ae_Hash e = ae_Hash e'" using snoc.prems(3,4) snoc by auto
    then have "sha256 (preimage t e) = sha256 (preimage t e')" using l by (metis current_entry_def hex_Decode_Encode option.inject)
    moreover have "preimage t e \<in> preimage t ` (set (xs @ [e]) \<union> set es')" "preimage t e' \<in> preimage t ` (set (xs @ [e]) \<union> set es')"
      unfolding snoc by auto
    ultimately have "preimage t e = preimage t e'" by (rule inj_onD [OF snoc.prems(5)])
    then have e: "e = e'" by (rule digest_binds [OF cur _ hash])
    have "xs = [] \<or> ys = [] \<or> ae_Hash (last xs) = ae_Hash (last ys)" using l e by (metis (full_types))
    moreover have "inj_on sha256 (preimage t ` (set xs \<union> set ys))" by (rule inj_on_subset [OF snoc.prems(5)]) (auto simp: snoc)
    ultimately have "suffix xs ys \<or> suffix ys xs" using snoc.IH [of ys] l snoc.prems(4) snoc by auto
    then show ?thesis by (simp add: snoc e)
  qed simp
qed simp


section \<open>Properties\<close>

definition clocks_ok :: "audit_step list \<Rightarrow> bool" where
  "clocks_ok steps \<longleftrightarrow> list_all (\<lambda>s. case s of ALog t action actor detail ip clock r \<Rightarrow> zero_time + 1000 \<le> clock | _ \<Rightarrow> True) steps"

lemma audit_run_inv: "audit_inv sha256 T \<Longrightarrow> clocks_ok steps \<Longrightarrow> audit_inv sha256 (fold (audit_do sha256) steps T)"
proof (induction steps arbitrary: T)
  case (Cons s steps)
  have "audit_inv sha256 (audit_do sha256 s T)"
    using Cons.prems by (cases s) (auto simp: clocks_ok_def intro: Log_inv purgeAll_inv)
  then show ?case using Cons by (simp add: clocks_ok_def)
qed simp

text \<open>C12: The audit log verifies. Whatever entries the replicas log, with whatever clocks after
  the year 1, and whatever the retention cuts off, with any configuration, tenants and archive
  outcomes: verifying a tenant's chain counts every retained entry and reports no break, and the
  times of its entries strictly increase. It also holds when the log had older entries that
  verified. An accepted entry is the new last one of its tenant, carries what was logged and
  the hash of the entry before it, and changes no other tenant's chain.\<close>

theorem audit_log_verifies:
  assumes "audit_inv sha256 T0" "clocks_ok steps"
  defines "T \<equiv> fold (audit_do sha256) steps T0"
  shows "VerifyChain sha256 t T = (length (entries t T), None) \<and> sorted_wrt (<) (map ae_CreatedAt (entries t T)) \<and>
    (Log sha256 t action actor detail ip clock r T = (True, T') \<and> zero_time + 1000 \<le> clock \<longrightarrow>
      (\<exists>e. entries t T' = entries t T @ [e] \<and> ae_Action e = action \<and> ae_Actor e = actor \<and> ae_Detail e = detail \<and> ae_IP e = ip \<and>
        ae_PrevHash e = (if entries t T = [] then [] else ae_Hash (last (entries t T)))) \<and>
      (\<forall>u. u \<noteq> t \<longrightarrow> entries u T' = entries u T))"
proof -
  have inv: "audit_inv sha256 T" unfolding T_def by (rule audit_run_inv [OF assms(1,2)])
  have "VerifyChain sha256 t T = (length (entries t T), None)" using inv by (simp add: VerifyChain_iff audit_inv_def)
  moreover have "sorted_wrt (<) (map ae_CreatedAt (entries t T))" using inv by (simp add: audit_inv_def)
  ultimately show ?thesis using Log_result [of sha256 t action actor detail ip clock r T True T'] by (auto simp: entries_append)
qed

theorem audit_log_verifies_witness:
  "VerifyChain (\<lambda>b. b) ''t'' (fold (audit_do (\<lambda>b. b)) [ALog ''t'' ''login'' ''ann'' [] [] 1000 [1], ALog ''t'' ''logout'' ''ann'' [] [] 0 [2]] []) =
   (length (entries ''t'' (fold (audit_do (\<lambda>b. b)) [ALog ''t'' ''login'' ''ann'' [] [] 1000 [1], ALog ''t'' ''logout'' ''ann'' [] [] 0 [2]] [])), None)"
  using audit_log_verifies [of "\<lambda>b. b" "[]" "[ALog ''t'' ''login'' ''ann'' [] [] 1000 [1], ALog ''t'' ''logout'' ''ann'' [] [] 0 [2]]" "''t''"]
  by (simp add: audit_inv_def chain_ok_def entries_def clocks_ok_def zero_time_def del: fold_simps)

text \<open>C11: Changes to the audit log show. Take the log as it was and as someone left it, both
  verifying for the tenant and both ending in the same hash, with entries of the current version
  only. If SHA-256 tells the digested texts of these entries apart, one of the two chains is the
  end of the other: no entry was changed, moved, back-dated, inserted or removed
  after the oldest one both have. (Cutting off the oldest entries is what retention does;
  the newest hash has to be known from elsewhere.)\<close>

theorem audit_tamper_evident:
  assumes "VerifyChain sha256 t T = (n, None)" "VerifyChain sha256 t T' = (n', None)"
    and "entries t T \<noteq> []" "entries t T' \<noteq> []" "ae_Hash (last (entries t T)) = ae_Hash (last (entries t T'))"
    and "\<forall>e \<in> set (entries t T) \<union> set (entries t T'). current_entry e"
    and "inj_on sha256 (preimage t ` (set (entries t T) \<union> set (entries t T')))"
  shows "suffix (entries t T) (entries t T') \<or> suffix (entries t T') (entries t T)"
  using assms chains_agree [of sha256 t "anchor (entries t T)" False "entries t T" "anchor (entries t T')" False "entries t T'"]
  by (simp add: VerifyChain_iff chain_ok_def)

definition demo_entry :: AuditEntry where
  "demo_entry = log_entry (\<lambda>b. b) ''t'' ''login'' ''ann'' [] [] 1000 [1] None"

lemma demo_entry_chain: "chain_ok (\<lambda>b. b) ''t'' [demo_entry]" "current_entry demo_entry"
  unfolding chain_ok_def current_entry_def
  by (simp_all add: demo_entry_def log_entry_def anchor_def HashVersionCurrent_def micro_def zero_time_def ComputeHashV2_def hash_fields_def Let_def)

theorem audit_tamper_evident_witness:
  "suffix (entries ''t'' [(''t'', demo_entry)]) (entries ''t'' [(''u'', demo_entry), (''t'', demo_entry)]) \<or>
   suffix (entries ''t'' [(''u'', demo_entry), (''t'', demo_entry)]) (entries ''t'' [(''t'', demo_entry)])"
  by (rule audit_tamper_evident [of "\<lambda>b. b" _ _ 1 _ 1]) (use demo_entry_chain in \<open>simp_all add: VerifyChain_iff entries_def\<close>)

text \<open>Entries of the two versions are not told apart by what is hashed: where the digested text of
  an entry of version 2 has four bars, an entry of version 1 with the same hash can be made of it,
  and alone in the table it verifies.\<close>

lemma old_version_reuses_hash:
  assumes "concat (map hash_field (hash_fields t e)) = action @ ''|'' @ actor @ ''|'' @ detail @ ''|'' @ ip @ ''|'' @ prev"
    and "ae_Hash e = ComputeHashV2 sha256 t e"
  shows "VerifyChain sha256 t [(t, \<lparr>ae_ID = i, ae_Action = action, ae_Actor = actor, ae_Detail = detail, ae_IP = ip,
    ae_PrevHash = prev, ae_Hash = ae_Hash e, ae_HashVersion = 1, ae_CreatedAt = c\<rparr>)] = (1, None)"
  unfolding VerifyChain_iff chain_ok_def entries_def anchor_def
  using assms(2) by (simp add: ComputeHash_def ComputeHashV2_def assms(1) del: append.simps)

end
