(* ===== verification/Smaz.thy ===== *)
theory Smaz
  imports Strings
begin

text \<open>
  Text compression with the Meshtastic SMAZ2 dictionary (\<open>internal/compress/smaz2.go\<close>). The
  compressor walks over the text and writes a word, a pair of letters, a literal or a run
  of verbatim bytes; the decompressor reads them back. The position loop is recursion on the rest
  of the text, the start of the open verbatim run an index into the output as in the source.
\<close>

section \<open>Dictionary\<close>

definition meshtasticBigrams :: bytes where
  "meshtasticBigrams = str_bytes
     ''intherreheanonesorteattistenntartondalitseediseangoulecomeneriroderaioicliofasetvetasihamaecomceelllcaurlachhidihofonsotacnarssoprrtsassusnoiltsemctgeloeebetrnipeiepancpooldaadviunamutwimoshyoaiewowosfiepttmiopiaweagsuiddoooirspplscaywaigeirylytuulivimabty''"

definition meshtasticWords :: "bytes list" where
  "meshtasticWords = map str_bytes
     [''mesh'', ''node'', ''message'', ''channel'', ''signal'', ''radio'', ''frequency'', ''power'', ''antenna'', ''range'',
      ''gateway'', ''relay'', ''bridge'', ''network'', ''packet'', ''payload'', ''status'', ''battery'', ''voltage'',
      ''level'', ''percent'', ''position'', ''latitude'', ''longitude'', ''altitude'', ''heading'', ''speed'', ''distance'',
      ''bearing'', ''elevation'', ''terrain'', ''route'', ''satellite'', ''iridium'', ''modem'', ''serial'', ''port'',
      ''device'', ''sensor'', ''timestamp'', ''meshtastic'', ''location'', ''coordinates'', ''waypoint'', ''temperature'',
      ''humidity'', ''pressure'', ''weather'', ''connected'', ''offline'', ''online'', ''update'', ''received'',
      ''transmitted'', ''error'', ''warning'', ''critical'', ''enabled'', ''disabled'', ''configuration'', ''settings'',
      ''interface'', ''protocol'', ''timeout'', ''emergency'', ''rescue'', ''medical'', ''assistance'', ''helicopter'',
      ''vehicle'', ''boat'', ''shelter'', ''water'', ''food'', ''camp'', ''base'', ''standing'', ''moving'', ''stopped'',
      ''request'', ''respond'', ''acknowledge'', ''confirmed'', ''denied'', ''approved'', ''copy'', ''over'', ''roger'',
      ''affirmative'', ''negative'', ''clear'', ''blocked'', ''north'', ''south'', ''east'', ''west'', ''success'',
      ''failed'', ''pending'', ''queued'', ''delivered'', ''expired'', ''forwarded'', ''dropped'', ''retry'', ''noise'',
      ''interference'', ''coverage'', ''degrees'', ''meters'', ''kilometers'', ''knots'', ''duration'', ''interval'',
      ''threshold'', ''maximum'', ''minimum'', ''average'', ''total'', ''count'', ''report'', ''checksum'', ''baud'',
      ''cellular'', ''satellite'', ''webhook'', ''mqtt'', ''iridium'', ''that'', ''this'', ''with'', ''from'', ''your'',
      ''have'', ''more'', ''will'', ''home'', ''about'', ''time'', ''they'', ''what'', ''which'', ''their'', ''there'',
      ''only'', ''when'', ''here'', ''also'', ''help'', ''been'', ''would'', ''were'', ''some'', ''these'', ''like'',
      ''than'', ''find'', ''back'', ''just'', ''over'', ''into'', ''them'', ''should'', ''then'', ''good'', ''well'',
      ''where'', ''right'', ''high'', ''through'', ''each'', ''very'', ''read'', ''need'', ''many'', ''said'', ''does'',
      ''under'', ''full'', ''part'', ''could'', ''great'', ''send'', ''type'', ''because'', ''local'', ''those'', ''using'',
      ''result'', ''before'', ''make'', ''data'', ''area'', ''want'', ''show'', ''even'', ''check'', ''open'', ''today'',
      ''state'', ''both'', ''down'', ''system'', ''three'', ''total'', ''place'', ''without'', ''access'', ''think'',
      ''current'', ''control'', ''change'', ''small'', ''rate'', ''number'', ''line'', ''name'', ''list'', ''work'',
      ''last'', ''next'', ''used'', ''free'', ''other'', ''first'', ''world'', ''after'', ''best'', ''long'', ''based'',
      ''code'', ''being'', ''while'', ''care'', ''same'', ''found'', ''link'', ''text'', ''site'', ''form'', ''event'',
      ''love'', ''main'', ''still'', ''information'', ''service'', ''people'', ''year'', ''email'', ''group'', ''detail'',
      ''design'', ''board'', ''point'', ''test'', ''track'']"

text \<open>The index built at start-up: of equal words the last one counts.\<close>

definition word_map :: "bytes list \<Rightarrow> bytes \<Rightarrow> nat option" where
  "word_map ws = fold (\<lambda>(i, w) m. m(w \<mapsto> i)) (enumerate 0 ws) Map.empty"

definition meshtasticWordIndex :: "bytes \<Rightarrow> nat option" where
  "meshtasticWordIndex = word_map meshtasticWords"

section \<open>Compression\<close>

text \<open>The longest word at the start of \<open>s\<close> of at least \<open>lo\<close> and at most 40 letters: its length and index.\<close>

definition best_word :: "nat \<Rightarrow> bytes \<Rightarrow> nat \<times> nat" where
  "best_word lo s =
     fold (\<lambda>n (bestLen, bestIdx). case meshtasticWordIndex (take n s) of
         Some idx \<Rightarrow> if n > bestLen then (n, idx) else (bestLen, bestIdx)
       | None \<Rightarrow> (bestLen, bestIdx))
       [lo..<min 40 (length s) + 1] (0, 0)"

definition bigram_at :: "byte \<Rightarrow> byte \<Rightarrow> nat option" where
  "bigram_at b0 b1 =
     List.find (\<lambda>i. meshtasticBigrams ! (2 * i) = b0 \<and> meshtasticBigrams ! (2 * i + 1) = b1) [0..<length meshtasticBigrams div 2]"

text \<open>What one round of the loop does: how far it moves on and what it writes. A byte that is
  neither literal nor part of a word or a pair is \<open>Verbatim\<close>.\<close>

datatype token = Emit nat bytes | Verbatim byte

definition next_token :: "bytes \<Rightarrow> token" where
  "next_token s =
     (let spaced = (if s ! 0 = 32 \<and> 1 < length s then best_word 0 (drop 1 s) else (0, 0))
      in if fst spaced \<ge> 4 then Emit (1 + fst spaced) [8, of_nat (snd spaced)]
         else let w = best_word 4 s
         in if fst w \<ge> 4 then
              (if fst w < length s \<and> s ! fst w = 32 then Emit (fst w + 1) [7, of_nat (snd w)] else Emit (fst w) [6, of_nat (snd w)])
            else case (if 1 < length s then bigram_at (s ! 0) (s ! 1) else None) of
              Some i \<Rightarrow> Emit 2 [0x80 OR of_nat i]
            | None \<Rightarrow> let ch = s ! 0 in if ch = 0 \<or> ch \<ge> 9 \<and> ch < 128 then Emit 1 [ch] else Verbatim ch)"

lemma next_token_pos: "next_token s = Emit n out \<Longrightarrow> 0 < n"
  by (auto simp: next_token_def Let_def split: if_splits option.splits)

function compress_loop :: "bytes \<Rightarrow> bytes \<Rightarrow> nat option \<Rightarrow> bytes" where
  "compress_loop s dst verbatimStart =
     (if s = [] then dst
      else case next_token s of
        Emit n out \<Rightarrow> compress_loop (drop n s) (dst @ out) None
      | Verbatim ch \<Rightarrow>
          (case verbatimStart of
             Some v \<Rightarrow> if dst ! v < 5
                       then let dst = dst[v := dst ! v + 1] @ [ch]
                            in compress_loop (drop 1 s) dst (if dst ! v = 5 then None else Some v)
                       else compress_loop (drop 1 s) (dst @ [1, ch]) (Some (length dst))
           | None \<Rightarrow> compress_loop (drop 1 s) (dst @ [1, ch]) (Some (length dst))))"
  by pat_completeness auto
termination
proof (relation "measure (\<lambda>(s, dst, v). length s)")
  fix s dst :: bytes and v n out assume "s \<noteq> []" "next_token s = Emit n out"
  then show "((drop n s, dst @ out, None), (s, dst, v)) \<in> measure (\<lambda>(s, dst, v). length s)" using next_token_pos by simp
qed simp_all

declare compress_loop.simps [simp del]

definition Compress :: "bytes \<Rightarrow> bytes" where
  "Compress data = (if data = [] then [] else compress_loop data [] None)"

section \<open>Decompression\<close>

datatype smaz_err = BigramRange | VerbatimOverflow | EscapeAtEnd | WordRange

definition word_after :: "bytes \<Rightarrow> smaz_err + bytes" where
  "word_after c =
     (if length c < 2 then Inl EscapeAtEnd
      else if unat (c ! 1) \<ge> length meshtasticWords then Inl WordRange
      else Inr (meshtasticWords ! unat (c ! 1)))"

text \<open>One round: the bytes it appends and how far it moves on.\<close>

definition decode_step :: "bytes \<Rightarrow> smaz_err + bytes \<times> nat" where
  "decode_step c =
     (let b = c ! 0
      in if b \<ge> 128 then
           (let idx = unat (b AND 0x7F)
            in if idx * 2 + 1 \<ge> length meshtasticBigrams then Inl BigramRange
               else Inr ([meshtasticBigrams ! (idx * 2), meshtasticBigrams ! (idx * 2 + 1)], 1))
         else if b \<ge> 1 \<and> b \<le> 5 then
           (if 1 + unat b > length c then Inl VerbatimOverflow else Inr (slice 1 (1 + unat b) c, 1 + unat b))
         else if b = 6 then (case word_after c of Inl e \<Rightarrow> Inl e | Inr w \<Rightarrow> Inr (w, 2))
         else if b = 7 then (case word_after c of Inl e \<Rightarrow> Inl e | Inr w \<Rightarrow> Inr (w @ [32], 2))
         else if b = 8 then (case word_after c of Inl e \<Rightarrow> Inl e | Inr w \<Rightarrow> Inr (32 # w, 2))
         else Inr ([b], 1))"

lemma decode_step_pos: "decode_step c = Inr (out, n) \<Longrightarrow> 0 < n"
  by (auto simp: decode_step_def Let_def split: if_splits sum.splits)

function decompress_loop :: "bytes \<Rightarrow> bytes \<Rightarrow> smaz_err + bytes" where
  "decompress_loop c res =
     (if c = [] then Inr res
      else case decode_step c of
        Inl e \<Rightarrow> Inl e
      | Inr (out, n) \<Rightarrow> decompress_loop (drop n c) (res @ out))"
  by pat_completeness auto
termination
proof (relation "measure (\<lambda>(c, res). length c)")
  fix c res :: bytes and p out n assume "c \<noteq> []" "decode_step c = Inr p" "(out, n) = p"
  then show "((drop n c, res @ out), (c, res)) \<in> measure (\<lambda>(c, res). length c)" using decode_step_pos [of c out n] by auto
qed simp

declare decompress_loop.simps [simp del]

definition Decompress :: "bytes \<Rightarrow> smaz_err + bytes" where
  "Decompress data = (if data = [] then Inr [] else decompress_loop data [])"

section \<open>The default table\<close>

text \<open>The default table is that of a library (\<open>cmp\<close> and \<open>dec\<close>); the hub writes the bytes 1 to 8,
  which the library would write as escapes, as runs of their own.\<close>

definition control :: "byte \<Rightarrow> bool" where
  "control b \<longleftrightarrow> 0x01 \<le> b \<and> b \<le> 0x08"

fun default_loop :: "(bytes \<Rightarrow> bytes) \<Rightarrow> bytes \<Rightarrow> bytes \<Rightarrow> bytes \<Rightarrow> bytes" where
  "default_loop cmp [] seg out = (if seg = [] then out else out @ cmp seg)"
| "default_loop cmp (b # data) seg out =
     (if control b then default_loop cmp data [] (out @ (if seg = [] then [] else cmp seg) @ [0x01, b])
      else default_loop cmp data (seg @ [b]) out)"

definition CompressDefault :: "(bytes \<Rightarrow> bytes) \<Rightarrow> bytes \<Rightarrow> bytes" where
  "CompressDefault cmp data = (if data = [] then [] else default_loop cmp data [] [])"

definition DecompressDefault :: "(bytes \<Rightarrow> 'e + bytes) \<Rightarrow> bytes \<Rightarrow> 'e + bytes" where
  "DecompressDefault dec data = (if data = [] then Inr [] else dec data)"

text \<open>With a library that reads back what it wrote before other output, and a run of one byte, the
  hub's variant is lossless too.\<close>

lemma default_roundtrip:
  assumes "dec [] = Inr []"
    and seg: "\<And>a rest x. a \<noteq> [] \<Longrightarrow> list_all (\<lambda>b. \<not> control b) a \<Longrightarrow> dec rest = Inr x \<Longrightarrow> dec (cmp a @ rest) = Inr (a @ x)"
    and one: "\<And>b rest x. dec rest = Inr x \<Longrightarrow> dec (0x01 # b # rest) = Inr (b # x)"
  shows "DecompressDefault dec (CompressDefault cmp data) = Inr data"
proof -
  have out: "default_loop cmp data seg out = out @ default_loop cmp data seg []" for data seg out
  proof (induction data arbitrary: seg out)
    case (Cons b data)
    show ?case
    proof (cases "control b")
      case True
      show ?thesis unfolding default_loop.simps(2) if_P [OF True]
        by (subst (1 2) Cons.IH) simp
    next
      case False
      show ?thesis unfolding default_loop.simps(2) if_not_P [OF False] by (rule Cons.IH)
    qed
  qed simp
  have d: "dec (default_loop cmp data seg []) = Inr (seg @ data)" if "list_all (\<lambda>b. \<not> control b) seg" for data seg
    using that
  proof (induction data arbitrary: seg)
    case Nil
    then show ?case using assms(1) assms(2) [of seg "[]"] by simp
  next
    case (Cons b data)
    have tail: "dec (default_loop cmp data [] []) = Inr data" using Cons.IH [of "[]"] by simp
    show ?case
    proof (cases "control b")
      case True
      then show ?thesis
        using Cons.prems assms(2) [of seg, OF _ Cons.prems one [OF tail]] one [OF tail]
        by (subst default_loop.simps, subst out) auto
    next
      case False
      then show ?thesis using Cons.IH [of "seg @ [b]"] Cons.prems by simp
    qed
  qed
  show ?thesis using d [of "[]" data] assms(1) by (auto simp: DecompressDefault_def CompressDefault_def)
qed

section \<open>The dictionary is read back\<close>

lemma dict_size: "length meshtasticWords = 256" "length meshtasticBigrams = 256"
  by (simp_all add: meshtasticWords_def meshtasticBigrams_def)

lemma word_map_SomeD: "word_map ws w = Some i \<Longrightarrow> i < length ws \<and> ws ! i = w"
proof -
  have "fold (\<lambda>(i, w) m. m(w \<mapsto> i)) (enumerate k ws) m w = Some i \<Longrightarrow>
      m w = Some i \<or> k \<le> i \<and> i < k + length ws \<and> ws ! (i - k) = w" for k and m :: "bytes \<Rightarrow> nat option"
  proof (induction ws arbitrary: k m)
    case (Cons x ws)
    have "(m(x \<mapsto> k)) w = Some i \<or> Suc k \<le> i \<and> i < Suc k + length ws \<and> ws ! (i - Suc k) = w"
      by (rule Cons.IH) (use Cons.prems in \<open>simp only: enumerate_simps fold_simps prod.case\<close>)
    then consider "x = w" "k = i" | "m w = Some i" | "Suc k \<le> i" "i < Suc k + length ws" "ws ! (i - Suc k) = w" by (auto split: if_splits)
    then show ?case
    proof cases
      case 3
      then have "i - k = Suc (i - Suc k)" by simp
      then show ?thesis using 3 by simp
    qed simp_all
  qed simp
  from this [of 0 Map.empty] show "word_map ws w = Some i \<Longrightarrow> i < length ws \<and> ws ! i = w" by (simp add: word_map_def)
qed

lemma best_word:
  assumes "best_word lo s = (n, i)" "4 \<le> n"
  shows "n \<le> length s" "i < 256" "meshtasticWords ! i = take n s"
proof -
  define P where "P = (\<lambda>(n, i). n = 0 \<or> n \<le> length s \<and> i < 256 \<and> meshtasticWords ! i = take n s)"
  have "P (fold (\<lambda>n (bestLen, bestIdx). case meshtasticWordIndex (take n s) of
         Some idx \<Rightarrow> if n > bestLen then (n, idx) else (bestLen, bestIdx) | None \<Rightarrow> (bestLen, bestIdx)) ns b)"
    if "\<forall>n \<in> set ns. n \<le> length s" "P b" for ns b
    using that
  proof (induction ns arbitrary: b)
    case (Cons n ns)
    have "P (case b of (bestLen, bestIdx) \<Rightarrow> case meshtasticWordIndex (take n s) of
         Some idx \<Rightarrow> if n > bestLen then (n, idx) else (bestLen, bestIdx) | None \<Rightarrow> (bestLen, bestIdx))"
      using Cons.prems word_map_SomeD [of meshtasticWords "take n s"]
      by (auto simp: P_def meshtasticWordIndex_def dict_size split: prod.splits option.splits)
    then show ?case using Cons.IH Cons.prems(1) by (simp add: split_beta)
  qed simp
  moreover have "\<forall>n \<in> set [lo..<min 40 (length s) + 1]. n \<le> length s" "P (0, 0)" by (auto simp: P_def)
  ultimately have "P (n, i)" unfolding assms(1) [unfolded best_word_def, symmetric] by blast
  then show "n \<le> length s" "i < 256" "meshtasticWords ! i = take n s" using assms(2) by (auto simp: P_def)
qed


section \<open>Tokens decode to what they stand for\<close>

lemma bigram_index:
  assumes "i < 128"
  shows "128 \<le> (0x80 OR of_nat i :: byte)" "unat ((0x80 OR of_nat i :: byte) AND 0x7F) = i"
proof -
  have "list_all (\<lambda>i. 128 \<le> (0x80 OR of_nat i :: byte) \<and> unat ((0x80 OR of_nat i :: byte) AND 0x7F) = i) [0..<128]" by code_simp
  then show "128 \<le> (0x80 OR of_nat i :: byte)" "unat ((0x80 OR of_nat i :: byte) AND 0x7F) = i" using assms by (auto simp: list_all_iff)
qed

lemma bigram_at_SomeD:
  assumes "bigram_at b0 b1 = Some i"
  shows "i < 128" "meshtasticBigrams ! (i * 2) = b0" "meshtasticBigrams ! (i * 2 + 1) = b1"
  using assms by (auto simp: bigram_at_def find_Some_iff dict_size mult.commute)

lemma decode_word:
  assumes "i < 256"
  shows "decode_step (6 # of_nat i # rest) = Inr (meshtasticWords ! i, 2)"
    "decode_step (7 # of_nat i # rest) = Inr (meshtasticWords ! i @ [32], 2)"
    "decode_step (8 # of_nat i # rest) = Inr (32 # meshtasticWords ! i, 2)"
  using assms by (simp_all add: decode_step_def word_after_def dict_size Let_def)

lemma take_2: "1 < length s \<Longrightarrow> take 2 s = [s ! 0, s ! 1]"
  by (cases s; cases "tl s") (auto simp: numeral_2_eq_2)

definition stands_for :: "bytes \<Rightarrow> bytes \<Rightarrow> bool" where
  "stands_for out x \<longleftrightarrow> out \<noteq> [] \<and> length out \<le> 2 * length x \<and> (\<forall>rest. decode_step (out @ rest) = Inr (x, length out))"

lemma next_token_decodes:
  assumes "s \<noteq> []" "next_token s = Emit n out"
  shows "n \<le> length s \<and> stands_for out (take n s)"
proof -
  obtain n1 i1 where sp: "(if s ! 0 = 32 \<and> 1 < length s then best_word 0 (drop 1 s) else (0, 0)) = (n1, i1)" by fastforce
  obtain n2 i2 where w: "best_word 4 s = (n2, i2)" by fastforce
  define bg where "bg = (if 1 < length s then bigram_at (s ! 0) (s ! 1) else None)"
  note eq = assms(2) [unfolded next_token_def sp w Let_def fst_conv snd_conv bg_def [symmetric]]
  consider (spaced) "4 \<le> n1" | (word) "\<not> 4 \<le> n1" "4 \<le> n2" | (bigram) i where "\<not> 4 \<le> n1" "\<not> 4 \<le> n2" "bg = Some i"
    | (literal) "\<not> 4 \<le> n1" "\<not> 4 \<le> n2" "bg = None" by (cases bg) auto
  then show ?thesis
  proof cases
    case spaced
    then have s: "s ! 0 = 32" "1 < length s" "best_word 0 (drop 1 s) = (n1, i1)" using sp by (auto split: if_splits)
    note b = best_word [OF s(3) spaced]
    have "take (1 + n1) s = 32 # take n1 (drop 1 s)" using s(1) assms(1) by (cases s) simp_all
    then show ?thesis using eq spaced b s(2) decode_word(3) [OF b(2)] by (auto simp: stands_for_def)
  next
    case word
    note b = best_word [OF w word(2)]
    have "take (n2 + 1) s = take n2 s @ [s ! n2]" if "n2 < length s" using that by (simp add: take_Suc_conv_app_nth)
    then show ?thesis using eq word b decode_word(1,2) [OF b(2)] by (auto simp: stands_for_def split: if_splits)
  next
    case (bigram i)
    then have b: "1 < length s" "bigram_at (s ! 0) (s ! 1) = Some i" by (auto simp: bg_def split: if_splits)
    note i = bigram_at_SomeD [OF b(2)]
    show ?thesis using eq bigram i b(1) bigram_index [OF i(1)]
      by (auto simp: stands_for_def take_2 decode_step_def dict_size Let_def)
  next
    case literal
    then have "n = 1" "out = [s ! 0]" "s ! 0 = 0 \<or> 9 \<le> s ! 0 \<and> s ! 0 < 128" using eq by (auto split: if_splits)
    moreover have "take 1 s = [s ! 0]" using assms(1) by (cases s) simp_all
    ultimately show ?thesis using assms(1)
      by (auto simp: stands_for_def decode_step_def Let_def Suc_le_eq word_le_nat_alt word_less_nat_alt)
  qed
qed


section \<open>Round trip\<close>

definition decodes :: "bytes \<Rightarrow> bytes \<Rightarrow> bool" where
  "decodes d x \<longleftrightarrow> (\<forall>rest res. decompress_loop (d @ rest) res = decompress_loop rest (res @ x))"

lemma decodes_append: "decodes d x \<Longrightarrow> decodes e y \<Longrightarrow> decodes (d @ e) (x @ y)"
  by (simp add: decodes_def)

lemma stands_for_decodes: "stands_for out x \<Longrightarrow> decodes out x"
  unfolding decodes_def stands_for_def by (subst decompress_loop.simps) simp

lemma decodes_run:
  assumes "1 \<le> length run" "length run \<le> 5"
  shows "decodes (of_nat (length run) # run) run"
proof -
  have "unat (of_nat (length run) :: byte) = length run" using assms by simp
  then have "decode_step (of_nat (length run) # run @ rest) = Inr (run, Suc (length run))" for rest
    using assms by (auto simp: decode_step_def Let_def word_le_nat_alt slice_def)
  then show ?thesis unfolding decodes_def by (subst decompress_loop.simps) simp
qed

text \<open>The output so far: decoded up to an open run, whose count and bytes stand at its end.\<close>

definition written :: "bytes \<Rightarrow> bytes \<Rightarrow> nat option \<Rightarrow> bool" where
  "written x dst v \<longleftrightarrow> (case v of None \<Rightarrow> decodes dst x
     | Some k \<Rightarrow> \<exists>d run x0. dst = d @ of_nat (length run) # run \<and> k = length d \<and> 1 \<le> length run \<and> length run \<le> 4 \<and> decodes d x0 \<and> x = x0 @ run)"

lemma written_decodes: "written x dst v \<Longrightarrow> decodes dst x"
proof (cases v)
  case (Some k)
  assume "written x dst v"
  then obtain d run x0 where r: "dst = d @ of_nat (length run) # run" "1 \<le> length run" "length run \<le> 4" "decodes d x0" "x = x0 @ run"
    unfolding written_def Some by auto
  then show ?thesis using decodes_append [OF r(4) decodes_run] by simp
qed (simp add: written_def)

lemma written_new: "decodes dst x \<Longrightarrow> written (x @ [ch]) (dst @ [1, ch]) (Some (length dst))"
  unfolding written_def option.case by (rule exI [of _ dst], rule exI [of _ "[ch]"], rule exI [of _ x]) simp

lemma written_more:
  fixes ch :: byte
  assumes "written x dst (Some k)"
  defines "dst' \<equiv> dst[k := dst ! k + 1] @ [ch]"
  shows "dst ! k < 5" "written (x @ [ch]) dst' (if dst' ! k = 5 then None else Some k)"
proof -
  obtain d run x0 where r: "dst = d @ of_nat (length run) # run" "k = length d" "1 \<le> length run" "length run \<le> 4" "decodes d x0" "x = x0 @ run"
    using assms(1) unfolding written_def by auto
  then have dst': "dst' = d @ of_nat (length (run @ [ch])) # (run @ [ch])" by (simp add: dst'_def add.commute)
  have n: "unat (of_nat (length (run @ [ch])) :: byte) = length run + 1" using r(4) by (simp only: unat_of_nat_byte) simp
  show "dst ! k < 5" using r by (simp add: word_less_nat_alt)
  show "written (x @ [ch]) dst' (if dst' ! k = 5 then None else Some k)"
  proof (cases "length run = 4")
    case True
    then have "dst' ! k = 5" using dst' r(2) by simp
    then show ?thesis using decodes_append [OF r(5) decodes_run [of "run @ [ch]"]] True dst' r(6) by (simp add: written_def)
  next
    case False
    have "dst' ! k = of_nat (length (run @ [ch]))" using dst' r(2) by simp
    then have "unat (dst' ! k) \<noteq> 5" using n False by (simp only:)
    then have "dst' ! k \<noteq> 5" by auto
    moreover have "written (x @ [ch]) dst' (Some k)" unfolding written_def dst' option.case
      by (rule exI [of _ d], rule exI [of _ "run @ [ch]"], rule exI [of _ x0]) (use False r in auto)
    ultimately show ?thesis by simp
  qed
qed


lemma compress_loop_written:
  "written x dst v \<Longrightarrow> decodes (compress_loop s dst v) (x @ s) \<and> length (compress_loop s dst v) \<le> length dst + 2 * length s"
proof (induction s arbitrary: x dst v rule: length_induct)
  case (1 s)
  let ?P = "\<lambda>s x dst v. decodes (compress_loop s dst v) (x @ s) \<and> length (compress_loop s dst v) \<le> length dst + 2 * length s"
  have step: "?P s x dst v" if "s = c @ s'" "c \<noteq> []" "written (x @ c) dst' v'" "length dst' \<le> length dst + 2 * length c"
      "compress_loop s dst v = compress_loop s' dst' v'" for c s' dst' v'
  proof -
    have "length s' < length s" using that(1,2) by simp
    then have "?P s' (x @ c) dst' v'" using "1.IH" that(3) by blast
    then show ?thesis using that by simp
  qed
  show ?case
  proof (cases "s = []")
    case True
    then show ?thesis using written_decodes [OF "1.prems"] by (simp add: compress_loop.simps)
  next
    case s: False
    show ?thesis
    proof (cases "next_token s")
      case (Emit n out)
      note t = next_token_decodes [OF s Emit]
      have w: "written (x @ take n s) (dst @ out) None"
        using decodes_append [OF written_decodes [OF "1.prems"] stands_for_decodes] t by (simp add: written_def)
      show ?thesis by (rule step [of "take n s" "drop n s", OF _ _ w])
        (use t s Emit next_token_pos [OF Emit] in \<open>auto simp: stands_for_def compress_loop.simps [of s]\<close>)
    next
      case (Verbatim ch)
      have ch: "s = [ch] @ drop 1 s"
        using s Verbatim by (cases s) (auto simp: next_token_def Let_def split: if_splits option.splits)
      show ?thesis
      proof (cases v)
        case None
        show ?thesis by (rule step [OF ch _ written_new [OF written_decodes [OF "1.prems"]]])
          (use s Verbatim None in \<open>simp_all add: compress_loop.simps [of s]\<close>)
      next
        case (Some k)
        have m: "dst ! k < 5" "written (x @ [ch]) (dst[k := dst ! k + 1] @ [ch]) (if (dst[k := dst ! k + 1] @ [ch]) ! k = 5 then None else Some k)"
          using written_more(1,2) "1.prems" unfolding Some by blast+
        show ?thesis by (rule step [OF ch _ m(2)])
          (use s Verbatim Some m(1) in \<open>simp_all add: compress_loop.simps [of s] Let_def\<close>)
      qed
    qed
  qed
qed

text \<open>C21: Compression is lossless and bounded. What \<open>Compress\<close> writes \<open>Decompress\<close> reads back,
  byte for byte and without an error, for every input: words, pairs, literals, control and high
  bytes and runs of any length. The output is at most twice as long as the input.\<close>

theorem smaz_roundtrip: "Decompress (Compress data) = Inr data \<and> length (Compress data) \<le> 2 * length data"
proof (cases "data = []")
  case False
  have "written [] [] None" by (simp add: written_def decodes_def)
  then have c: "decodes (Compress data) data" "length (Compress data) \<le> 2 * length data"
    using compress_loop_written [of "[]" "[]" None data] False by (simp_all add: Compress_def)
  have "decompress_loop (Compress data @ []) [] = decompress_loop [] ([] @ data)" using c(1) unfolding decodes_def by blast
  then have d: "decompress_loop (Compress data) [] = Inr data" by (simp add: decompress_loop.simps)
  then have "Compress data \<noteq> []" using False by (auto simp: decompress_loop.simps)
  then show ?thesis using d c(2) by (simp add: Decompress_def)
qed (simp add: Compress_def Decompress_def)

end
