(* ===== verification/MsgPack.thy ===== *)
theory MsgPack
  imports Prelude "HOL-Library.Sublist"
begin

text \<open>
  The MessagePack codec (\<open>internal/msgpack\<close>) that LXMF and Reticulum values travel in. A \<open>Value\<close>
  is a tree; floats are their 64 bits (a signalling NaN widens to the quiet one), texts and binaries their bytes. The decoder's position is
  the rest of the input. Its loops over arrays and maps recurse on that rest, which every value
  shortens; the guards that say so are shown to hold always.
\<close>

section \<open>Values\<close>

datatype Value =
    VNil
  | VBool bool
  | VInt int
  | VUint "64 word"
  | VFloat "64 word"
  | VStr bytes
  | VBin bytes
  | VArray "Value list"
  | VMap "(Value \<times> Value) list"
  | VExt bytes

definition mp_Int :: "int \<Rightarrow> Value" where
  "mp_Int i = (if i \<ge> 0 then VUint (of_int i) else VInt i)"

fun AsInt :: "Value \<Rightarrow> int option" where
  "AsInt (VInt i) = Some i"
| "AsInt (VUint u) = (if u \<le> 0x7FFFFFFFFFFFFFFF then Some (uint u) else None)"
| "AsInt v = None"

text \<open>\<open>float64\<close> of an integer below \<open>2 ^ 64\<close>, on the bits: to the nearest, ties to even. The leading one
  of \<open>m\<close> carries into the exponent.\<close>

definition float_of_nat :: "nat \<Rightarrow> 64 word" where
  "float_of_nat n =
     (if n = 0 then 0
      else let e = the (List.find (\<lambda>k. 2 ^ k \<le> n) (rev [0..<64]));
               m = (if e \<le> 52 then n * 2 ^ (52 - e)
                    else let q = n div 2 ^ (e - 52); r = n mod 2 ^ (e - 52); half = 2 ^ (e - 53)
                         in if r > half \<or> r = half \<and> odd q then q + 1 else q)
      in of_nat ((e + 1022) * 2 ^ 52 + m))"

definition float_of_int :: "int \<Rightarrow> 64 word" where
  "float_of_int i = (if i < 0 then 0x8000000000000000 OR float_of_nat (nat (- i)) else float_of_nat (nat i))"

fun AsFloat :: "Value \<Rightarrow> 64 word option" where
  "AsFloat (VFloat f) = Some f"
| "AsFloat (VInt i) = Some (float_of_int i)"
| "AsFloat (VUint u) = Some (float_of_int (uint u))"
| "AsFloat v = None"

fun mp_Get :: "Value \<Rightarrow> int \<Rightarrow> Value option" where
  "mp_Get (VMap kvs) key = map_option snd (List.find (\<lambda>(k, v). AsInt k = Some key) kvs)"
| "mp_Get v key = None"

section \<open>Encoding\<close>

text \<open>Headers of things that have a length: the short form below \<open>fix\<close>, then those of one, two and four bytes.\<close>

definition str_header :: "nat \<Rightarrow> bytes" where
  "str_header n = (if n < 32 then [0xA0 OR of_nat n] else if n < 2 ^ 8 then [0xD9, of_nat n]
     else if n < 2 ^ 16 then 0xDA # put_u16_be (of_nat n) else 0xDB # put_u32_be (of_nat n))"

definition bin_header :: "nat \<Rightarrow> bytes" where
  "bin_header n = (if n < 2 ^ 8 then [0xC4, of_nat n] else if n < 2 ^ 16 then 0xC5 # put_u16_be (of_nat n) else 0xC6 # put_u32_be (of_nat n))"

definition array_header :: "nat \<Rightarrow> bytes" where
  "array_header n = (if n < 16 then [0x90 OR of_nat n] else if n < 2 ^ 16 then 0xDC # put_u16_be (of_nat n) else 0xDD # put_u32_be (of_nat n))"

definition map_header :: "nat \<Rightarrow> bytes" where
  "map_header n = (if n < 16 then [0x80 OR of_nat n] else if n < 2 ^ 16 then 0xDE # put_u16_be (of_nat n) else 0xDF # put_u32_be (of_nat n))"

definition pack_uint :: "64 word \<Rightarrow> bytes" where
  "pack_uint u = (if u < 128 then [ucast u] else if u < 2 ^ 8 then [0xCC, ucast u] else if u < 2 ^ 16 then 0xCD # put_u16_be (ucast u)
     else if u < 2 ^ 32 then 0xCE # put_u32_be (ucast u) else 0xCF # put_u64_be u)"

definition pack_int :: "int \<Rightarrow> bytes" where
  "pack_int i = (if i \<ge> 0 then pack_uint (of_int i) else if i \<ge> -32 then [of_int i] else if i \<ge> - (2 ^ 7) then [0xD0, of_int i]
     else if i \<ge> - (2 ^ 15) then 0xD1 # put_u16_be (of_int i) else if i \<ge> - (2 ^ 31) then 0xD2 # put_u32_be (of_int i)
     else 0xD3 # put_u64_be (of_int i))"

fun appendValue :: "bytes \<Rightarrow> Value \<Rightarrow> bytes" where
  "appendValue out VNil = out @ [0xC0]"
| "appendValue out (VBool b) = out @ [if b then 0xC3 else 0xC2]"
| "appendValue out (VUint u) = out @ pack_uint u"
| "appendValue out (VInt i) = out @ pack_int i"
| "appendValue out (VFloat f) = out @ 0xCB # put_u64_be f"
| "appendValue out (VStr s) = out @ str_header (length s) @ s"
| "appendValue out (VBin b) = out @ bin_header (length b) @ b"
| "appendValue out (VArray vs) = fold (\<lambda>e out. appendValue out e) vs (out @ array_header (length vs))"
| "appendValue out (VMap kvs) = fold (\<lambda>(k, v) out. appendValue (appendValue out k) v) kvs (out @ map_header (length kvs))"
| "appendValue out (VExt e) = out @ e"

definition Pack :: "Value \<Rightarrow> bytes" where
  "Pack v = appendValue [] v"

section \<open>Decoding\<close>

datatype mp_err = ErrMsgpack | UnsupportedType byte

definition need :: "nat \<Rightarrow> bytes \<Rightarrow> mp_err + bytes \<times> bytes" where
  "need n b = (if n > length b then Inl ErrMsgpack else Inr (take n b, drop n b))"

definition num :: "bytes \<Rightarrow> 64 word" where
  "num b = foldl (\<lambda>u c. push_bit 8 u OR ucast c) 0 b"

definition mp_length :: "nat \<Rightarrow> bytes \<Rightarrow> mp_err + nat \<times> bytes" where
  "mp_length sz b = (case need (2 ^ sz) b of
       Inl e \<Rightarrow> Inl e
     | Inr (x, rest) \<Rightarrow> if num x > 2 ^ 31 then Inl ErrMsgpack else Inr (unat (num x), rest))"

text \<open>\<open>float64\<close> of a \<open>float32\<close>, on the bits.\<close>

definition widen :: "32 word \<Rightarrow> 64 word" where
  "widen f =
     (let sign = push_bit 32 (ucast (f AND 0x80000000)) :: 64 word; ex = unat (drop_bit 23 f AND 0xFF); mant = f AND 0x7FFFFF
      in if ex = 255 then sign OR 0x7FF0000000000000 OR push_bit 29 (ucast mant) OR (if mant = 0 then 0 else 0x8000000000000)
         else if ex = 0 then
           (if mant = 0 then sign
            else let k = length (takeWhile (\<lambda>i. \<not> bit mant i) (rev [0..<23]))
                 in sign OR push_bit 52 (of_nat (896 - k)) OR (push_bit (30 + k) (ucast mant) AND 0xFFFFFFFFFFFFF))
         else sign OR push_bit 52 (of_nat (ex + 896)) OR push_bit 29 (ucast mant))"

definition with_bytes :: "mp_err + nat \<times> bytes \<Rightarrow> (bytes \<Rightarrow> Value) \<Rightarrow> mp_err + Value \<times> bytes" where
  "with_bytes r f = (case r of
       Inl e \<Rightarrow> Inl e
     | Inr (n, b) \<Rightarrow> (case need n b of Inl e \<Rightarrow> Inl e | Inr (x, rest) \<Rightarrow> Inr (f x, rest)))"

text \<open>An extension: its type byte and data, kept with the header as they came.\<close>

definition ext :: "bytes \<Rightarrow> mp_err + nat \<times> bytes \<Rightarrow> mp_err + Value \<times> bytes" where
  "ext b r = (case r of
       Inl e \<Rightarrow> Inl e
     | Inr (n, c) \<Rightarrow> (case need (1 + n) c of Inl e \<Rightarrow> Inl e | Inr (x, rest) \<Rightarrow> Inr (VExt (take (length b - length rest) b), rest)))"

text \<open>Everything but arrays and maps.\<close>

definition scalar :: "byte \<Rightarrow> bytes \<Rightarrow> mp_err + Value \<times> bytes" where
  "scalar h rest =
     (if h = 0xC0 then Inr (VNil, rest)
      else if h = 0xC2 then Inr (VBool False, rest)
      else if h = 0xC3 then Inr (VBool True, rest)
      else if h \<in> {0xC4, 0xC5, 0xC6} then with_bytes (mp_length (unat (h - 0xC4)) rest) VBin
      else if h = 0xCA then with_bytes (Inr (4, rest)) (\<lambda>x. VFloat (widen (get_u32_be x)))
      else if h = 0xCB then with_bytes (Inr (8, rest)) (\<lambda>x. VFloat (get_u64_be x))
      else if h \<in> {0xCC, 0xCD, 0xCE, 0xCF} then with_bytes (Inr (2 ^ unat (h - 0xCC), rest)) (\<lambda>x. VUint (num x))
      else if h \<in> {0xD0, 0xD1, 0xD2, 0xD3} then
        (let n = 2 ^ unat (h - 0xD0); shift = 64 - 8 * n
         in with_bytes (Inr (n, rest)) (\<lambda>x. VInt (sint (signed_drop_bit shift (push_bit shift (num x))))))
      else if h \<in> {0xD9, 0xDA, 0xDB} then with_bytes (mp_length (unat (h - 0xD9)) rest) VStr
      else if h \<in> {0xD4, 0xD5, 0xD6, 0xD7, 0xD8} then ext (h # rest) (Inr (2 ^ unat (h - 0xD4), rest))
      else if h \<in> {0xC7, 0xC8, 0xC9} then ext (h # rest) (mp_length (unat (h - 0xC7)) rest)
      else Inl (UnsupportedType h))"

text \<open>The number of elements when the header announces an array or a map.\<close>

definition array_len :: "byte \<Rightarrow> bytes \<Rightarrow> (mp_err + nat \<times> bytes) option" where
  "array_len h rest = (if h AND 0xF0 = 0x90 then Some (Inr (unat (h AND 0x0F), rest))
     else if h \<in> {0xDC, 0xDD} then Some (mp_length (unat (h - 0xDC + 1)) rest) else None)"

definition map_len :: "byte \<Rightarrow> bytes \<Rightarrow> (mp_err + nat \<times> bytes) option" where
  "map_len h rest = (if h AND 0xF0 = 0x80 then Some (Inr (unat (h AND 0x0F), rest))
     else if h \<in> {0xDE, 0xDF} then Some (mp_length (unat (h - 0xDE + 1)) rest) else None)"

lemma need_shorter: "need n b = Inr (x, rest) \<Longrightarrow> length x = n \<and> b = x @ rest"
  by (auto simp: need_def split: if_splits)

lemma mp_length_shorter: "mp_length sz b = Inr (n, rest) \<Longrightarrow> length rest < length b \<and> n \<le> 2 ^ 31 \<and> suffix rest b"
proof -
  assume "mp_length sz b = Inr (n, rest)"
  then obtain x where "need (2 ^ sz) b = Inr (x, rest)" "\<not> num x > 2 ^ 31" "n = unat (num x)"
    by (auto simp: mp_length_def split: sum.splits prod.splits if_splits)
  moreover from this have "length x = 2 ^ sz" "b = x @ rest"
    by (auto dest: need_shorter)
  moreover from this have "x \<noteq> []"
    by auto
  ultimately show ?thesis
    by (simp add: suffix_def word_less_nat_alt not_less)
qed

lemma array_len_shorter: "array_len h rest = Some (Inr (n, c)) \<Longrightarrow> length c \<le> length rest"
  by (auto simp: array_len_def dest!: mp_length_shorter split: if_splits)

lemma map_len_shorter: "map_len h rest = Some (Inr (n, c)) \<Longrightarrow> length c \<le> length rest"
  by (auto simp: map_len_def dest!: mp_length_shorter split: if_splits)

function decode_value :: "bytes \<Rightarrow> mp_err + Value \<times> bytes"
  and decode_array :: "nat \<Rightarrow> bytes \<Rightarrow> Value list \<Rightarrow> mp_err + Value \<times> bytes"
  and decode_mapv :: "nat \<Rightarrow> bytes \<Rightarrow> (Value \<times> Value) list \<Rightarrow> mp_err + Value \<times> bytes" where
  "decode_value [] = Inl ErrMsgpack"
| "decode_value (h # rest) =
     (if h \<le> 0x7F then Inr (VUint (ucast h), rest)
      else if h \<ge> 0xE0 then Inr (VInt (sint h), rest)
      else if h AND 0xE0 = 0xA0 then with_bytes (Inr (unat (h AND 0x1F), rest)) VStr
      else (case array_len h rest of
          Some (Inl e) \<Rightarrow> Inl e
        | Some (Inr (n, c)) \<Rightarrow> decode_array n c []
        | None \<Rightarrow> (case map_len h rest of
            Some (Inl e) \<Rightarrow> Inl e
          | Some (Inr (n, c)) \<Rightarrow> decode_mapv n c []
          | None \<Rightarrow> scalar h rest)))"
| "decode_array 0 b out = Inr (VArray out, b)"
| "decode_array (Suc n) b out = (case decode_value b of
       Inl e \<Rightarrow> Inl e
     | Inr (e, c) \<Rightarrow> if length c < length b then decode_array n c (out @ [e]) else Inl ErrMsgpack)"
| "decode_mapv 0 b out = Inr (VMap out, b)"
| "decode_mapv (Suc n) b out = (case decode_value b of
       Inl e \<Rightarrow> Inl e
     | Inr (k, c) \<Rightarrow> if length c < length b then
         (case decode_value c of
            Inl e \<Rightarrow> Inl e
          | Inr (v, d) \<Rightarrow> if length d < length c then decode_mapv n d (out @ [(k, v)]) else Inl ErrMsgpack)
         else Inl ErrMsgpack)"
  by pat_completeness auto
termination
  by (relation "measure (\<lambda>x. case x of Inl b \<Rightarrow> 2 * length b | Inr (Inl (n, b, out)) \<Rightarrow> 2 * length b + 1
      | Inr (Inr (n, b, out)) \<Rightarrow> 2 * length b + 1)")
    (auto dest!: array_len_shorter map_len_shorter)

definition UnpackValue :: "bytes \<Rightarrow> mp_err + Value \<times> nat" where
  "UnpackValue b = (case decode_value b of Inl e \<Rightarrow> Inl e | Inr (v, rest) \<Rightarrow> Inr (v, length b - length rest))"

section \<open>Numbers\<close>

lemma be_val_snoc: "be_val (b @ [c]) = be_val b * 256 + unat c"
  by (simp add: be_val_def)

lemma be_val_single: "be_val [c] = unat c"
  by (simp add: be_val_def)

lemma shift_in: "push_bit 8 u OR ucast (c :: byte) = u * 256 + (ucast c :: 64 word)"
proof -
  have "push_bit 8 u AND (ucast c :: 64 word) = 0"
    by (rule bit_eqI) (auto simp: bit_simps dest: bit_imp_le_length)
  then have "push_bit 8 u OR (ucast c :: 64 word) = push_bit 8 u + ucast c"
    by (simp add: disjunctive_add_eq_or)
  then show ?thesis
    by (simp add: push_bit_eq_mult)
qed

lemma num_be_val: "num b = of_nat (be_val b)"
proof (induction b rule: rev_induct)
  case (snoc c b)
  then show ?case
    by (simp add: num_def shift_in be_val_snoc of_nat_unat)
qed (simp add: num_def be_val_def)

lemma num_put: "num (put_u16_be a) = ucast a" "num (put_u32_be b) = ucast b" "num (put_u64_be c) = c" "num [d] = ucast d"
  by (simp_all add: num_be_val put_u16_be_def put_u32_be_def put_u64_be_def of_nat_unat be_val_single)

lemma sign_extend: "s < 64 \<Longrightarrow> sint (signed_drop_bit s (push_bit s (u :: 64 word))) = signed_take_bit (63 - s) (uint u)"
proof (rule bit_eqI)
  fix n assume "s < 64"
  then show "bit (sint (signed_drop_bit s (push_bit s u))) n = bit (signed_take_bit (63 - s) (uint u)) n"
    by (cases "n = 63 - s"; cases "s = 0") (auto simp: bit_simps min_def)
qed

section \<open>Round trip\<close>

text \<open>
  What the decoder can produce, and what the encoder needs to be read back: integers of 64 bits,
  lengths the decoder accepts, extensions with a header that fits their bytes.
\<close>

definition ext_ok :: "bytes \<Rightarrow> bool" where
  "ext_ok e = (case e of [] \<Rightarrow> False | h # x \<Rightarrow>
     if h \<in> {0xD4, 0xD5, 0xD6, 0xD7, 0xD8} then length x = 1 + 2 ^ unat (h - 0xD4)
     else h \<in> {0xC7, 0xC8, 0xC9} \<and>
       (case mp_length (unat (h - 0xC7)) x of Inl er \<Rightarrow> False | Inr (n, c) \<Rightarrow> length c = 1 + n))"

fun packable :: "Value \<Rightarrow> bool" where
  "packable (VInt i) \<longleftrightarrow> - (2 ^ 63) \<le> i \<and> i < 2 ^ 63"
| "packable (VStr s) \<longleftrightarrow> length s \<le> 2 ^ 31"
| "packable (VBin b) \<longleftrightarrow> length b \<le> 2 ^ 31"
| "packable (VArray vs) \<longleftrightarrow> length vs \<le> 2 ^ 31 \<and> (\<forall>v \<in> set vs. packable v)"
| "packable (VMap kvs) \<longleftrightarrow> length kvs \<le> 2 ^ 31 \<and> (\<forall>(k, v) \<in> set kvs. packable k \<and> packable v)"
| "packable (VExt e) \<longleftrightarrow> ext_ok e"
| "packable v \<longleftrightarrow> True"

text \<open>A non-negative \<open>KindInt\<close> is written as the \<open>KindUint\<close> it equals.\<close>

fun canon :: "Value \<Rightarrow> Value" where
  "canon (VInt i) = mp_Int i"
| "canon (VArray vs) = VArray (map canon vs)"
| "canon (VMap kvs) = VMap (map (\<lambda>(k, v). (canon k, canon v)) kvs)"
| "canon v = v"

lemma fold_append: "(\<And>x out. x \<in> set xs \<Longrightarrow> g x out = out @ f x) \<Longrightarrow> fold g xs out = out @ concat (map f xs)"
  by (induction xs arbitrary: out) auto

lemma appendValue_Pack: "appendValue out v = out @ Pack v"
proof (induction v arbitrary: out)
  case (VArray vs)
  then have "fold (\<lambda>e out. appendValue out e) vs out = out @ concat (map Pack vs)" for out
    by (intro fold_append) auto
  then show ?case
    by (simp add: Pack_def)
next
  case (VMap kvs)
  have "appendValue (appendValue out k) v = out @ Pack k @ Pack v" if "(k, v) \<in> set kvs" for k v out
    using VMap [OF that, of k] VMap [OF that, of v] by simp
  then have "fold (\<lambda>(k, v) out. appendValue (appendValue out k) v) kvs out = out @ concat (map (\<lambda>(k, v). Pack k @ Pack v) kvs)" for out
    by (intro fold_append) auto
  then show ?case
    by (simp add: Pack_def)
qed (simp_all add: Pack_def)

lemma Pack_simps:
  "Pack VNil = [0xC0]"
  "Pack (VBool b) = [if b then 0xC3 else 0xC2]"
  "Pack (VUint u) = pack_uint u"
  "Pack (VInt i) = pack_int i"
  "Pack (VFloat f) = 0xCB # put_u64_be f"
  "Pack (VStr s) = str_header (length s) @ s"
  "Pack (VBin c) = bin_header (length c) @ c"
  "Pack (VArray vs) = array_header (length vs) @ concat (map Pack vs)"
  "Pack (VMap kvs) = map_header (length kvs) @ concat (map (\<lambda>(k, v). Pack k @ Pack v) kvs)"
  "Pack (VExt e) = e"
proof -
  have "fold (\<lambda>e out. appendValue out e) vs out = out @ concat (map Pack vs)" for out
    by (rule fold_append) (rule appendValue_Pack)
  then show "Pack (VArray vs) = array_header (length vs) @ concat (map Pack vs)"
    by (simp add: Pack_def [of "VArray vs"])
  have "fold (\<lambda>(k, v) out. appendValue (appendValue out k) v) kvs out = out @ concat (map (\<lambda>(k, v). Pack k @ Pack v) kvs)" for out
    by (rule fold_append) (simp add: appendValue_Pack split_beta)
  then show "Pack (VMap kvs) = map_header (length kvs) @ concat (map (\<lambda>(k, v). Pack k @ Pack v) kvs)"
    by (simp add: Pack_def [of "VMap kvs"])
qed (simp_all add: Pack_def)

lemma fix_headers:
  "\<forall>n \<in> set [0..<32]. (0x7F :: byte) < 0xA0 OR of_nat n \<and> 0xA0 OR of_nat n < (0xE0 :: byte)
     \<and> (0xA0 OR of_nat n) AND 0xE0 = (0xA0 :: byte) \<and> unat ((0xA0 OR of_nat n) AND 0x1F :: byte) = n"
  "\<forall>n \<in> set [0..<16]. (0x7F :: byte) < 0x90 OR of_nat n \<and> 0x90 OR of_nat n < (0xE0 :: byte) \<and> (0x90 OR of_nat n) AND 0xE0 \<noteq> (0xA0 :: byte)
     \<and> (0x90 OR of_nat n) AND 0xF0 = (0x90 :: byte) \<and> unat ((0x90 OR of_nat n) AND 0x0F :: byte) = n"
  "\<forall>n \<in> set [0..<16]. (0x7F :: byte) < 0x80 OR of_nat n \<and> 0x80 OR of_nat n < (0xE0 :: byte) \<and> (0x80 OR of_nat n) AND 0xE0 \<noteq> (0xA0 :: byte)
     \<and> 0x80 OR of_nat n \<notin> {0xDC, 0xDD :: byte} \<and> (0x80 OR of_nat n) AND 0xF0 = (0x80 :: byte) \<and> unat ((0x80 OR of_nat n) AND 0x0F :: byte) = n"
  by (simp_all add: upt_rec)

lemma with_bytes_app: "length x = n \<Longrightarrow> with_bytes (Inr (n, x @ r)) f = Inr (f x, r)"
  by (simp add: with_bytes_def need_def)

lemma mp_length_app:
  assumes "length x = 2 ^ sz" "be_val x \<le> 2 ^ 31"
  shows "mp_length sz (x @ r) = Inr (be_val x, r)"
proof -
  have "unat (of_nat (be_val x) :: 64 word) = be_val x"
    using assms(2) by (simp add: unat_of_nat)
  then show ?thesis
    using assms by (simp add: mp_length_def need_def num_be_val word_less_nat_alt)
qed

lemma mp_length_put:
  "n < 2 ^ 8 \<Longrightarrow> mp_length 0 (of_nat n # r) = Inr (n, r)"
  "n < 2 ^ 16 \<Longrightarrow> mp_length (Suc 0) (put_u16_be (of_nat n) @ r) = Inr (n, r)"
  "n \<le> 2 ^ 31 \<Longrightarrow> mp_length 2 (put_u32_be (of_nat n) @ r) = Inr (n, r)"
  using mp_length_app [of "[of_nat n]" 0 r] mp_length_app [of "put_u16_be (of_nat n)" 1 r] mp_length_app [of "put_u32_be (of_nat n)" 2 r]
  by (simp_all add: be_val_single put_u16_be_def put_u32_be_def unat_of_nat)

lemma small_take: "unat u < 2 ^ n \<Longrightarrow> take_bit n u = (u :: 64 word)"
  by (rule unsigned_word_eqI [where ?'a = nat]) (simp add: unsigned_take_bit_eq take_bit_nat_eq_self)

lemma narrow_back:
  "u < 2 ^ 8 \<Longrightarrow> ucast (ucast u :: 8 word) = (u :: 64 word)"
  "u < 2 ^ 16 \<Longrightarrow> ucast (ucast u :: 16 word) = u"
  "u < 2 ^ 32 \<Longrightarrow> ucast (ucast u :: 32 word) = u"
  by (simp_all add: word_less_nat_alt unsigned_ucast_eq small_take)

lemma decode_uint: "decode_value (pack_uint u @ r) = Inr (VUint u, r)"
proof -
  consider (a) "u < 128" | (b) "\<not> u < 128" "u < 2 ^ 8" | (c) "\<not> u < 2 ^ 8" "u < 2 ^ 16" | (d) "\<not> u < 2 ^ 16" "u < 2 ^ 32" | (e) "\<not> u < 2 ^ 32"
    by blast
  then show ?thesis
  proof cases
    case a
    then have "(ucast u :: byte) \<le> 0x7F" "u < 2 ^ 8"
      by (auto simp: word_le_nat_alt word_less_nat_alt unsigned_ucast_eq unsigned_take_bit_eq take_bit_eq_mod)
    then show ?thesis
      using a by (simp add: pack_uint_def narrow_back)
  next
    case b
    then show ?thesis
      using with_bytes_app [of "[ucast u]"] by (simp add: pack_uint_def scalar_def array_len_def map_len_def num_put narrow_back)
  next
    case c
    then have "\<not> u < 128"
      by (simp add: word_less_nat_alt)
    then show ?thesis
      using c by (simp add: pack_uint_def scalar_def array_len_def map_len_def num_put narrow_back with_bytes_app)
  next
    case d
    then have "\<not> u < 128" "\<not> u < 2 ^ 8"
      by (simp_all add: word_less_nat_alt)
    then show ?thesis
      using d by (simp add: pack_uint_def scalar_def array_len_def map_len_def num_put narrow_back with_bytes_app)
  next
    case e
    then have "\<not> u < 128" "\<not> u < 2 ^ 8" "\<not> u < 2 ^ 16"
      by (simp_all add: word_less_nat_alt)
    then show ?thesis
      using e by (simp add: pack_uint_def scalar_def array_len_def map_len_def num_put with_bytes_app)
  qed
qed

lemma extend_back:
  "- (2 ^ 7) \<le> i \<Longrightarrow> i < 0 \<Longrightarrow> sint (signed_drop_bit 56 (push_bit 56 (ucast (of_int i :: 8 word) :: 64 word))) = i"
  "- (2 ^ 15) \<le> i \<Longrightarrow> i < 0 \<Longrightarrow> sint (signed_drop_bit 48 (push_bit 48 (ucast (of_int i :: 16 word) :: 64 word))) = i"
  "- (2 ^ 31) \<le> i \<Longrightarrow> i < 0 \<Longrightarrow> sint (signed_drop_bit 32 (push_bit 32 (ucast (of_int i :: 32 word) :: 64 word))) = i"
  by (simp_all only: sign_extend)
    (simp_all add: unsigned_ucast_eq unsigned_take_bit_eq unsigned_of_int signed_take_bit_take_bit signed_take_bit_int_eq_self)

lemma int64_back: "- (2 ^ 63) \<le> i \<Longrightarrow> i < 0 \<Longrightarrow> sint (of_int i :: 64 word) = i"
  by (simp add: signed_of_int signed_take_bit_int_eq_self)

lemma decode_int:
  assumes "- (2 ^ 63) \<le> i" "i < 2 ^ 63" shows "decode_value (pack_int i @ r) = Inr (mp_Int i, r)"
proof -
  consider (u) "i \<ge> 0" | (a) "i < 0" "i \<ge> -32" | (b) "i < -32" "i \<ge> - (2 ^ 7)" | (c) "i < - (2 ^ 7)" "i \<ge> - (2 ^ 15)"
    | (d) "i < - (2 ^ 15)" "i \<ge> - (2 ^ 31)" | (e) "i < - (2 ^ 31)"
    by linarith
  then show ?thesis
  proof cases
    case u
    then show ?thesis
      by (simp add: pack_int_def mp_Int_def decode_uint)
  next
    case a
    then have "i mod 256 = i + 256"
      by presburger
    with a have "uint (of_int i :: byte) = i + 256" "sint (of_int i :: byte) = i"
      by (simp_all add: unsigned_of_int signed_of_int take_bit_eq_mod signed_take_bit_int_eq_self)
    then have "\<not> (of_int i :: byte) \<le> 0x7F" "(of_int i :: byte) \<ge> 0xE0" "sint (of_int i :: byte) = i"
      using a by (simp_all add: word_le_def)
    then show ?thesis
      using a by (simp add: pack_int_def mp_Int_def)
  next
    case b
    then show ?thesis
      using with_bytes_app [of "[of_int i]"]
      by (simp add: pack_int_def mp_Int_def scalar_def array_len_def map_len_def num_put extend_back)
  qed (use assms in \<open>simp_all add: pack_int_def mp_Int_def scalar_def array_len_def map_len_def num_put with_bytes_app extend_back int64_back\<close>)
qed

lemma decode_str: "length s \<le> 2 ^ 31 \<Longrightarrow> decode_value (str_header (length s) @ s @ r) = Inr (VStr s, r)"
  using fix_headers(1) [rule_format, of "length s"]
  by (auto simp: str_header_def scalar_def array_len_def map_len_def mp_length_put with_bytes_app not_le)

lemma decode_bin: "length s \<le> 2 ^ 31 \<Longrightarrow> decode_value (bin_header (length s) @ s @ r) = Inr (VBin s, r)"
  by (auto simp: bin_header_def scalar_def array_len_def map_len_def mp_length_put with_bytes_app)

lemma decode_array_header: "n \<le> 2 ^ 31 \<Longrightarrow> decode_value (array_header n @ r) = decode_array n r []"
  using fix_headers(2) [rule_format, of n]
  by (auto simp: array_header_def array_len_def mp_length_put not_le)

lemma decode_map_header: "n \<le> 2 ^ 31 \<Longrightarrow> decode_value (map_header n @ r) = decode_mapv n r []"
  using fix_headers(3) [rule_format, of n]
  by (auto simp: map_header_def array_len_def map_len_def mp_length_put not_le)

lemma decode_ext:
  assumes "ext_ok e" shows "decode_value (e @ r) = Inr (VExt e, r)"
proof -
  from assms obtain h x where e: "e = h # x"
    by (auto simp: ext_ok_def split: list.splits)
  show ?thesis
  proof (cases "h \<in> {0xD4, 0xD5, 0xD6, 0xD7, 0xD8}")
    case True
    with assms e have "length x = 1 + 2 ^ unat (h - 0xD4)"
      by (simp add: ext_ok_def)
    then have "ext (h # x @ r) (Inr (2 ^ unat (h - 0xD4), x @ r)) = Inr (VExt e, r)"
      by (simp add: ext_def need_def e)
    then show ?thesis
      using True by (auto simp: e scalar_def array_len_def map_len_def)
  next
    case False
    with assms e obtain n c where h: "h \<in> {0xC7, 0xC8, 0xC9}" and l: "mp_length (unat (h - 0xC7)) x = Inr (n, c)" "length c = 1 + n"
      by (auto simp: ext_ok_def split: sum.splits)
    from l(1) have "mp_length (unat (h - 0xC7)) (x @ r) = Inr (n, c @ r)"
      by (auto simp: mp_length_def need_def split: if_splits)
    then have "ext (h # x @ r) (mp_length (unat (h - 0xC7)) (x @ r)) = Inr (VExt e, r)"
      using l(2) by (simp add: ext_def need_def e)
    then show ?thesis
      using h by (auto simp: e scalar_def array_len_def map_len_def)
  qed
qed

lemma header_nonempty [simp]: "str_header n \<noteq> []" "bin_header n \<noteq> []" "array_header n \<noteq> []" "map_header n \<noteq> []" "pack_uint u \<noteq> []" "pack_int i \<noteq> []"
  by (simp_all add: str_header_def bin_header_def array_header_def map_header_def pack_uint_def pack_int_def)

lemma Pack_nonempty: "packable v \<Longrightarrow> Pack v \<noteq> []"
  by (cases v) (auto simp: Pack_simps ext_ok_def)

lemma decode_elements:
  assumes "\<And>v r. v \<in> set vs \<Longrightarrow> decode_value (Pack v @ r) = Inr (canon v, r)" "\<And>v. v \<in> set vs \<Longrightarrow> packable v"
  shows "decode_array (length vs) (concat (map Pack vs) @ r) out = Inr (VArray (out @ map canon vs), r)"
  using assms
proof (induction vs arbitrary: out)
  case (Cons v vs)
  then show ?case
    using Pack_nonempty [of v] by simp
qed simp

lemma decode_entries:
  assumes "\<And>k v r. (k, v) \<in> set kvs \<Longrightarrow> decode_value (Pack k @ r) = Inr (canon k, r) \<and> decode_value (Pack v @ r) = Inr (canon v, r)"
    "\<And>k v. (k, v) \<in> set kvs \<Longrightarrow> packable k \<and> packable v"
  shows "decode_mapv (length kvs) (concat (map (\<lambda>(k, v). Pack k @ Pack v) kvs) @ r) out
    = Inr (VMap (out @ map (\<lambda>(k, v). (canon k, canon v)) kvs), r)"
  using assms
proof (induction kvs arbitrary: out)
  case (Cons kv kvs)
  obtain k v where [simp]: "kv = (k, v)"
    by (cases kv)
  have "decode_value (Pack k @ r) = Inr (canon k, r)" "decode_value (Pack v @ r) = Inr (canon v, r)" for r
    using Cons.prems(1) [of k v r] by simp_all
  moreover have "Pack k \<noteq> []" "Pack v \<noteq> []"
    using Cons.prems(2) [of k v] by (simp_all add: Pack_nonempty)
  moreover have "decode_mapv (length kvs) (concat (map (\<lambda>(k, v). Pack k @ Pack v) kvs) @ r) out
      = Inr (VMap (out @ map (\<lambda>(k, v). (canon k, canon v)) kvs), r)" for out
    by (rule Cons.IH; rule Cons.prems; simp)
  ultimately show ?case
    by simp
qed simp

lemma decode_Pack: "packable v \<Longrightarrow> decode_value (Pack v @ r) = Inr (canon v, r)"
proof (induction v arbitrary: r)
  case (VArray vs)
  then show ?case
    using decode_elements [of vs r "[]"] by (simp add: Pack_simps decode_array_header)
next
  case (VMap kvs)
  have "decode_value (Pack k @ r) = Inr (canon k, r) \<and> decode_value (Pack v @ r) = Inr (canon v, r)" if "(k, v) \<in> set kvs" for k v r
    using VMap.IH [OF that, of k] VMap.IH [OF that, of v] VMap.prems that by auto
  then show ?case
    using decode_entries [of kvs r "[]"] VMap.prems by (fastforce simp: Pack_simps decode_map_header)
qed (simp_all add: Pack_simps decode_uint decode_int decode_str decode_bin decode_ext scalar_def array_len_def map_len_def with_bytes_app)

section \<open>What the decoder accepts\<close>

lemma need_Inr: "need n b = Inr (x, rest) \<longleftrightarrow> b = x @ rest \<and> length x = n"
  by (auto simp: need_def)

lemma with_bytes_result:
  "with_bytes r f = Inr (v, rest) \<Longrightarrow> \<exists>x. r = Inr (length x, x @ rest) \<and> v = f x"
  by (cases r) (auto simp: with_bytes_def need_Inr split: sum.splits)

lemma ext_result:
  assumes "ext (h # b) (Inr (n, c)) = Inr (v, rest)" "suffix c b"
  obtains x where "v = VExt (h # x)" "b = x @ rest" "length c = 1 + n + length rest" 
proof -
  from assms(2) obtain y where y: "b = y @ c"
    by (auto simp: suffix_def)
  from assms(1) obtain z where z: "c = z @ rest" "length z = 1 + n" "v = VExt (take (length (h # b) - length rest) (h # b))"
    by (auto simp: ext_def need_Inr split: sum.splits)
  then have "v = VExt (h # y @ z)"
    using y by simp
  then show ?thesis
    using that [of "y @ z"] y z by simp
qed

lemma scalar_sound:
  assumes "scalar h b = Inr (v, rest)" shows "packable v \<and> suffix rest b"
proof -
  have len: "length x \<le> 2 ^ 31 \<and> suffix rest b" if "mp_length sz b = Inr (length x, x @ rest)" for sz x
    using mp_length_shorter [OF that] by (meson suffixI suffix_order.trans)
  have int64: "- (2 ^ 63) \<le> sint w \<and> sint w < 2 ^ 63" for w :: "64 word"
    using sint_ge [of w] sint_lt [of w] by simp
  consider (fixed) "h \<in> {0xD4, 0xD5, 0xD6, 0xD7, 0xD8}" | (var) "h \<in> {0xC7, 0xC8, 0xC9}" | (plain) "h \<notin> {0xD4, 0xD5, 0xD6, 0xD7, 0xD8}" "h \<notin> {0xC7, 0xC8, 0xC9}"
    by blast
  then show ?thesis
  proof cases
    case fixed
    then have "ext (h # b) (Inr (2 ^ unat (h - 0xD4), b)) = Inr (v, rest)"
      using assms by (auto simp: scalar_def)
    then obtain x where "v = VExt (h # x)" "b = x @ rest" "length b = 1 + 2 ^ unat (h - 0xD4) + length rest"
      by (rule ext_result) auto
    then show ?thesis
      using fixed by (simp add: ext_ok_def suffix_def)
  next
    case var
    then have "ext (h # b) (mp_length (unat (h - 0xC7)) b) = Inr (v, rest)"
      using assms by (auto simp: scalar_def)
    moreover from this obtain n c where l: "mp_length (unat (h - 0xC7)) b = Inr (n, c)"
      by (cases "mp_length (unat (h - 0xC7)) b") (auto simp: ext_def)
    ultimately obtain x where x: "v = VExt (h # x)" "b = x @ rest" "length c = 1 + n + length rest"
      using mp_length_shorter [OF l] by (metis ext_result)
    then have "mp_length (unat (h - 0xC7)) x = Inr (n, take (1 + n) c)"
      using l by (auto simp: mp_length_def need_def split: if_splits)
    then show ?thesis
      using var x by (auto simp: ext_ok_def suffix_def)
  next
    case plain
    then show ?thesis
      using assms len int64 by (auto simp: scalar_def Let_def suffix_def dest!: with_bytes_result split: if_splits)
  qed
qed

end
