(* ===== verification/MsgPackSound.thy ===== *)
theory MsgPackSound
  imports MsgPack
begin

text \<open>
  What the MessagePack decoder accepts: it returns encodable values only, consumes at least a byte
  and never reads past the input, and its loops need no guard. Re-encoding what was decoded is
  stable, which the LXMF hash of a re-encoded payload relies on.
\<close>

lemma byte_len: "unat (b :: byte) \<le> 2 ^ 31"
  by (rule less_imp_le, rule less_le_trans, rule unat_byte_less) simp

lemma array_len_bound: "array_len h b = Some (Inr (n, c)) \<Longrightarrow> n \<le> 2 ^ 31 \<and> suffix c b"
  using byte_len [of "h AND 0x0F"]
  by (auto simp: array_len_def word_le_nat_alt dest!: mp_length_shorter split: if_splits)

lemma map_len_bound: "map_len h b = Some (Inr (n, c)) \<Longrightarrow> n \<le> 2 ^ 31 \<and> suffix c b"
  using byte_len [of "h AND 0x0F"]
  by (auto simp: map_len_def word_le_nat_alt dest!: mp_length_shorter split: if_splits)

lemma short_str: "with_bytes (Inr (unat (h AND 0x1F :: byte), b)) VStr = Inr (v, rest) \<Longrightarrow> packable v \<and> suffix rest b"
  using byte_len [of "h AND 0x1F"] by (auto simp: word_le_nat_alt suffix_def dest!: with_bytes_result)

lemma strict_suffix_Cons: "suffix xs ys \<Longrightarrow> strict_suffix xs (y # ys)"
  by (metis length_Cons not_less_eq_eq order_refl strict_suffix_def suffix_ConsI suffix_length_le)

lemma decode_sound:
  assumes L: "L = (2 :: nat) ^ 31"
  shows
  "decode_value b = Inr (v, rest) \<Longrightarrow> packable v \<and> strict_suffix rest b"
  "decode_array n b es = Inr (v, rest) \<Longrightarrow> n + length es \<le> L \<Longrightarrow> list_all packable es \<Longrightarrow> packable v \<and> suffix rest b"
  "decode_mapv n b kvs = Inr (v, rest) \<Longrightarrow> n + length kvs \<le> L \<Longrightarrow> list_all (\<lambda>(k, v). packable k \<and> packable v) kvs \<Longrightarrow> packable v \<and> suffix rest b"
proof (induct b and n b es and n b kvs arbitrary: v rest and v rest and v rest rule: decode_value_decode_array_decode_mapv.induct)
  case (2 h c)
  have s: "- (2 ^ 63) \<le> sint h" "sint h < 2 ^ 63"
    using sint_ge [of h] sint_lt [of h] by simp_all
  have "packable v \<and> suffix rest c"
  proof (cases "h \<le> 0x7F \<or> h \<ge> 0xE0 \<or> h AND 0xE0 = 0xA0")
    case True
    then show ?thesis
      using 2(3) s short_str [of h c v rest] by (auto split: if_splits)
  next
    case False
    then consider (a) n d where "array_len h c = Some (Inr (n, d))" "decode_array n d [] = Inr (v, rest)"
      | (m) n d where "array_len h c = None" "map_len h c = Some (Inr (n, d))" "decode_mapv n d [] = Inr (v, rest)"
      | (t) "scalar h c = Inr (v, rest)"
      using 2(3) by (auto split: option.splits sum.splits)
    then show ?thesis
    proof cases
      case a
      then show ?thesis
        using 2(2) [OF _ _ _ a(1) refl refl a(2)] False L array_len_bound [OF a(1)] by (auto dest: suffix_order.trans)
    next
      case m
      then show ?thesis
        using 2(1) [OF _ _ _ m(1,2) refl refl m(3)] False L map_len_bound [OF m(2)] by (auto dest: suffix_order.trans)
    next
      case t
      then show ?thesis
        by (rule scalar_sound)
    qed
  qed
  then show ?case
    by (simp add: strict_suffix_Cons)
next
  case (4 n b out)
  then obtain e d where d: "decode_value b = Inr (e, d)" "length d < length b" "decode_array n d (out @ [e]) = Inr (v, rest)"
    by (auto split: sum.splits if_splits)
  have "packable e \<and> strict_suffix d b"
    using 4(1) d(1) by blast
  moreover from this have "packable v \<and> suffix rest d"
    using 4(2) [of "(e, d)" e d v rest] 4(4,5) d by simp
  ultimately show ?case
    by (meson strict_suffix_def suffix_order.trans)
next
  case (6 n b out)
  then obtain k c x d where d: "decode_value b = Inr (k, c)" "length c < length b" "decode_value c = Inr (x, d)" "length d < length c"
      "decode_mapv n d (out @ [(k, x)]) = Inr (v, rest)"
    by (auto split: sum.splits if_splits)
  have "packable k \<and> strict_suffix c b" 
    using 6(1) d(1) by blast
  moreover have "packable x \<and> strict_suffix d c"
    using 6(2) [of "(k, c)" k c] d by blast
  moreover from calculation have "packable v \<and> suffix rest d"
    using 6(3) [of "(k, c)" k c "(x, d)" x d v rest] 6(5,6) d by simp
  ultimately show ?case
    by (meson strict_suffix_def suffix_order.trans)
next
  case (3 b out)
  then have "v = VArray out" "rest = b"
    by simp_all
  then show ?case
    using 3(2,3) L by (simp add: list_all_iff)
next
  case (5 b out)
  then have "v = VMap out" "rest = b"
    by simp_all
  then show ?case
    using 5(2,3) L by (simp add: list_all_iff)
qed simp

lemmas decode_value_sound = decode_sound(1) [OF refl]

text \<open>The loops as the code has them, without the guards on the length of the rest.\<close>

lemma decode_array_loop:
  "decode_array (Suc n) b out = (case decode_value b of Inl e \<Rightarrow> Inl e | Inr (e, c) \<Rightarrow> decode_array n c (out @ [e]))"
  by (auto split: sum.splits dest: decode_value_sound suffix_length_less)

lemma decode_mapv_loop:
  "decode_mapv (Suc n) b out = (case decode_value b of Inl e \<Rightarrow> Inl e | Inr (k, c) \<Rightarrow>
     (case decode_value c of Inl e \<Rightarrow> Inl e | Inr (v, d) \<Rightarrow> decode_mapv n d (out @ [(k, v)])))"
  by (auto split: sum.splits dest: decode_value_sound suffix_length_less)

lemma Pack_canon: "Pack (canon v) = Pack v"
proof (induction v)
  case (VInt i)
  then show ?case
    by (simp add: mp_Int_def Pack_simps pack_int_def)
next
  case (VArray vs)
  then have "map (Pack \<circ> canon) vs = map Pack vs"
    by simp
  then show ?case
    by (simp only: canon.simps Pack_simps length_map map_map)
next
  case (VMap kvs)
  have "map ((\<lambda>(k, v). Pack k @ Pack v) \<circ> (\<lambda>(k, v). (canon k, canon v))) kvs = map (\<lambda>(k, v). Pack k @ Pack v) kvs"
    using VMap by (auto simp: split_beta)
  then show ?case
    by (simp only: canon.simps Pack_simps length_map map_map)
qed simp_all

text \<open>C20: The encoder and the decoder of MessagePack are inverse: what \<^term>\<open>Pack v\<close> wrote, followed by any
  bytes, decodes to the same value and consumes exactly the written bytes, for every value whose
  lengths the format can hold and whose integers are written with their sign.\<close>

theorem pack_unpack:
  assumes "packable v" "canon v = v"
  shows "UnpackValue (Pack v @ r) = Inr (v, length (Pack v))"
  using assms decode_Pack [of v r] by (simp add: UnpackValue_def)

definition demo_value :: Value where
  "demo_value = VArray [VFloat 0x41D954FC4A000000, VBin [1, 2, 3], VStr [104, 105], VMap [(VUint 300, VInt (-40)), (VNil, VBool True)], VExt [0xD4, 5, 9]]"

lemma demo_value_ok: "packable demo_value" "canon demo_value = demo_value"
  by (simp_all add: demo_value_def ext_ok_def mp_Int_def)

theorem pack_unpack_witness: "UnpackValue (Pack demo_value @ [7]) = Inr (demo_value, length (Pack demo_value))"
  by (rule pack_unpack) (rule demo_value_ok)+

text \<open>C19: Re-encoding is stable: whatever \<^const>\<open>UnpackValue\<close> accepts, it consumes at least one and at most all
  bytes of the input, and \<^const>\<open>Pack\<close> of the decoded value is accepted again, decodes to the same
  value up to the sign kind of its integers, and packs to the same bytes, whatever shape the
  first encoding had. The hash LXMF takes of a re-encoded payload is thus well defined.\<close>

theorem unpack_repack:
  assumes "UnpackValue b = Inr (v, n)"
  shows "0 < n \<and> n \<le> length b \<and> UnpackValue (Pack v @ r) = Inr (canon v, length (Pack v)) \<and> Pack (canon v) = Pack v"
proof -
  from assms obtain rest where rest: "decode_value b = Inr (v, rest)" "n = length b - length rest"
    by (auto simp: UnpackValue_def split: sum.splits)
  then have "packable v" "length rest < length b"
    using decode_value_sound suffix_length_less by blast+
  then show ?thesis
    using rest(2) decode_Pack [of v r] by (simp add: UnpackValue_def Pack_canon)
qed

text \<open>A long form of the integer five, which the encoder writes in one byte.\<close>

theorem unpack_repack_witness:
  "UnpackValue [0xD0, 5, 9] = Inr (VInt 5, 2) \<and> UnpackValue (Pack (VInt 5) @ [9]) = Inr (VUint 5, 1)"
proof -
  have d: "UnpackValue [0xD0, 5, 9] = Inr (VInt 5, 2)"
    by (simp add: UnpackValue_def array_len_def map_len_def scalar_def with_bytes_def need_def num_def Let_def)
  have "UnpackValue (Pack (VInt 5) @ [9]) = Inr (canon (VInt 5), length (Pack (VInt 5)))"
    using unpack_repack [OF d, of "[9]"] by blast
  then show ?thesis
    using d by (simp add: mp_Int_def Pack_simps pack_int_def pack_uint_def)
qed

end
