(* ===== verification/Spec2Isabelle.thy ===== *)
theory Spec2Isabelle
  imports Fragment Bundle Custody Rlnc Fec Dedup OobService RnsPacket Ipougrs HubFlow SosReconcile AuditLog Smaz MsgPackSound
begin

text \<open>
  \<^bold>\<open>MeshSat Hub\<close>

  The hub connects devices and bridges in the field with each other and with the services of a
  tenant, over links that lose, repeat, reorder and cut messages: satellite modems, SMS, radio
  meshes, a message bus. What makes it correct are the formats and state machines that survive
  such links, and the tables that several replicas of the hub share. This library models those
  parts; file names are relative to \<^verbatim>\<open>src/\<close>.

  \<^bold>\<open>How the code is modelled.\<close> A byte string is a list of \<^verbatim>\<open>8 word\<close> values, other machine integers are words
  of their width wherever they can wrap, instants are integers of nanoseconds. A Go function is a
  HOL function; a method that changes its receiver takes the record of the receiver and returns
  it updated; an error is a value of a sum type with one constructor per cause, a panic is a case
  of its own where the code can reach one. What a mutex makes atomic is one step. The clock, random bytes,
  SHA-1, SHA-256, Ed25519, AES-GCM, the Reed-Solomon package, Redis and the default
  compression table are arguments, with their documented laws as hypotheses of the theorems that need
  them; those theorems are also applied to concrete functions for which the laws hold.
  Loops are structural recursions or recursions with a termination proof, without fuel. The one
  loop of the code that can run forever, joining the segments of a management reply, is a
  \<open>partial_function\<close> whose value None is not returning. Where the code has a bound (16 fragments, 64 counters of a
  replay window, 100 rows of a query, 8160 bytes of a key stream), the model has the same one.

  \<^bold>\<open>Shared theories.\<close>
  \<^item> \<open>Prelude\<close>: bytes, slices, fixed-width fields in both byte orders, finite maps, sorting, and
    the collections of rewrite rules the components use.
  \<^item> \<open>Runs\<close>: runs of a component over a list of timed events and the locale \<open>timed_simulation\<close>,
    which turns a step-wise simulation with an invariant into equal answers over all runs.
  \<^item> \<open>Slots\<close>: the locales \<open>slot_table\<close> (filling the numbered slots of one message in any order) and
    \<open>keyed_store\<close> (many such messages under keys, with other traffic between). The three
    reassemblers below are interpretations of both.
  \<^item> \<open>Strings\<close>, \<open>Wire\<close>, \<open>GoTime\<close>: what is used of Go's \<^verbatim>\<open>strings\<close>, \<^verbatim>\<open>strconv\<close> and \<^verbatim>\<open>time\<close>, and
    \<^verbatim>\<open>internal/wire\<close>.
  \<^item> \<open>Prog\<close>: programs over a shared store as resumptions, pools of them whose calls interleave, may fail
    before or after taking effect, or never return, and the locale \<open>protocol\<close> with the rely-guarantee
    rules.

  \<^bold>\<open>Messages over narrow links.\<close>
  \<^item> \<open>Fragment\<close> (\<^verbatim>\<open>internal/fragment\<close>), \<open>Bundle\<close> (\<^verbatim>\<open>internal/protocol/bundle.go\<close>), \<open>Ipougrs\<close>
    (\<^verbatim>\<open>internal/ipougrs\<close>): cutting and reassembly. Fragments in any order, between any other traffic,
    give back the message at the last one and leave nothing behind; the buffers stay bounded
    and well formed; expiry removes exactly what is old.
  \<^item> \<open>Custody\<close> (\<^verbatim>\<open>internal/protocol/custody.go\<close>): offers and signed acknowledgments, and the manager,
    which acts once on each offer.
  \<^item> \<open>Gf256\<close>, \<open>Rlnc\<close>, \<open>Fec\<close> (\<^verbatim>\<open>internal/protocol/rlnc.go\<close>, \<^verbatim>\<open>rlnc_resource.go\<close>, \<^verbatim>\<open>fec.go\<close>, \<^verbatim>\<open>fec_profiles.go\<close>): the tables
    make a field, elimination decodes exactly when the packets are independent, coded and
    erasure-protected messages come back.
  \<^item> \<open>Hdlc\<close>, \<open>RnsPacket\<close> (\<^verbatim>\<open>internal/rnswire\<close>, \<^verbatim>\<open>internal/reticulum\<close>): framing of a byte stream, packet
    headers, packet hashes and interface access codes.
  \<^item> \<open>Dedup\<close> (\<^verbatim>\<open>internal/dedup\<close>): both deduplicators refine one specification.
  \<^item> \<open>Smaz\<close> (\<^verbatim>\<open>internal/compress\<close>) and \<open>MsgPack\<close>, \<open>MsgPackSound\<close> (\<^verbatim>\<open>internal/msgpack\<close>): compression is
    lossless; the codec's round trip, and that re-encoding a decoded value is stable.
  \<^item> \<open>Crypto\<close> (\<^verbatim>\<open>internal/crypto\<close>): message encryption and the key store.
  \<^item> \<open>Topics\<close> (\<^verbatim>\<open>internal/mqtt/topics.go\<close>): topics of the bus and which tenant they belong to.

  \<^bold>\<open>Out-of-band management\<close> (\<^verbatim>\<open>internal/oob\<close>): \<open>Replay\<close> is the replay window on words, shown equal to
  remembering every counter; \<open>OobFrame\<close> the sealed frames and the scan for them in a text;
  \<open>OobCommands\<close> the allowlist; \<open>OobService\<close> pairing, sending and receiving over the store,
  with the theorems that nonces never repeat, that a frame acts at most once, and the hourly ceiling.

  \<^bold>\<open>App messages\<close> (\<^verbatim>\<open>internal/hubmsg\<close>, \<^verbatim>\<open>internal/store/sqlite/msgops.go\<close>): \<open>HubIds\<close> the identities and the content
  digest, \<open>HubStore\<close> the tables, \<open>HubEvidence\<close> the reduction of events to a state, \<open>HubMsg\<close> the
  handlers, delivery, expiry and publication. \<open>HubRun\<close> has runs of all of them and their invariant, \<open>HubFlow\<close>
  what follows: consistent tables, authentic messages, delivery, expiry, idempotence.

  \<^bold>\<open>Alerts\<close>: \<open>AlertStore\<close> the tables, \<open>Escalation\<close> (\<^verbatim>\<open>internal/escalation\<close>) and \<open>SosRuns\<close>
  (\<^verbatim>\<open>internal/sos/runs.go\<close>) programs over them. \<open>Ladder\<close> follows one alert through its chain;
  \<open>SosSafety\<close> has the invariant of all interleavings of several replicas, with failing
  calls, and that a cancelled call for help stays silent; \<open>SosReconcile\<close> that a round of the reconciler
  settles what is pending.

  \<^bold>\<open>Audit log\<close>: \<open>AuditLog\<close> (\<^verbatim>\<open>internal/audit\<close> and the statements of the SQLite store on the log): the chain
  always verifies, under retention too, and a changed chain does not.

  \<^bold>\<open>Not modelled.\<close> Clients of other services (satellite and SMS providers, payment, identity, object
  storage, Matrix, ntfy, Kubernetes) and everything whose content is a third-party
  protocol or package: X.509, TLS, XML and JSON codecs, WireGuard, protobuf. The HTTP
  API, configuration and the program's start connect the parts and decide little of their own. The
  Reticulum stack above the wire formats runs on goroutines and timers over key agreement. Positions,
  geofences, warnings and time synchronisation compute in floating point, which the
  library has no model of. The PostgreSQL store has the statements of the SQLite store; failures
  of a database are modelled for alerts and distress runs, where the code is built around them. JSON and SQL
  columns appear decoded. Of the modelled components, log lines, metrics and tickers
  are left out; a tick is an event of a run.
\<close>

end
